(* ===== verification/Prelude.thy ===== *)
theory Prelude
  imports Main "HOL-Library.Word" "HOL-Library.List_Lexorder"
begin

text \<open>
  Shared vocabulary of the development: the machine integers and byte strings the Rust code
  uses, Rust's three-valued \<open>Ordering\<close>, panics as values of a sum type, the \<open>Vec\<close>
  operations that can panic, and the contract of Rust's \<open>Ord\<close> trait as a locale.
  The two lemma collections declared here are filled by the component theories.
\<close>

named_theorems panic_simps \<open>evaluation of computations that may panic\<close>
named_theorems inv_intros \<open>operations that preserve a component's invariant\<close>

subsection \<open>Machine integers and byte strings\<close>

type_synonym u8 = "8 word"
type_synonym u16 = "16 word"
type_synonym u32 = "32 word"
type_synonym u64 = "64 word"
type_synonym bytes = "u8 list"

text \<open>A transaction, guard or request identifier (\<open>uuid::Uuid\<close> is sixteen bytes).\<close>

type_synonym uuid = "128 word"

subsection \<open>Panics\<close>

text \<open>
  Every operation of the source that can panic returns a value of type \<open>'a res\<close>:
  \<open>Inl\<close> of the reason, or \<open>Inr\<close> of the result. A computation that may also fail to
  return is an \<open>'a run\<close>: \<open>None\<close> is "does not return".
\<close>

datatype panic =
    UnwrapNone
  | UnwrapErr
  | OutOfBounds
  | Overflow
  | NotImplemented
  | UnreachableCode
  | Explicit string

type_synonym 'a res = "panic + 'a"
type_synonym 'a run = "'a res option"

definition rbind :: "'e + 'a \<Rightarrow> ('a \<Rightarrow> 'e + 'b) \<Rightarrow> 'e + 'b" where
  "rbind r f = (case r of Inl e \<Rightarrow> Inl e | Inr x \<Rightarrow> f x)"

lemma rbind_Inl [simp, panic_simps]: "rbind (Inl e) f = Inl e"
  by (simp add: rbind_def)

lemma rbind_Inr [simp, panic_simps]: "rbind (Inr x) f = f x"
  by (simp add: rbind_def)

lemma rbind_eq_Inr: "rbind r f = Inr y \<longleftrightarrow> (\<exists>x. r = Inr x \<and> f x = Inr y)"
  by (cases r) auto

lemma rbind_cong [fundef_cong]:
  "r = r' \<Longrightarrow> (\<And>x. r' = Inr x \<Longrightarrow> f x = f' x) \<Longrightarrow> rbind r f = rbind r' f'"
  by (cases r') auto

definition unwrap :: "'a option \<Rightarrow> 'a res" where
  "unwrap x = (case x of None \<Rightarrow> Inl UnwrapNone | Some v \<Rightarrow> Inr v)"

lemma unwrap_simps [simp, panic_simps]: "unwrap None = Inl UnwrapNone" "unwrap (Some v) = Inr v"
  by (simp_all add: unwrap_def)

definition unwrap_result :: "'e + 'a \<Rightarrow> 'a res" where
  "unwrap_result x = (case x of Inl _ \<Rightarrow> Inl UnwrapErr | Inr v \<Rightarrow> Inr v)"

lemma unwrap_result_simps [simp, panic_simps]:
  "unwrap_result (Inl e) = Inl UnwrapErr" "unwrap_result (Inr v) = Inr v"
  by (simp_all add: unwrap_result_def)

definition run_bind :: "'a run \<Rightarrow> ('a \<Rightarrow> 'b run) \<Rightarrow> 'b run" where
  "run_bind r f = Option.bind r (\<lambda>x. case x of Inl e \<Rightarrow> Some (Inl e) | Inr y \<Rightarrow> f y)"

lemma run_bind_simps [simp, panic_simps]:
  "run_bind None f = None"
  "run_bind (Some (Inl e)) f = Some (Inl e)"
  "run_bind (Some (Inr x)) f = f x"
  by (simp_all add: run_bind_def)

lemma run_bind_eq_Inr:
  "run_bind r f = Some (Inr y) \<longleftrightarrow> (\<exists>x. r = Some (Inr x) \<and> f x = Some (Inr y))"
  by (cases r; cases "the r") simp_all

lemma run_bind_mono [partial_function_mono]:
  assumes "mono_option B" "\<And>y. mono_option (\<lambda>f. C y f)"
  shows "mono_option (\<lambda>f. run_bind (B f) (\<lambda>y. C y f))"
proof -
  have "mono_option (\<lambda>f. case x of Inl e \<Rightarrow> Some (Inl e) | Inr y \<Rightarrow> C y f)" for x :: "panic + 'c"
    using assms(2) by (cases x) (auto simp: option.const_mono)
  with assms(1) show ?thesis
    unfolding run_bind_def by (rule bind_mono)
qed

text \<open>
  Integer addition and subtraction panic on overflow, as in Rust's development profile.
\<close>

definition checked_add :: "'a::len word \<Rightarrow> 'a word \<Rightarrow> 'a word res" where
  "checked_add a b = (if uint a + uint b < 2 ^ LENGTH('a) then Inr (a + b) else Inl Overflow)"

definition checked_sub :: "'a::len word \<Rightarrow> 'a word \<Rightarrow> 'a word res" where
  "checked_sub a b = (if b \<le> a then Inr (a - b) else Inl Overflow)"

lemma uint_add_no_overflow:
  fixes a b :: "'a::len word"
  assumes "uint a + uint b < 2 ^ LENGTH('a)"
  shows "uint (a + b) = uint a + uint b"
  using assms by (simp add: uint_word_ariths)

lemma checked_add_InrD:
  fixes a b c :: "'a::len word"
  assumes "checked_add a b = Inr c"
  shows "c = a + b" and "uint c = uint a + uint b"
  using assms uint_add_no_overflow[of a b]
  by (auto simp: checked_add_def split: if_splits)

lemma checked_add_Inr_le:
  fixes a b c :: "'a::len word"
  assumes "checked_add a b = Inr c"
  shows "a \<le> c"
  using checked_add_InrD(2)[OF assms] by (simp add: word_le_def)

lemma checked_add_1_less:
  fixes a c :: "'a::len word"
  assumes "checked_add a 1 = Inr c"
  shows "a < c"
  using checked_add_InrD(2)[OF assms] by (simp add: word_less_def)

subsection \<open>Vectors\<close>

definition vec_get :: "'a list \<Rightarrow> nat \<Rightarrow> 'a res" where
  "vec_get xs i = (if i < length xs then Inr (xs ! i) else Inl OutOfBounds)"

definition vec_set :: "'a list \<Rightarrow> nat \<Rightarrow> 'a \<Rightarrow> 'a list res" where
  "vec_set xs i v = (if i < length xs then Inr (xs[i := v]) else Inl OutOfBounds)"

definition vec_insert :: "'a list \<Rightarrow> nat \<Rightarrow> 'a \<Rightarrow> 'a list res" where
  "vec_insert xs i v = (if i \<le> length xs then Inr (take i xs @ v # drop i xs) else Inl OutOfBounds)"

definition vec_remove :: "'a list \<Rightarrow> nat \<Rightarrow> ('a \<times> 'a list) res" where
  "vec_remove xs i =
     (if i < length xs then Inr (xs ! i, take i xs @ drop (Suc i) xs) else Inl OutOfBounds)"

lemma vec_get_Inr [simp, panic_simps]: "i < length xs \<Longrightarrow> vec_get xs i = Inr (xs ! i)"
  by (simp add: vec_get_def)

lemma vec_set_Inr [simp, panic_simps]: "i < length xs \<Longrightarrow> vec_set xs i v = Inr (xs[i := v])"
  by (simp add: vec_set_def)

subsection \<open>Comparison\<close>

datatype ordering = Less | Equal | Greater

definition cmp :: "'a::linorder \<Rightarrow> 'a \<Rightarrow> ordering" where
  "cmp x y = (if x < y then Less else if x = y then Equal else Greater)"

lemma cmp_simps [simp]:
  "cmp x y = Less \<longleftrightarrow> x < y" "cmp x y = Equal \<longleftrightarrow> x = y" "cmp x y = Greater \<longleftrightarrow> y < x"
  by (auto simp: cmp_def)

text \<open>Association lists kept in the order of a comparison function.\<close>

fun assoc_put :: "('k \<Rightarrow> 'k \<Rightarrow> ordering) \<Rightarrow> 'k \<Rightarrow> 'v \<Rightarrow> ('k \<times> 'v) list \<Rightarrow> ('k \<times> 'v) list" where
  "assoc_put compare k v [] = [(k, v)]"
| "assoc_put compare k v ((k', v') # xs) =
     (case compare k k' of
        Less \<Rightarrow> (k, v) # (k', v') # xs
      | Equal \<Rightarrow> (k, v) # xs
      | Greater \<Rightarrow> (k', v') # assoc_put compare k v xs)"

definition assoc_del :: "'k \<Rightarrow> ('k \<times> 'v) list \<Rightarrow> ('k \<times> 'v) list" where
  "assoc_del k xs = filter (\<lambda>(k', v). k' \<noteq> k) xs"

definition ordered_by :: "('k \<Rightarrow> 'k \<Rightarrow> ordering) \<Rightarrow> ('k \<times> 'v) list \<Rightarrow> bool" where
  "ordered_by compare xs \<longleftrightarrow> sorted_wrt (\<lambda>x y. compare x y = Less) (map fst xs)"

lemma ordered_by_simps [simp]:
  "ordered_by compare []"
  "ordered_by compare (x # xs) \<longleftrightarrow>
     (\<forall>y\<in>set xs. compare (fst x) (fst y) = Less) \<and> ordered_by compare xs"
  by (auto simp: ordered_by_def)

lemma map_of_assoc_del: "map_of (assoc_del k xs) = (map_of xs)(k := None)"
  by (induction xs) (auto simp: assoc_del_def)

lemma ordered_assoc_del: "ordered_by compare xs \<Longrightarrow> ordered_by compare (assoc_del k xs)"
  by (induction xs) (auto simp: assoc_del_def)

lemma fst_assoc_del: "fst ` set (assoc_del k xs) = fst ` set xs - {k}"
  by (force simp: assoc_del_def)

text \<open>
  The contract of Rust's \<open>Ord\<close> on a set of values \<open>D\<close>: a three-way comparison that is
  a total order there, whose \<open>Equal\<close> is equality. Everything that searches or sorts with a
  hand-written comparison relies on it.
\<close>

locale rust_ord =
  fixes compare :: "'a \<Rightarrow> 'a \<Rightarrow> ordering" and D :: "'a set"
  assumes compare_equal: "x \<in> D \<Longrightarrow> y \<in> D \<Longrightarrow> compare x y = Equal \<longleftrightarrow> x = y"
    and compare_swap: "x \<in> D \<Longrightarrow> y \<in> D \<Longrightarrow> compare x y = Less \<longleftrightarrow> compare y x = Greater"
    and compare_trans: "x \<in> D \<Longrightarrow> y \<in> D \<Longrightarrow> z \<in> D \<Longrightarrow>
      compare x y = Less \<Longrightarrow> compare y z = Less \<Longrightarrow> compare x z = Less"
begin

lemma compare_irrefl: "x \<in> D \<Longrightarrow> compare x x \<noteq> Less"
  using compare_equal[of x x] by simp

lemma compare_total: "x \<in> D \<Longrightarrow> y \<in> D \<Longrightarrow> compare x y = Less \<or> x = y \<or> compare y x = Less"
  using compare_equal[of x y] compare_swap[of y x] by (cases "compare x y") auto

lemma compare_asym: "x \<in> D \<Longrightarrow> y \<in> D \<Longrightarrow> compare x y = Less \<Longrightarrow> compare y x \<noteq> Less"
  using compare_trans[of x y x] compare_irrefl by blast

lemma sorted_distinct:
  "set xs \<subseteq> D \<Longrightarrow> sorted_wrt (\<lambda>x y. compare x y = Less) xs \<Longrightarrow> distinct xs"
  by (induction xs) (auto dest: compare_irrefl)

text \<open>A strictly ascending sequence is determined by its set of elements.\<close>

lemma sorted_unique:
  "sorted_wrt (\<lambda>x y. compare x y = Less) xs \<Longrightarrow> sorted_wrt (\<lambda>x y. compare x y = Less) ys \<Longrightarrow>
   set xs = set ys \<Longrightarrow> set xs \<subseteq> D \<Longrightarrow> xs = ys"
proof (induction xs arbitrary: ys)
  case Nil
  then show ?case by simp
next
  case (Cons x xs)
  then obtain y ys' where ys: "ys = y # ys'"
    by (cases ys) auto
  have "x = y"
  proof (rule ccontr)
    assume "x \<noteq> y"
    with Cons.prems ys have "x \<in> set ys'" and "y \<in> set xs" by auto
    with Cons.prems ys have "compare y x = Less" and "compare x y = Less" by auto
    moreover have "x \<in> D" "y \<in> D"
      using Cons.prems \<open>y \<in> set xs\<close> by auto
    ultimately show False using compare_asym[of x y] by blast
  qed
  moreover have "x \<notin> set xs" "y \<notin> set ys'"
    using Cons.prems ys sorted_distinct[of "x # xs"] sorted_distinct[of ys] by auto
  ultimately have "set xs = set ys'"
    using Cons.prems ys by auto
  with Cons ys \<open>x = y\<close> show ?case by auto
qed

lemma ordered_distinct:
  "fst ` set xs \<subseteq> D \<Longrightarrow> ordered_by compare xs \<Longrightarrow> distinct (map fst xs)"
  using sorted_distinct[of "map fst xs"] by (auto simp: ordered_by_def)

lemma fst_assoc_put:
  "insert k (fst ` set xs) \<subseteq> D \<Longrightarrow> fst ` set (assoc_put compare k v xs) = insert k (fst ` set xs)"
proof (induction xs)
  case (Cons x xs)
  then show ?case
    using compare_equal[of k "fst x"] by (cases x; cases "compare k (fst x)") auto
qed simp

lemma ordered_assoc_put:
  assumes "insert k (fst ` set xs) \<subseteq> D" and "ordered_by compare xs"
  shows "ordered_by compare (assoc_put compare k v xs)"
  using assms
proof (induction xs)
  case (Cons x xs)
  obtain k' v' where x: "x = (k', v')" by (cases x)
  have IH: "ordered_by compare (assoc_put compare k v xs)" and k': "k' \<in> D" and k: "k \<in> D"
    and keys: "fst ` set (assoc_put compare k v xs) = insert k (fst ` set xs)"
    using Cons fst_assoc_put[of k xs v] x by auto
  show ?case
  proof (cases "compare k k'")
    case Less
    have "compare k y = Less" if "y \<in> fst ` set xs" for y
      using compare_trans[OF k k' _ Less] Cons.prems that x by force
    with Less Cons.prems show ?thesis by (auto simp: x)
  next
    case Equal
    with k k' compare_equal[of k k'] Cons.prems show ?thesis by (auto simp: x)
  next
    case Greater
    then have "compare k' k = Less" using compare_swap[OF k' k] by simp
    moreover have "fst y \<in> insert k (fst ` set xs)" if "y \<in> set (assoc_put compare k v xs)" for y
      using keys that by blast
    ultimately show ?thesis using Greater Cons.prems IH by (fastforce simp: x)
  qed
qed simp

lemma map_of_assoc_put:
  assumes "insert k (fst ` set xs) \<subseteq> D" and "ordered_by compare xs"
  shows "map_of (assoc_put compare k v xs) = (map_of xs)(k \<mapsto> v)"
  using assms
proof (induction xs)
  case (Cons x xs)
  then show ?case
    using compare_equal[of k "fst x"]
    by (cases x; cases "compare k (fst x)") (auto simp: fun_upd_twist)
qed simp

text \<open>An ordered association list is determined by the map it represents.\<close>

lemma ordered_unique:
  assumes "ordered_by compare xs" "ordered_by compare ys" "fst ` set xs \<subseteq> D" "fst ` set ys \<subseteq> D"
    and "map_of xs = map_of ys"
  shows "xs = ys"
proof -
  have "fst ` set xs = fst ` set ys"
    using assms(5) by (metis dom_map_of_conv_image_fst)
  then have keys: "map fst xs = map fst ys"
    using sorted_unique[of "map fst xs" "map fst ys"] assms by (simp add: ordered_by_def)
  have "distinct (map fst xs)" "distinct (map fst ys)"
    using assms ordered_distinct by auto
  then have "set xs = set ys"
    using assms(5) by (metis map_of_inject_set)
  with keys \<open>distinct (map fst xs)\<close> show ?thesis
    by (metis assms(5) map_of_eqI[OF refl] nth_equalityI map_of_inject_set zip_map_fst_snd
        map_of_zip_inject length_map)
qed

end

interpretation linorder_ord: rust_ord cmp UNIV
  by unfold_locales auto

subsection \<open>Runs of a state machine\<close>

text \<open>
  A component driven by events is a step function that may panic. A run stops at the first
  panic. The two locales say what an invariant and a progress relation of single steps give
  for whole runs; the components interpret them.
\<close>

fun run_steps :: "('s \<Rightarrow> 'e \<Rightarrow> 's res) \<Rightarrow> 's \<Rightarrow> 'e list \<Rightarrow> 's res" where
  "run_steps step s [] = Inr s"
| "run_steps step s (e # es) = rbind (step s e) (\<lambda>s'. run_steps step s' es)"

lemma run_steps_append:
  "run_steps step s (es @ fs) = rbind (run_steps step s es) (\<lambda>s'. run_steps step s' fs)"
proof (induction es arbitrary: s)
  case (Cons e es)
  then show ?case by (cases "step s e") auto
qed simp

locale step_invariant =
  fixes step :: "'s \<Rightarrow> 'e \<Rightarrow> 's res" and inv :: "'s \<Rightarrow> bool"
  assumes step_inv: "inv s \<Longrightarrow> step s e = Inr s' \<Longrightarrow> inv s'"
begin

lemma run_inv: "inv s \<Longrightarrow> run_steps step s es = Inr s' \<Longrightarrow> inv s'"
  by (induction es arbitrary: s) (auto simp: rbind_eq_Inr dest: step_inv)

end

locale step_progress = step_invariant +
  fixes before :: "'s \<Rightarrow> 's \<Rightarrow> bool"
  assumes before_trans: "before r s \<Longrightarrow> before s t \<Longrightarrow> before r t"
    and step_before: "inv s \<Longrightarrow> step s e = Inr s' \<Longrightarrow> before s s'"
begin

lemma run_before:
  "inv s \<Longrightarrow> run_steps step s es = Inr s' \<Longrightarrow> es \<noteq> [] \<Longrightarrow> before s s'"
proof (induction es arbitrary: s)
  case (Cons e es)
  then obtain u where u: "step s e = Inr u" "run_steps step u es = Inr s'"
    by (auto simp: rbind_eq_Inr)
  then have "before s u" "inv u"
    using Cons.prems by (auto intro: step_before step_inv)
  then show ?case
    using Cons.IH[of u] u by (cases "es = []") (auto intro: before_trans)
qed simp

end

subsection \<open>Lists\<close>

lemma dropWhile_filter_cons:
  "dropWhile (\<lambda>x. \<not> P x) xs = y # ys \<Longrightarrow> \<exists>zs. filter P xs = y # zs"
proof (induction xs)
  case (Cons x xs)
  then show ?case by (cases "P x") auto
qed simp

end
