(* ===== verification/Timestamps.thy ===== *)
theory Timestamps
  imports Prelude
begin

text \<open>
  The hybrid-logical-clock timestamps of \<open>src/src/hlc/timestamp.rs\<close>: the struct, its
  hand-written \<open>Ord\<close> (in which the all-zero intent timestamp is the greatest value) and its
  arithmetic. The comparison is shown to meet the \<open>Ord\<close> contract and makes \<open>timestamp\<close>
  a \<open>linorder\<close>, so \<open><\<close>, \<open>\<le>\<close> and \<open>max\<close> on timestamps are the code's own.
\<close>

datatype timestamp = Timestamp (wall_time: u64) (logical_time: u32)

definition is_intent_timestamp :: "timestamp \<Rightarrow> bool" where
  "is_intent_timestamp t \<longleftrightarrow> wall_time t = 0 \<and> logical_time t = 0"

definition get_intent_timestamp :: timestamp where
  "get_intent_timestamp = Timestamp 0 0"

definition timestamp_eq :: "timestamp \<Rightarrow> timestamp \<Rightarrow> bool" where
  "timestamp_eq t u \<longleftrightarrow> logical_time t = logical_time u \<and> wall_time t = wall_time u"

definition timestamp_cmp :: "timestamp \<Rightarrow> timestamp \<Rightarrow> ordering" where
  "timestamp_cmp t u =
     (if is_intent_timestamp t \<and> is_intent_timestamp u then Equal
      else if is_intent_timestamp t then Greater
      else if is_intent_timestamp u then Less
      else if wall_time t > wall_time u then Greater
      else if wall_time t < wall_time u then Less
      else cmp (logical_time t) (logical_time u))"

lemma timestamp_eq_iff [simp]: "timestamp_eq t u \<longleftrightarrow> t = u"
  by (cases t; cases u) (auto simp: timestamp_eq_def)

lemma is_intent_timestamp_iff: "is_intent_timestamp t \<longleftrightarrow> t = get_intent_timestamp"
  by (cases t) (simp add: is_intent_timestamp_def get_intent_timestamp_def)

lemma is_intent_get [simp]: "is_intent_timestamp get_intent_timestamp"
  by (simp add: is_intent_timestamp_iff)

lemma timestamp_cmp_Equal: "timestamp_cmp t u = Equal \<longleftrightarrow> t = u"
  by (cases t; cases u) (auto simp: timestamp_cmp_def is_intent_timestamp_def)

lemma timestamp_cmp_swap: "timestamp_cmp t u = Less \<longleftrightarrow> timestamp_cmp u t = Greater"
  by (auto simp: timestamp_cmp_def)

lemma timestamp_cmp_trans:
  "timestamp_cmp t u = Less \<Longrightarrow> timestamp_cmp u v = Less \<Longrightarrow> timestamp_cmp t v = Less"
  by (auto simp: timestamp_cmp_def split: if_splits)

interpretation ts_ord: rust_ord timestamp_cmp UNIV
  using timestamp_cmp_swap timestamp_cmp_trans
  by unfold_locales (auto simp: timestamp_cmp_Equal)

text \<open>\<open>PartialOrd\<close> is \<open>Some (cmp)\<close>, so the operators of the source are these.\<close>

instantiation timestamp :: linorder
begin

definition less_eq_timestamp :: "timestamp \<Rightarrow> timestamp \<Rightarrow> bool" where
  "less_eq_timestamp t u \<longleftrightarrow> timestamp_cmp t u \<noteq> Greater"

definition less_timestamp :: "timestamp \<Rightarrow> timestamp \<Rightarrow> bool" where
  "less_timestamp t u \<longleftrightarrow> timestamp_cmp t u = Less"

instance
proof
  fix t u v :: timestamp
  show "(t < u) = (t \<le> u \<and> \<not> u \<le> t)"
    using ts_ord.compare_swap[of t u] ts_ord.compare_swap[of u t]
    by (auto simp: less_eq_timestamp_def less_timestamp_def)
  show "t \<le> t"
    using timestamp_cmp_Equal[of t t] by (simp add: less_eq_timestamp_def)
  show "t \<le> u \<Longrightarrow> u \<le> v \<Longrightarrow> t \<le> v"
    using ts_ord.compare_total[of t u] ts_ord.compare_total[of u v]
      ts_ord.compare_trans[of t u v] ts_ord.compare_swap[of u t] ts_ord.compare_swap[of v u]
      ts_ord.compare_swap[of v t] ts_ord.compare_asym[of t v]
    by (auto simp: less_eq_timestamp_def)
  show "t \<le> u \<Longrightarrow> u \<le> t \<Longrightarrow> t = u"
    using ts_ord.compare_total[of t u] ts_ord.compare_swap[of t u] ts_ord.compare_swap[of u t]
    by (auto simp: less_eq_timestamp_def)
  show "t \<le> u \<or> u \<le> t"
    using ts_ord.compare_swap[of t u] ts_ord.compare_swap[of u t]
    by (auto simp: less_eq_timestamp_def)
qed

end

lemma timestamp_cmp_eq_cmp: "timestamp_cmp t u = cmp t u"
  using timestamp_cmp_Equal[of t u]
  by (cases "timestamp_cmp t u") (auto simp: cmp_def less_timestamp_def)

lemma timestamp_less_iff:
  "t < u \<longleftrightarrow> \<not> is_intent_timestamp t \<and>
     (is_intent_timestamp u \<or> wall_time t < wall_time u \<or>
      wall_time t = wall_time u \<and> logical_time t < logical_time u)"
  by (auto simp: less_timestamp_def timestamp_cmp_def)

lemma timestamp_le_iff:
  "t \<le> u \<longleftrightarrow> is_intent_timestamp u \<or> \<not> is_intent_timestamp t \<and>
     (wall_time t < wall_time u \<or> wall_time t = wall_time u \<and> logical_time t \<le> logical_time u)"
  by (auto simp: less_eq_timestamp_def timestamp_cmp_def cmp_def)

text \<open>The intent timestamp is the top element.\<close>

lemma le_intent [simp]: "t \<le> get_intent_timestamp"
  by (simp add: less_eq_timestamp_def timestamp_cmp_def)

lemma intent_le_iff [simp]: "get_intent_timestamp \<le> t \<longleftrightarrow> t = get_intent_timestamp"
  using le_intent antisym by blast

lemma less_intent_iff [simp]: "t < get_intent_timestamp \<longleftrightarrow> t \<noteq> get_intent_timestamp"
  using le_intent by (simp add: less_le)

lemma not_intent_less [simp]: "\<not> get_intent_timestamp < t"
  by (simp add: not_less)

subsection \<open>Arithmetic\<close>

definition advance_by :: "timestamp \<Rightarrow> u64 \<Rightarrow> timestamp res" where
  "advance_by t amount = rbind (checked_add (wall_time t) amount) (\<lambda>w. Inr (Timestamp w 0))"

definition next_logical_timestamp :: "timestamp \<Rightarrow> timestamp res" where
  "next_logical_timestamp t =
     rbind (checked_add (logical_time t) 1) (\<lambda>l. Inr (Timestamp (wall_time t) l))"

definition advance_to :: "timestamp \<Rightarrow> timestamp \<Rightarrow> timestamp" where
  "advance_to t u = (if t > u then t else u)"

definition decrement_by :: "timestamp \<Rightarrow> u64 \<Rightarrow> timestamp res" where
  "decrement_by t amount = rbind (checked_sub (wall_time t) amount) (\<lambda>w. Inr (Timestamp w 0))"

lemma advance_to_max: "advance_to t u = max t u"
  by (auto simp: advance_to_def max_def)

lemma next_logical_timestamp_less:
  assumes "next_logical_timestamp t = Inr u" and "\<not> is_intent_timestamp t"
  shows "t < u \<and> \<not> is_intent_timestamp u"
proof -
  obtain l where l: "checked_add (logical_time t) 1 = Inr l" and u: "u = Timestamp (wall_time t) l"
    using assms(1) by (auto simp: next_logical_timestamp_def rbind_eq_Inr)
  from l have "logical_time t < l" by (rule checked_add_1_less)
  with u assms(2) show ?thesis
    by (auto simp: timestamp_less_iff is_intent_timestamp_def)
qed

lemma next_logical_timestamp_least:
  assumes "next_logical_timestamp t = Inr u" and "t < v"
  shows "u \<le> v"
proof -
  obtain l where l: "checked_add (logical_time t) 1 = Inr l" and u: "u = Timestamp (wall_time t) l"
    using assms(1) by (auto simp: next_logical_timestamp_def rbind_eq_Inr)
  have "uint l = uint (logical_time t) + 1"
    using checked_add_InrD(2)[OF l] by simp
  then have "logical_time t < m \<Longrightarrow> l \<le> m" for m
    by (simp add: word_less_def word_le_def)
  moreover from l have "l \<noteq> 0"
    using checked_add_1_less[OF l] by auto
  ultimately show ?thesis
    using assms(2) u
    by (auto simp: timestamp_less_iff not_less[symmetric] is_intent_timestamp_def)
qed

end
