(* ===== verification/Mvcc_Key.thy ===== *)
theory Mvcc_Key
  imports Timestamps
begin

unbundle bit_operations_syntax

text \<open>
  Versioned keys and their byte encoding (\<open>src/src/storage/mvcc_key.rs\<close>), and the RocksDB
  comparator built on it (\<open>Storage::compare\<close> in \<open>src/src/storage/storage.rs\<close>).
  An encoded key is \<open>key @ wall_time (8 bytes LE) @ logical_time (4 bytes LE) @ "mvcc"\<close>.
  Writing a key goes through \<open>MVCCKey::to_string\<close>, which panics unless the encoding happens
  to be valid UTF-8; \<open>valid_utf8\<close> is the check of Rust's \<open>String::from_utf8\<close>.
\<close>

type_synonym key = bytes
type_synonym val = bytes

definition str_to_key :: "bytes \<Rightarrow> key" where
  "str_to_key s = s"

subsection \<open>Little-endian integers\<close>

definition to_le_bytes :: "nat \<Rightarrow> 'a::len word \<Rightarrow> bytes" where
  "to_le_bytes n w = map (\<lambda>i. ucast (drop_bit (8 * i) w)) [0..<n]"

definition from_le_bytes :: "bytes \<Rightarrow> 'a::len word" where
  "from_le_bytes bs = foldr (\<lambda>b acc. ucast b OR push_bit 8 acc) bs 0"

lemma length_to_le_bytes [simp]: "length (to_le_bytes n w) = n"
  by (simp add: to_le_bytes_def)

lemma bit_from_le_bytes:
  fixes bs :: bytes
  shows "bit (from_le_bytes bs :: 'a::len word) i \<longleftrightarrow>
    i < LENGTH('a) \<and> i div 8 < length bs \<and> bit (bs ! (i div 8)) (i mod 8)"
proof (induction bs arbitrary: i)
  case Nil
  then show ?case by (simp add: from_le_bytes_def)
next
  case (Cons b bs)
  have step: "(from_le_bytes (b # bs) :: 'a word) = ucast b OR push_bit 8 (from_le_bytes bs)"
    by (simp add: from_le_bytes_def)
  show ?case
  proof (cases "i < 8")
    case True
    then show ?thesis
      by (auto simp: step bit_or_iff bit_push_bit_iff bit_ucast_iff)
  next
    case False
    then obtain j where j: "i = j + 8"
      by (metis add.commute le_Suc_ex not_less)
    have "\<not> bit (ucast b :: 'a word) i"
      using False bit_imp_le_length[of b i] by (auto simp: bit_ucast_iff)
    moreover have "(j + 8) div 8 = Suc (j div 8)" by simp
    ultimately show ?thesis
      using Cons.IH[of j] by (auto simp: step bit_or_iff bit_push_bit_iff j)
  qed
qed

lemma from_to_le_bytes:
  fixes w :: "'a::len word"
  assumes "LENGTH('a) \<le> 8 * n"
  shows "from_le_bytes (to_le_bytes n w) = w"
proof (rule bit_word_eqI)
  fix i
  assume "i < LENGTH('a)"
  then have "i div 8 < n" using assms by auto
  then show "bit (from_le_bytes (to_le_bytes n w) :: 'a word) i \<longleftrightarrow> bit w i"
    using \<open>i < LENGTH('a)\<close>
    by (simp add: bit_from_le_bytes to_le_bytes_def bit_ucast_iff bit_drop_bit_eq)
qed

lemma to_from_le_bytes:
  assumes "length bs = n" and "8 * n \<le> LENGTH('a)"
  shows "to_le_bytes n (from_le_bytes bs :: 'a::len word) = bs"
proof (rule nth_equalityI)
  show "length (to_le_bytes n (from_le_bytes bs :: 'a word)) = length bs"
    by (simp add: assms)
next
  fix i
  assume "i < length (to_le_bytes n (from_le_bytes bs :: 'a word))"
  then have i: "i < n" by simp
  show "to_le_bytes n (from_le_bytes bs :: 'a word) ! i = bs ! i"
  proof (rule bit_word_eqI)
    fix j
    assume "j < LENGTH(8)"
    then have j: "j < 8" by simp
    have "8 * i + j < LENGTH('a)" "(8 * i + j) div 8 = i" "(8 * i + j) mod 8 = j"
      using i j assms by auto
    then show "bit (to_le_bytes n (from_le_bytes bs :: 'a word) ! i) j \<longleftrightarrow> bit (bs ! i) j"
      using i j assms
      by (simp add: to_le_bytes_def bit_ucast_iff bit_drop_bit_eq bit_from_le_bytes)
  qed
qed

subsection \<open>UTF-8\<close>

definition utf8_cont :: "u8 \<Rightarrow> bool" where
  "utf8_cont b \<longleftrightarrow> 0x80 \<le> b \<and> b \<le> 0xBF"

definition utf8_second3 :: "u8 \<Rightarrow> u8 \<Rightarrow> bool" where
  "utf8_second3 a b \<longleftrightarrow>
     utf8_cont b \<and> (a = 0xE0 \<longrightarrow> 0xA0 \<le> b) \<and> (a = 0xED \<longrightarrow> b \<le> 0x9F)"

definition utf8_second4 :: "u8 \<Rightarrow> u8 \<Rightarrow> bool" where
  "utf8_second4 a b \<longleftrightarrow>
     utf8_cont b \<and> (a = 0xF0 \<longrightarrow> 0x90 \<le> b) \<and> (a = 0xF4 \<longrightarrow> b \<le> 0x8F)"

text \<open>The bytes after the first scalar value, if the string starts with one.\<close>

definition utf8_next :: "bytes \<Rightarrow> bytes option" where
  "utf8_next bs =
     (case bs of
        [] \<Rightarrow> None
      | a # as \<Rightarrow>
          if a < 0x80 then Some as
          else if 0xC2 \<le> a \<and> a \<le> 0xDF then
            (case as of b # cs \<Rightarrow> if utf8_cont b then Some cs else None | _ \<Rightarrow> None)
          else if 0xE0 \<le> a \<and> a \<le> 0xEF then
            (case as of b # c # ds \<Rightarrow>
               if utf8_second3 a b \<and> utf8_cont c then Some ds else None | _ \<Rightarrow> None)
          else if 0xF0 \<le> a \<and> a \<le> 0xF4 then
            (case as of b # c # d # es \<Rightarrow>
               if utf8_second4 a b \<and> utf8_cont c \<and> utf8_cont d then Some es else None | _ \<Rightarrow> None)
          else None)"

lemma utf8_next_length: "utf8_next bs = Some cs \<Longrightarrow> length cs < length bs"
  by (auto simp: utf8_next_def split: list.splits if_splits)

lemma utf8_next_short [simp]:
  "utf8_next [] = None"
  "utf8_next (a # as) = Some as" if "a < 0x80"
  using that by (simp_all add: utf8_next_def)

lemma utf8_next_long:
  "utf8_next (a # b # c # d # es) =
     (if a < 0x80 then Some (b # c # d # es)
      else if 0xC2 \<le> a \<and> a \<le> 0xDF then if utf8_cont b then Some (c # d # es) else None
      else if 0xE0 \<le> a \<and> a \<le> 0xEF then
        if utf8_second3 a b \<and> utf8_cont c then Some (d # es) else None
      else if 0xF0 \<le> a \<and> a \<le> 0xF4 then
        if utf8_second4 a b \<and> utf8_cont c \<and> utf8_cont d then Some es else None
      else None)"
  by (simp add: utf8_next_def)

lemma utf8_next_append: "utf8_next as = Some cs \<Longrightarrow> utf8_next (as @ bs) = Some (cs @ bs)"
proof -
  assume nx: "utf8_next as = Some cs"
  consider "as = []" | a where "as = [a]" | a b where "as = [a, b]" | a b c where "as = [a, b, c]"
    | a b c d es where "as = a # b # c # d # es"
    by (metis list.exhaust)
  then show ?thesis
  proof cases
    case 5
    with nx show ?thesis by (auto simp: utf8_next_long split: if_splits)
  qed (use nx in \<open>auto simp: utf8_next_def split: if_splits\<close>)
qed

function valid_utf8 :: "bytes \<Rightarrow> bool" where
  "valid_utf8 bs = (if bs = [] then True
     else case utf8_next bs of None \<Rightarrow> False | Some cs \<Rightarrow> valid_utf8 cs)"
  by pat_completeness auto
termination
  by (relation "measure length") (auto dest: utf8_next_length)

declare valid_utf8.simps [simp del]

lemma valid_utf8_Nil [simp]: "valid_utf8 []"
  by (simp add: valid_utf8.simps)

lemma valid_utf8_append: "valid_utf8 as \<Longrightarrow> valid_utf8 (as @ bs) = valid_utf8 bs"
proof (induction as rule: valid_utf8.induct)
  case (1 as)
  show ?case
  proof (cases "as = []")
    case False
    then obtain cs where cs: "utf8_next as = Some cs" "valid_utf8 cs"
      using "1.prems" by (auto simp: valid_utf8.simps[of as] split: option.splits)
    then have "valid_utf8 (as @ bs) = valid_utf8 (cs @ bs)"
      using False utf8_next_append[of as cs bs] by (simp add: valid_utf8.simps[of "as @ bs"])
    with 1 False cs show ?thesis by simp
  qed simp
qed

lemma valid_utf8_ascii: "(\<And>b. b \<in> set bs \<Longrightarrow> b < 0x80) \<Longrightarrow> valid_utf8 bs"
proof (induction bs)
  case (Cons b bs)
  then have "utf8_next (b # bs) = Some bs" by (simp add: utf8_next_def)
  with Cons show ?case by (simp add: valid_utf8.simps[of "b # bs"])
qed simp

subsection \<open>Versioned keys\<close>

datatype mvcc_key = MVCCKey (mkey: key) (mtimestamp: timestamp)

definition mvcc_key_eq :: "mvcc_key \<Rightarrow> mvcc_key \<Rightarrow> bool" where
  "mvcc_key_eq a b \<longleftrightarrow> mkey a = mkey b \<and> mtimestamp a = mtimestamp b"

definition mvcc_key_cmp :: "mvcc_key \<Rightarrow> mvcc_key \<Rightarrow> ordering" where
  "mvcc_key_cmp a b =
     (if mkey a = mkey b then timestamp_cmp (mtimestamp a) (mtimestamp b)
      else cmp (mkey a) (mkey b))"

definition is_intent_key :: "mvcc_key \<Rightarrow> bool" where
  "is_intent_key k \<longleftrightarrow> is_intent_timestamp (mtimestamp k)"

definition create_intent_key :: "key \<Rightarrow> mvcc_key" where
  "create_intent_key k = MVCCKey k get_intent_timestamp"

definition mvcc_marker :: bytes where
  "mvcc_marker = [0x6D, 0x76, 0x63, 0x63]"

definition encode_timestamp :: "timestamp \<Rightarrow> bytes" where
  "encode_timestamp t = to_le_bytes 8 (wall_time t) @ to_le_bytes 4 (logical_time t)"

definition encode_mvcc_key :: "mvcc_key \<Rightarrow> bytes" where
  "encode_mvcc_key k = mkey k @ encode_timestamp (mtimestamp k) @ mvcc_marker"

definition decode_timestamp :: "bytes \<Rightarrow> timestamp" where
  "decode_timestamp bs =
     Timestamp (from_le_bytes (take 8 bs)) (from_le_bytes (take 4 (drop 8 bs)))"

definition decode_mvcc_key :: "bytes \<Rightarrow> mvcc_key option" where
  "decode_mvcc_key bs =
     (if length bs < 16 then None
      else let hardcoded_start = length bs - 4;
               key_end = length bs - 12 - 4
           in if drop hardcoded_start bs \<noteq> mvcc_marker then None
              else Some (MVCCKey (take key_end bs)
                     (decode_timestamp (take (hardcoded_start - key_end) (drop key_end bs)))))"

definition mvcc_key_to_string :: "mvcc_key \<Rightarrow> bytes res" where
  "mvcc_key_to_string k =
     (let encoded = encode_mvcc_key k in
      if valid_utf8 encoded then Inr encoded else Inl UnwrapErr)"

lemma mvcc_key_eq_iff [simp]: "mvcc_key_eq a b \<longleftrightarrow> a = b"
  by (cases a; cases b) (simp add: mvcc_key_eq_def)

interpretation mvcc_key_ord: rust_ord mvcc_key_cmp UNIV
  by unfold_locales
    (auto simp: mvcc_key_cmp_def timestamp_cmp_eq_cmp mvcc_key.expand split: if_splits)

lemma is_intent_key_iff: "is_intent_key k \<longleftrightarrow> k = create_intent_key (mkey k)"
  by (cases k) (simp add: is_intent_key_def create_intent_key_def is_intent_timestamp_iff)

lemma create_intent_key_simps [simp]:
  "mkey (create_intent_key k) = k"
  "mtimestamp (create_intent_key k) = get_intent_timestamp"
  "is_intent_key (create_intent_key k)"
  by (simp_all add: create_intent_key_def is_intent_key_def)

subsection \<open>Round trips\<close>

lemma length_encode_timestamp [simp]: "length (encode_timestamp t) = 12"
  by (simp add: encode_timestamp_def)

lemma decode_encode_timestamp: "decode_timestamp (encode_timestamp t) = t"
  by (simp add: decode_timestamp_def encode_timestamp_def from_to_le_bytes)

lemma encode_decode_timestamp:
  assumes "length bs = 12"
  shows "encode_timestamp (decode_timestamp bs) = bs"
proof -
  have "to_le_bytes 8 (from_le_bytes (take 8 bs) :: u64) = take 8 bs"
    by (rule to_from_le_bytes) (use assms in auto)
  moreover have "to_le_bytes 4 (from_le_bytes (take 4 (drop 8 bs)) :: u32) = take 4 (drop 8 bs)"
    by (rule to_from_le_bytes) (use assms in auto)
  moreover have "take 4 (drop 8 bs) = drop 8 bs"
    using assms by simp
  ultimately show ?thesis
    by (simp add: encode_timestamp_def decode_timestamp_def)
qed

lemma decode_encode: "decode_mvcc_key (encode_mvcc_key k) = Some k"
proof -
  have "length (encode_mvcc_key k) = length (mkey k) + 16"
    by (simp add: encode_mvcc_key_def mvcc_marker_def)
  moreover have "drop (length (mkey k) + 12) (encode_mvcc_key k) = mvcc_marker"
    by (simp add: encode_mvcc_key_def)
  moreover have "take (length (mkey k)) (encode_mvcc_key k) = mkey k"
    and "take 12 (drop (length (mkey k)) (encode_mvcc_key k)) = encode_timestamp (mtimestamp k)"
    by (simp_all add: encode_mvcc_key_def)
  ultimately show ?thesis
    by (simp add: decode_mvcc_key_def Let_def decode_encode_timestamp add.commute)
qed

lemma encode_decode:
  assumes "decode_mvcc_key bs = Some k"
  shows "encode_mvcc_key k = bs"
proof -
  let ?n = "length bs - 16"
  have len: "16 \<le> length bs" and marker: "drop (length bs - 4) bs = mvcc_marker"
    and k: "k = MVCCKey (take ?n bs) (decode_timestamp (take 12 (drop ?n bs)))"
    using assms by (auto simp: decode_mvcc_key_def Let_def split: if_splits)
  have "length (take 12 (drop ?n bs)) = 12"
    using len by simp
  then have "encode_mvcc_key k = take ?n bs @ take 12 (drop ?n bs) @ drop (length bs - 4) bs"
    by (simp add: encode_mvcc_key_def k encode_decode_timestamp marker)
  also have "drop (length bs - 4) bs = drop 12 (drop ?n bs)"
    using len by simp
  finally show ?thesis by (metis append_take_drop_id)
qed

lemma encode_inj [simp]: "encode_mvcc_key a = encode_mvcc_key b \<longleftrightarrow> a = b"
  using decode_encode by (metis option.inject)

lemma decode_Some_iff: "decode_mvcc_key bs = Some k \<longleftrightarrow> bs = encode_mvcc_key k"
  using decode_encode encode_decode by blast

text \<open>A key with valid UTF-8 is writable at a timestamp exactly when the timestamp's bytes are.\<close>

lemma utf8_next_marker:
  assumes "utf8_next (bs @ mvcc_marker) = Some cs" and "bs \<noteq> []"
  shows "\<exists>ds. utf8_next bs = Some ds \<and> cs = ds @ mvcc_marker"
proof -
  consider a where "bs = [a]" | a b where "bs = [a, b]" | a b c where "bs = [a, b, c]"
    | a b c d es where "bs = a # b # c # d # es"
    using assms(2) by (metis list.exhaust)
  then show ?thesis
  proof cases
    case 4
    with assms(1) show ?thesis by (auto simp: utf8_next_long split: if_splits)
  qed (use assms(1) in \<open>auto simp: utf8_next_def utf8_cont_def utf8_second3_def utf8_second4_def
        mvcc_marker_def split: if_splits\<close>)
qed

lemma valid_utf8_marker: "valid_utf8 (bs @ mvcc_marker) \<longleftrightarrow> valid_utf8 bs"
proof
  assume "valid_utf8 bs"
  then show "valid_utf8 (bs @ mvcc_marker)"
    using valid_utf8_append[of bs mvcc_marker] valid_utf8_ascii[of mvcc_marker]
    by (force simp: mvcc_marker_def)
next
  show "valid_utf8 (bs @ mvcc_marker) \<Longrightarrow> valid_utf8 bs"
  proof (induction bs rule: valid_utf8.induct)
    case (1 bs)
    show ?case
    proof (cases "bs = []")
      case False
      then obtain cs where "utf8_next (bs @ mvcc_marker) = Some cs" "valid_utf8 cs"
        using "1.prems" by (auto simp: valid_utf8.simps[of "bs @ _"] split: option.splits)
      then obtain ds where "utf8_next bs = Some ds" "valid_utf8 (ds @ mvcc_marker)"
        using utf8_next_marker False by blast
      then show ?thesis
        using 1 False by (simp add: valid_utf8.simps[of bs])
    qed simp
  qed
qed

lemma to_string_iff:
  assumes "valid_utf8 (mkey k)"
  shows "mvcc_key_to_string k =
    (if valid_utf8 (encode_timestamp (mtimestamp k)) then Inr (encode_mvcc_key k) else Inl UnwrapErr)"
  using assms valid_utf8_marker
  by (simp add: mvcc_key_to_string_def encode_mvcc_key_def valid_utf8_append Let_def)

end
