(* ===== verification/Txn.thy ===== *)
theory Txn
  imports Mvcc_Key
begin

text \<open>
  Transactions and what the database stores about them (\<open>src/src/storage/txn.rs\<close>).
  A \<open>TxnLink\<close> (a shared, locked \<open>Txn\<close>) is the transaction's identifier, a reference
  into the store \<open>txns\<close> that all holders of the link share; every update through one
  link is seen through the others.
\<close>

datatype txn_metadata = TxnMetadata (meta_txn_id: uuid) (meta_write_timestamp: timestamp)

datatype txn_intent = TxnIntent (txn_meta: txn_metadata) (intent_key: key)

datatype uncommitted_value = UncommittedValue (uvalue: val) (uvalue_meta: txn_metadata)

datatype transaction_status = PENDING | COMMITTED | ABORTED

datatype txn_record = TxnRecord (rec_status: transaction_status) (rec_metadata: txn_metadata)

record txn =
  txn_id :: uuid
  write_timestamp :: timestamp
  read_timestamp :: timestamp
  lock_spans :: "key list"
  read_set :: "key list"

type_synonym txn_map = "uuid \<rightharpoonup> txn"

definition txn_new :: "uuid \<Rightarrow> timestamp \<Rightarrow> txn" where
  "txn_new transaction_id timestamp =
     \<lparr>txn_id = transaction_id, write_timestamp = timestamp, read_timestamp = timestamp,
      lock_spans = [], read_set = []\<rparr>"

definition to_intent :: "txn \<Rightarrow> key \<Rightarrow> txn_intent" where
  "to_intent t k = TxnIntent (TxnMetadata (txn_id t) (write_timestamp t)) k"

definition to_txn_metadata :: "txn \<Rightarrow> txn_metadata" where
  "to_txn_metadata t = TxnMetadata (txn_id t) (write_timestamp t)"

definition append_lock_span :: "txn \<Rightarrow> key \<Rightarrow> txn" where
  "append_lock_span t k =
     (if k \<notin> set (lock_spans t) then t\<lparr>lock_spans := lock_spans t @ [k]\<rparr> else t)"

definition append_read_sets :: "txn \<Rightarrow> key \<Rightarrow> txn" where
  "append_read_sets t k = t\<lparr>read_set := read_set t @ [k]\<rparr>"

definition bump_write_timestamp :: "txn \<Rightarrow> timestamp \<Rightarrow> txn" where
  "bump_write_timestamp t new_timestamp =
     t\<lparr>write_timestamp := advance_to (write_timestamp t) new_timestamp\<rparr>"

definition get_txn_properties :: "txn \<Rightarrow> uuid \<times> timestamp \<times> timestamp" where
  "get_txn_properties t = (txn_id t, read_timestamp t, write_timestamp t)"

lemma append_lock_span_distinct:
  "distinct (lock_spans t) \<Longrightarrow> distinct (lock_spans (append_lock_span t k))"
  by (auto simp: append_lock_span_def)

lemma set_append_lock_span: "set (lock_spans (append_lock_span t k)) = insert k (set (lock_spans t))"
  by (auto simp: append_lock_span_def)

lemma bump_write_timestamp_ge:
  "write_timestamp t \<le> write_timestamp (bump_write_timestamp t u)"
  "u \<le> write_timestamp (bump_write_timestamp t u)"
  by (simp_all add: bump_write_timestamp_def advance_to_max)

end
