(* ===== verification/Storage.thy ===== *)
theory Storage
  imports Txn
begin

text \<open>
  The storage layer of \<open>src/src/storage/storage.rs\<close>: two RocksDB column families under one
  comparator. RocksDB, \<open>serde_json\<close> and \<open>Uuid::to_string\<close> are not part of the
  repository: they are the fields of \<open>env\<close>, an argument of every operation, and what the
  code relies on is \<open>platform_ok\<close>, which states their documented behaviour.
\<close>

subsection \<open>The comparator\<close>

definition storage_compare :: "bytes \<Rightarrow> bytes \<Rightarrow> ordering" where
  "storage_compare a b =
     (case (decode_mvcc_key a, decode_mvcc_key b) of
        (None, None) \<Rightarrow> cmp a b
      | (None, Some _) \<Rightarrow> cmp a b
      | (Some _, None) \<Rightarrow> cmp a b
      | (Some first_mvcc, Some second_mvcc) \<Rightarrow>
          (let key_ordering = cmp (mkey first_mvcc) (mkey second_mvcc) in
           case key_ordering of
             Less \<Rightarrow> key_ordering
           | Equal \<Rightarrow>
               if is_intent_key first_mvcc then
                 if is_intent_key second_mvcc then Equal else Less
               else if is_intent_key second_mvcc then Greater
               else timestamp_cmp (mtimestamp second_mvcc) (mtimestamp first_mvcc)
           | Greater \<Rightarrow> key_ordering))"

text \<open>On encoded keys: by key, then newest version first, the intent before every version.\<close>

definition key_before :: "mvcc_key \<Rightarrow> mvcc_key \<Rightarrow> bool" where
  "key_before a b \<longleftrightarrow> mkey a < mkey b \<or> mkey a = mkey b \<and> mtimestamp b < mtimestamp a"

lemma storage_compare_encode:
  "storage_compare (encode_mvcc_key a) (encode_mvcc_key b) =
     (if key_before a b then Less else if a = b then Equal else Greater)"
  by (auto simp: storage_compare_def decode_encode key_before_def timestamp_cmp_eq_cmp Let_def
      is_intent_key_def is_intent_timestamp_iff cmp_def mvcc_key.expand split: ordering.splits)

definition cf_keys :: "bool \<Rightarrow> bytes set" where
  "cf_keys is_mvcc = {k. (decode_mvcc_key k \<noteq> None) = is_mvcc}"

lemma cf_keys_mvcc: "k \<in> cf_keys True \<longleftrightarrow> (\<exists>m. k = encode_mvcc_key m)"
  by (auto simp: cf_keys_def decode_Some_iff)

lemma key_before_trans: "key_before a b \<Longrightarrow> key_before b c \<Longrightarrow> key_before a c"
  by (auto simp: key_before_def)

lemma key_before_irrefl [simp]: "\<not> key_before a a"
  by (simp add: key_before_def)

lemma key_before_total: "key_before a b \<or> a = b \<or> key_before b a"
  by (cases a; cases b) (auto simp: key_before_def)

interpretation mvcc_cf: rust_ord storage_compare "cf_keys True"
proof
  fix x y z
  assume "x \<in> cf_keys True" "y \<in> cf_keys True"
  then obtain a b where ab: "x = encode_mvcc_key a" "y = encode_mvcc_key b"
    by (auto simp: cf_keys_mvcc)
  show "storage_compare x y = Equal \<longleftrightarrow> x = y"
    by (auto simp: ab storage_compare_encode)
  show "storage_compare x y = Less \<longleftrightarrow> storage_compare y x = Greater"
    using key_before_total[of a b] key_before_trans[of a b a]
    by (auto simp: ab storage_compare_encode)
  assume "z \<in> cf_keys True" and less: "storage_compare x y = Less" "storage_compare y z = Less"
  then obtain c where "z = encode_mvcc_key c"
    by (auto simp: cf_keys_mvcc)
  with less show "storage_compare x z = Less"
    using key_before_trans[of a b c] by (auto simp: ab storage_compare_encode split: if_splits)
qed

interpretation txn_cf: rust_ord storage_compare "cf_keys False"
  by unfold_locales (auto simp: cf_keys_def storage_compare_def split: option.splits)

subsection \<open>The platform\<close>

record 'db env =
  put_cf :: "'db \<Rightarrow> string \<Rightarrow> bytes \<Rightarrow> bytes \<Rightarrow> string + 'db"
  delete_cf :: "'db \<Rightarrow> string \<Rightarrow> bytes \<Rightarrow> string + 'db"
  get_cf :: "'db \<Rightarrow> string \<Rightarrow> bytes \<Rightarrow> string + bytes option"
  iterator_cf :: "'db \<Rightarrow> string \<Rightarrow> (string + bytes \<times> bytes) list"
  cf_handle :: "'db \<Rightarrow> string \<Rightarrow> bool"
  uuid_to_string :: "uuid \<Rightarrow> bytes"
  ser_uncommitted :: "uncommitted_value \<Rightarrow> string + bytes"
  de_uncommitted :: "bytes \<Rightarrow> string + uncommitted_value"
  ser_txn_record :: "txn_record \<Rightarrow> string + bytes"
  de_txn_record :: "bytes \<Rightarrow> string + txn_record"

definition MVCC_COLUMN_FAMILY :: string where
  "MVCC_COLUMN_FAMILY = ''mvcc''"

definition TRANSACTION_RECORD_COLUMN_FAMILY :: string where
  "TRANSACTION_RECORD_COLUMN_FAMILY = ''txn''"

text \<open>
  RocksDB, as its documentation describes a column family opened with a comparator: in a state
  \<open>d\<close> reached by these operations (\<open>live d\<close>) the iterator from the start yields the
  stored pairs in the comparator's strict order, a get finds the pair of an equal key, a put
  overwrites, a delete removes, and neither touches the other family. The comparator has to be
  a total order on the keys of the family, which is why the laws speak of \<open>cf_keys\<close>.
\<close>

definition cf_ok :: "'db env \<Rightarrow> ('db \<Rightarrow> bool) \<Rightarrow> ('db \<Rightarrow> string \<Rightarrow> (bytes \<times> bytes) list) \<Rightarrow>
    'db \<Rightarrow> string \<Rightarrow> bool" where
  "cf_ok env live contents d cf \<longleftrightarrow>
     (let K = cf_keys (cf = MVCC_COLUMN_FAMILY) in
      cf_handle env d cf \<and>
      iterator_cf env d cf = map Inr (contents d cf) \<and>
      fst ` set (contents d cf) \<subseteq> K \<and>
      ordered_by storage_compare (contents d cf) \<and>
      (\<forall>k\<in>K. get_cf env d cf k = Inr (map_of (contents d cf) k)) \<and>
      (\<forall>k\<in>K. \<forall>v. \<exists>d'. put_cf env d cf k v = Inr d' \<and> live d' \<and>
         map_of (contents d' cf) = (map_of (contents d cf))(k \<mapsto> v) \<and>
         (\<forall>cf'. cf' \<noteq> cf \<longrightarrow> contents d' cf' = contents d cf')) \<and>
      (\<forall>k\<in>K. \<exists>d'. delete_cf env d cf k = Inr d' \<and> live d' \<and>
         map_of (contents d' cf) = (map_of (contents d cf))(k := None) \<and>
         (\<forall>cf'. cf' \<noteq> cf \<longrightarrow> contents d' cf' = contents d cf')))"

definition rocksdb_ok ::
  "'db env \<Rightarrow> ('db \<Rightarrow> bool) \<Rightarrow> ('db \<Rightarrow> string \<Rightarrow> (bytes \<times> bytes) list) \<Rightarrow> bool" where
  "rocksdb_ok env live contents \<longleftrightarrow>
     (\<forall>d. live d \<longrightarrow> cf_ok env live contents d MVCC_COLUMN_FAMILY \<and>
                   cf_ok env live contents d TRANSACTION_RECORD_COLUMN_FAMILY)"

text \<open>\<open>serde_json\<close> reads back what it wrote; no value of these two types fails to serialize.\<close>

definition serde_ok :: "'db env \<Rightarrow> bool" where
  "serde_ok env \<longleftrightarrow>
     (\<forall>u. \<exists>b. ser_uncommitted env u = Inr b \<and> de_uncommitted env b = Inr u) \<and>
     (\<forall>r. \<exists>b. ser_txn_record env r = Inr b \<and> de_txn_record env b = Inr r)"

text \<open>A printed identifier consists of lower-case hexadecimal digits and hyphens.\<close>

definition uuid_chars :: "u8 set" where
  "uuid_chars = set (map of_nat ([45] @ [48..<58] @ [97..<103]))"

definition uuid_ok :: "'db env \<Rightarrow> bool" where
  "uuid_ok env \<longleftrightarrow>
     inj (uuid_to_string env) \<and> (\<forall>u. set (uuid_to_string env u) \<subseteq> uuid_chars)"

definition platform_ok ::
  "'db env \<Rightarrow> ('db \<Rightarrow> bool) \<Rightarrow> ('db \<Rightarrow> string \<Rightarrow> (bytes \<times> bytes) list) \<Rightarrow> bool" where
  "platform_ok env live contents \<longleftrightarrow> rocksdb_ok env live contents \<and> serde_ok env \<and> uuid_ok env"

subsection \<open>Operations\<close>

datatype storage_error = StorageError (message_id: string) (message: string)

definition from_rocksdb_error :: "string \<Rightarrow> storage_error" where
  "from_rocksdb_error err = StorageError ''rocksdb_error'' err"

definition get_column_family :: "'db env \<Rightarrow> 'db \<Rightarrow> string \<Rightarrow> string res" where
  "get_column_family env d cf_name = (if cf_handle env d cf_name then Inr cf_name else Inl UnwrapNone)"

definition put_raw ::
  "'db env \<Rightarrow> 'db \<Rightarrow> string \<Rightarrow> bytes \<Rightarrow> bytes \<Rightarrow> (storage_error + 'db) res" where
  "put_raw env d cf_name k v =
     rbind (get_column_family env d cf_name)
       (\<lambda>cf. Inr (case put_cf env d cf k v of Inl e \<Rightarrow> Inl (from_rocksdb_error e) | Inr d' \<Rightarrow> Inr d'))"

definition put_raw_transaction_record ::
  "'db env \<Rightarrow> 'db \<Rightarrow> bytes \<Rightarrow> bytes \<Rightarrow> (storage_error + 'db) res" where
  "put_raw_transaction_record env d k value = put_raw env d TRANSACTION_RECORD_COLUMN_FAMILY k value"

definition storage_delete :: "'db env \<Rightarrow> 'db \<Rightarrow> string \<Rightarrow> bytes \<Rightarrow> 'db res" where
  "storage_delete env d cf_name k =
     rbind (get_column_family env d cf_name) (\<lambda>cf. unwrap_result (delete_cf env d cf k))"

definition delete_mvcc :: "'db env \<Rightarrow> 'db \<Rightarrow> mvcc_key \<Rightarrow> 'db res" where
  "delete_mvcc env d k =
     rbind (mvcc_key_to_string k) (storage_delete env d MVCC_COLUMN_FAMILY)"

definition put_serialized ::
  "'db env \<Rightarrow> 'db \<Rightarrow> ('v \<Rightarrow> string + bytes) \<Rightarrow> string \<Rightarrow> bytes \<Rightarrow> 'v \<Rightarrow> (storage_error + 'db) res" where
  "put_serialized env d to_str cf_name k v =
     (case to_str v of
        Inr serialized \<Rightarrow> put_raw env d cf_name k serialized
      | Inl err \<Rightarrow> Inr (Inl (StorageError ''put_error'' err)))"

definition put_raw_with_mvcc_key ::
  "'db env \<Rightarrow> 'db \<Rightarrow> mvcc_key \<Rightarrow> bytes \<Rightarrow> (storage_error + 'db) res" where
  "put_raw_with_mvcc_key env d k v =
     rbind (mvcc_key_to_string k) (\<lambda>s. put_raw env d MVCC_COLUMN_FAMILY s v)"

definition put_serialized_with_mvcc_key ::
  "'db env \<Rightarrow> 'db \<Rightarrow> ('v \<Rightarrow> string + bytes) \<Rightarrow> mvcc_key \<Rightarrow> 'v \<Rightarrow> (storage_error + 'db) res" where
  "put_serialized_with_mvcc_key env d to_str k v =
     rbind (mvcc_key_to_string k) (\<lambda>s. put_serialized env d to_str MVCC_COLUMN_FAMILY s v)"

definition get_serialized ::
  "'db env \<Rightarrow> 'db \<Rightarrow> (bytes \<Rightarrow> string + 'v) \<Rightarrow> string \<Rightarrow> bytes \<Rightarrow> (storage_error + 'v option) res" where
  "get_serialized env d from_slice cf_name k =
     rbind (get_column_family env d cf_name)
       (\<lambda>cf. case get_cf env d cf k of
          Inr (Some v) \<Rightarrow> rbind (unwrap_result (from_slice v)) (\<lambda>x. Inr (Inr (Some x)))
        | Inr None \<Rightarrow> Inr (Inr None)
        | Inl err \<Rightarrow> Inr (Inl (StorageError ''serialized_error'' err)))"

definition get_serialized_with_mvcc_key ::
  "'db env \<Rightarrow> 'db \<Rightarrow> (bytes \<Rightarrow> string + 'v) \<Rightarrow> mvcc_key \<Rightarrow> (storage_error + 'v option) res" where
  "get_serialized_with_mvcc_key env d from_slice k =
     rbind (mvcc_key_to_string k) (get_serialized env d from_slice MVCC_COLUMN_FAMILY)"

definition storage_get_transaction_record :: "'db env \<Rightarrow> 'db \<Rightarrow> uuid \<Rightarrow> txn_record option res" where
  "storage_get_transaction_record env d tid =
     rbind (get_serialized env d (de_txn_record env) TRANSACTION_RECORD_COLUMN_FAMILY
              (uuid_to_string env tid)) unwrap_result"

definition storage_put_transaction_record ::
  "'db env \<Rightarrow> 'db \<Rightarrow> uuid \<Rightarrow> txn_record \<Rightarrow> (storage_error + 'db) res" where
  "storage_put_transaction_record env d tid r =
     put_serialized env d (ser_txn_record env) TRANSACTION_RECORD_COLUMN_FAMILY
       (uuid_to_string env tid) r"

definition get_normal_iterator ::
  "'db env \<Rightarrow> 'db \<Rightarrow> string \<Rightarrow> storage_error + (string + bytes \<times> bytes) list" where
  "get_normal_iterator env d cf_name =
     (if cf_handle env d cf_name then Inr (iterator_cf env d cf_name)
      else Inl (StorageError ''normal-iterator'' ''no cfHandle found for prefix ''))"

definition get_mvcc_iterator :: "'db env \<Rightarrow> 'db \<Rightarrow> (string + bytes \<times> bytes) list res" where
  "get_mvcc_iterator env d = unwrap_result (get_normal_iterator env d MVCC_COLUMN_FAMILY)"

subsection \<open>The store as a map\<close>

text \<open>
  What a state of the database holds, abstractly: a value per versioned key (the intent of a
  key being its version at the intent timestamp) and a record per transaction.
\<close>

definition version_map ::
  "('db \<Rightarrow> string \<Rightarrow> (bytes \<times> bytes) list) \<Rightarrow> 'db \<Rightarrow> mvcc_key \<rightharpoonup> bytes" where
  "version_map contents d k = map_of (contents d MVCC_COLUMN_FAMILY) (encode_mvcc_key k)"

definition record_bytes ::
  "'db env \<Rightarrow> ('db \<Rightarrow> string \<Rightarrow> (bytes \<times> bytes) list) \<Rightarrow> 'db \<Rightarrow> uuid \<rightharpoonup> bytes" where
  "record_bytes env contents d u =
     map_of (contents d TRANSACTION_RECORD_COLUMN_FAMILY) (uuid_to_string env u)"

lemma cf_names_distinct [simp]: "TRANSACTION_RECORD_COLUMN_FAMILY \<noteq> MVCC_COLUMN_FAMILY"
  by (simp add: MVCC_COLUMN_FAMILY_def TRANSACTION_RECORD_COLUMN_FAMILY_def)

lemma encode_in_cf_keys [simp]: "encode_mvcc_key k \<in> cf_keys True"
  by (auto simp: cf_keys_mvcc)

lemma uuid_in_cf_keys:
  assumes "uuid_ok env"
  shows "uuid_to_string env u \<in> cf_keys False"
proof -
  have "decode_mvcc_key (uuid_to_string env u) \<noteq> Some k" for k
  proof
    assume "decode_mvcc_key (uuid_to_string env u) = Some k"
    then have "set mvcc_marker \<subseteq> set (uuid_to_string env u)"
      by (auto simp: decode_Some_iff encode_mvcc_key_def)
    then have "set mvcc_marker \<subseteq> uuid_chars"
      using assms by (auto simp: uuid_ok_def)
    then show False
      by (simp add: mvcc_marker_def uuid_chars_def upt_rec)
  qed
  then show ?thesis
    by (cases "decode_mvcc_key (uuid_to_string env u)") (auto simp: cf_keys_def)
qed

text \<open>\<open>db_is\<close>: the state is live and holds exactly these versions and record bytes.\<close>

definition db_is ::
  "'db env \<Rightarrow> ('db \<Rightarrow> bool) \<Rightarrow> ('db \<Rightarrow> string \<Rightarrow> (bytes \<times> bytes) list) \<Rightarrow> 'db \<Rightarrow>
   (mvcc_key \<rightharpoonup> bytes) \<Rightarrow> (uuid \<rightharpoonup> bytes) \<Rightarrow> bool" where
  "db_is env live contents d vm rm \<longleftrightarrow>
     live d \<and> version_map contents d = vm \<and> record_bytes env contents d = rm"

lemma db_is_live: "db_is env live contents d vm rm \<Longrightarrow> live d"
  by (simp add: db_is_def)

lemma mvcc_cf_ok:
  "platform_ok env live contents \<Longrightarrow> live d \<Longrightarrow> cf_ok env live contents d MVCC_COLUMN_FAMILY"
  by (simp add: platform_ok_def rocksdb_ok_def)

lemma txn_cf_ok:
  "platform_ok env live contents \<Longrightarrow> live d \<Longrightarrow>
   cf_ok env live contents d TRANSACTION_RECORD_COLUMN_FAMILY"
  by (simp add: platform_ok_def rocksdb_ok_def)

lemma cf_okD:
  assumes "cf_ok env live contents d cf"
  shows "cf_handle env d cf"
    and "iterator_cf env d cf = map Inr (contents d cf)"
    and "fst ` set (contents d cf) \<subseteq> cf_keys (cf = MVCC_COLUMN_FAMILY)"
    and "ordered_by storage_compare (contents d cf)"
    and "k \<in> cf_keys (cf = MVCC_COLUMN_FAMILY) \<Longrightarrow>
           get_cf env d cf k = Inr (map_of (contents d cf) k)"
  using assms unfolding cf_ok_def Let_def by blast+

lemma cf_ok_put:
  assumes "cf_ok env live contents d cf" and "k \<in> cf_keys (cf = MVCC_COLUMN_FAMILY)"
  obtains d' where "put_cf env d cf k v = Inr d'" "live d'"
    "map_of (contents d' cf) = (map_of (contents d cf))(k \<mapsto> v)"
    "\<And>cf'. cf' \<noteq> cf \<Longrightarrow> contents d' cf' = contents d cf'"
proof -
  have "\<exists>d'. put_cf env d cf k v = Inr d' \<and> live d' \<and>
    map_of (contents d' cf) = (map_of (contents d cf))(k \<mapsto> v) \<and>
    (\<forall>cf'. cf' \<noteq> cf \<longrightarrow> contents d' cf' = contents d cf')"
    using assms unfolding cf_ok_def Let_def by blast
  with that show ?thesis by blast
qed

lemma cf_ok_delete:
  assumes "cf_ok env live contents d cf" and "k \<in> cf_keys (cf = MVCC_COLUMN_FAMILY)"
  obtains d' where "delete_cf env d cf k = Inr d'" "live d'"
    "map_of (contents d' cf) = (map_of (contents d cf))(k := None)"
    "\<And>cf'. cf' \<noteq> cf \<Longrightarrow> contents d' cf' = contents d cf'"
proof -
  have "\<exists>d'. delete_cf env d cf k = Inr d' \<and> live d' \<and>
    map_of (contents d' cf) = (map_of (contents d cf))(k := None) \<and>
    (\<forall>cf'. cf' \<noteq> cf \<longrightarrow> contents d' cf' = contents d cf')"
    using assms unfolding cf_ok_def Let_def by blast
  with that show ?thesis by blast
qed

lemma put_cf_mvcc:
  assumes "platform_ok env live contents" "db_is env live contents d vm rm"
  obtains d' where "put_cf env d MVCC_COLUMN_FAMILY (encode_mvcc_key k) v = Inr d'"
    and "db_is env live contents d' (vm(k \<mapsto> v)) rm"
proof -
  have ok: "cf_ok env live contents d MVCC_COLUMN_FAMILY"
    using assms by (simp add: mvcc_cf_ok db_is_def)
  show ?thesis
  proof (rule cf_ok_put[OF ok, of "encode_mvcc_key k" v])
    fix d'
    assume d': "put_cf env d MVCC_COLUMN_FAMILY (encode_mvcc_key k) v = Inr d'" "live d'"
      "map_of (contents d' MVCC_COLUMN_FAMILY) =
         (map_of (contents d MVCC_COLUMN_FAMILY))(encode_mvcc_key k \<mapsto> v)"
      "\<And>cf'. cf' \<noteq> MVCC_COLUMN_FAMILY \<Longrightarrow> contents d' cf' = contents d cf'"
    then have "db_is env live contents d' (vm(k \<mapsto> v)) rm"
      using assms(2) by (auto simp: db_is_def version_map_def record_bytes_def fun_eq_iff)
    with d'(1) that show ?thesis by blast
  qed simp
qed

lemma delete_cf_mvcc:
  assumes "platform_ok env live contents" "db_is env live contents d vm rm"
  obtains d' where "delete_cf env d MVCC_COLUMN_FAMILY (encode_mvcc_key k) = Inr d'"
    and "db_is env live contents d' (vm(k := None)) rm"
proof -
  have ok: "cf_ok env live contents d MVCC_COLUMN_FAMILY"
    using assms by (simp add: mvcc_cf_ok db_is_def)
  show ?thesis
  proof (rule cf_ok_delete[OF ok, of "encode_mvcc_key k"])
    fix d'
    assume d': "delete_cf env d MVCC_COLUMN_FAMILY (encode_mvcc_key k) = Inr d'" "live d'"
      "map_of (contents d' MVCC_COLUMN_FAMILY) =
         (map_of (contents d MVCC_COLUMN_FAMILY))(encode_mvcc_key k := None)"
      "\<And>cf'. cf' \<noteq> MVCC_COLUMN_FAMILY \<Longrightarrow> contents d' cf' = contents d cf'"
    then have "db_is env live contents d' (vm(k := None)) rm"
      using assms(2) by (auto simp: db_is_def version_map_def record_bytes_def fun_eq_iff)
    with d'(1) that show ?thesis by blast
  qed simp
qed

lemma put_cf_txn:
  assumes "platform_ok env live contents" "db_is env live contents d vm rm"
  obtains d' where
    "put_cf env d TRANSACTION_RECORD_COLUMN_FAMILY (uuid_to_string env u) v = Inr d'"
    and "db_is env live contents d' vm (rm(u \<mapsto> v))"
proof -
  let ?cf = TRANSACTION_RECORD_COLUMN_FAMILY
  have uuid: "uuid_ok env" using assms(1) by (simp add: platform_ok_def)
  then have inj: "uuid_to_string env a = uuid_to_string env b \<longleftrightarrow> a = b" for a b
    by (auto simp: uuid_ok_def inj_eq)
  have ok: "cf_ok env live contents d ?cf"
    using assms by (simp add: txn_cf_ok db_is_def)
  show ?thesis
  proof (rule cf_ok_put[OF ok, of "uuid_to_string env u" v])
    show "uuid_to_string env u \<in> cf_keys (?cf = MVCC_COLUMN_FAMILY)"
      using uuid_in_cf_keys[OF uuid] by simp
    fix d'
    assume d': "put_cf env d ?cf (uuid_to_string env u) v = Inr d'" "live d'"
      "map_of (contents d' ?cf) = (map_of (contents d ?cf))(uuid_to_string env u \<mapsto> v)"
      "\<And>cf'. cf' \<noteq> ?cf \<Longrightarrow> contents d' cf' = contents d cf'"
    then have "db_is env live contents d' vm (rm(u \<mapsto> v))"
      using assms(2) d'(4)[OF cf_names_distinct[symmetric]]
      by (auto simp: db_is_def version_map_def record_bytes_def fun_eq_iff inj)
    with d'(1) that show ?thesis by blast
  qed
qed

lemma get_cf_mvcc:
  assumes "platform_ok env live contents" "db_is env live contents d vm rm"
  shows "get_cf env d MVCC_COLUMN_FAMILY (encode_mvcc_key k) = Inr (vm k)"
  using cf_okD(5)[OF mvcc_cf_ok[OF assms(1) db_is_live[OF assms(2)]], of "encode_mvcc_key k"] assms(2)
  by (auto simp: db_is_def version_map_def)

lemma get_cf_txn:
  assumes "platform_ok env live contents" "db_is env live contents d vm rm"
  shows "get_cf env d TRANSACTION_RECORD_COLUMN_FAMILY (uuid_to_string env u) = Inr (rm u)"
proof -
  have "uuid_to_string env u \<in> cf_keys False"
    using assms(1) by (auto simp: platform_ok_def intro: uuid_in_cf_keys)
  then show ?thesis
    using cf_okD(5)[OF txn_cf_ok[OF assms(1) db_is_live[OF assms(2)]], of "uuid_to_string env u"]
      assms(2)
    by (auto simp: db_is_def record_bytes_def)
qed

lemma column_family_ok:
  assumes "platform_ok env live contents" "db_is env live contents d vm rm"
  shows "get_column_family env d MVCC_COLUMN_FAMILY = Inr MVCC_COLUMN_FAMILY"
    and "get_column_family env d TRANSACTION_RECORD_COLUMN_FAMILY =
           Inr TRANSACTION_RECORD_COLUMN_FAMILY"
  using cf_okD(1)[OF mvcc_cf_ok[OF assms(1) db_is_live[OF assms(2)]]]
    cf_okD(1)[OF txn_cf_ok[OF assms(1) db_is_live[OF assms(2)]]]
  by (simp_all add: get_column_family_def)

subsection \<open>What the operations do to the map\<close>

lemma put_raw_with_mvcc_key_ok:
  assumes "platform_ok env live contents" "db_is env live contents d vm rm"
    and "mvcc_key_to_string k = Inr s"
  obtains d' where "put_raw_with_mvcc_key env d k v = Inr (Inr d')"
    and "db_is env live contents d' (vm(k \<mapsto> v)) rm"
proof -
  have s: "s = encode_mvcc_key k"
    using assms(3) by (auto simp: mvcc_key_to_string_def Let_def split: if_splits)
  obtain d' where "put_cf env d MVCC_COLUMN_FAMILY (encode_mvcc_key k) v = Inr d'"
    "db_is env live contents d' (vm(k \<mapsto> v)) rm"
    using put_cf_mvcc[OF assms(1,2)] by metis
  then show ?thesis
    using that column_family_ok[OF assms(1,2)]
    by (simp add: put_raw_with_mvcc_key_def assms(3) s put_raw_def)
qed

lemma put_serialized_with_mvcc_key_ok:
  assumes "platform_ok env live contents" "db_is env live contents d vm rm"
    and "mvcc_key_to_string k = Inr s" and "to_str v = Inr b"
  obtains d' where "put_serialized_with_mvcc_key env d to_str k v = Inr (Inr d')"
    and "db_is env live contents d' (vm(k \<mapsto> b)) rm"
proof -
  have "put_serialized_with_mvcc_key env d to_str k v = put_raw_with_mvcc_key env d k b"
    by (simp add: put_serialized_with_mvcc_key_def put_raw_with_mvcc_key_def put_serialized_def
        assms(3,4))
  with put_raw_with_mvcc_key_ok[OF assms(1-3)] that show ?thesis by metis
qed

lemma delete_mvcc_ok:
  assumes "platform_ok env live contents" "db_is env live contents d vm rm"
    and "mvcc_key_to_string k = Inr s"
  obtains d' where "delete_mvcc env d k = Inr d'" and "db_is env live contents d' (vm(k := None)) rm"
proof -
  have s: "s = encode_mvcc_key k"
    using assms(3) by (auto simp: mvcc_key_to_string_def Let_def split: if_splits)
  obtain d' where "delete_cf env d MVCC_COLUMN_FAMILY (encode_mvcc_key k) = Inr d'"
    "db_is env live contents d' (vm(k := None)) rm"
    using delete_cf_mvcc[OF assms(1,2)] by metis
  then show ?thesis
    using that column_family_ok[OF assms(1,2)]
    by (simp add: delete_mvcc_def assms(3) s storage_delete_def)
qed

lemma put_transaction_record_ok:
  assumes "platform_ok env live contents" "db_is env live contents d vm rm"
    and "ser_txn_record env r = Inr b"
  obtains d' where "storage_put_transaction_record env d u r = Inr (Inr d')"
    and "db_is env live contents d' vm (rm(u \<mapsto> b))"
proof -
  obtain d' where
    "put_cf env d TRANSACTION_RECORD_COLUMN_FAMILY (uuid_to_string env u) b = Inr d'"
    "db_is env live contents d' vm (rm(u \<mapsto> b))"
    using put_cf_txn[OF assms(1,2)] by metis
  then show ?thesis
    using that column_family_ok[OF assms(1,2)]
    by (simp add: storage_put_transaction_record_def put_serialized_def assms(3) put_raw_def)
qed

lemma get_transaction_record_ok:
  assumes "platform_ok env live contents" "db_is env live contents d vm rm"
  shows "storage_get_transaction_record env d u =
    (case rm u of None \<Rightarrow> Inr None
     | Some b \<Rightarrow> rbind (unwrap_result (de_txn_record env b)) (\<lambda>r. Inr (Some r)))"
  using column_family_ok[OF assms] get_cf_txn[OF assms, of u]
  by (cases "rm u"; cases "de_txn_record env (the (rm u))")
    (auto simp: storage_get_transaction_record_def get_serialized_def)

end
