(* ===== verification/Mvcc_Iterator.thy ===== *)
theory Mvcc_Iterator
  imports Storage
begin

text \<open>
  The wrapper around the RocksDB iterator (\<open>src/src/storage/mvcc_iterator.rs\<close>). The
  underlying \<open>Peekable<DBIterator>\<close> is the list of items it will still yield. Note what
  \<open>seek_ge\<close> does when nothing matches: it consumes every remaining item but the last
  \<open>next()\<close> that would notice the end, so the iterator stays valid on the last entry.
\<close>

type_synonym kv_bytes = "bytes \<times> bytes"

record mvcc_iterator =
  it :: "(string + kv_bytes) list"
  prefix :: bool
  curr_kv :: "kv_bytes option"
  is_done :: bool

definition it_next :: "mvcc_iterator \<Rightarrow> bool \<times> mvcc_iterator" where
  "it_next i =
     (case it i of
        Inr kv # rest \<Rightarrow> (True, i\<lparr>it := rest, curr_kv := Some kv\<rparr>)
      | Inl _ # rest \<Rightarrow> (False, i\<lparr>it := rest, is_done := True, curr_kv := None\<rparr>)
      | [] \<Rightarrow> (False, i\<lparr>is_done := True, curr_kv := None\<rparr>))"

definition mvcc_iterator_new :: "'db env \<Rightarrow> 'db \<Rightarrow> bool \<Rightarrow> mvcc_iterator res" where
  "mvcc_iterator_new env d pre =
     rbind (get_mvcc_iterator env d)
       (\<lambda>items. Inr (snd (it_next \<lparr>it = items, prefix = pre, curr_kv = None, is_done = False\<rparr>)))"

definition convert_raw_key_to_mvcc_key :: "bytes \<Rightarrow> mvcc_key res" where
  "convert_raw_key_to_mvcc_key raw_key = unwrap (decode_mvcc_key raw_key)"

definition current_raw_key :: "mvcc_iterator \<Rightarrow> bytes res" where
  "current_raw_key i = rbind (unwrap (curr_kv i)) (\<lambda>(k, _). Inr k)"

definition current_key :: "mvcc_iterator \<Rightarrow> mvcc_key res" where
  "current_key i = rbind (unwrap (curr_kv i)) (\<lambda>(k, _). convert_raw_key_to_mvcc_key k)"

definition current_value :: "mvcc_iterator \<Rightarrow> val res" where
  "current_value i = rbind (unwrap (curr_kv i)) (\<lambda>(_, v). Inr v)"

definition current_value_serialized ::
  "(bytes \<Rightarrow> string + 'v) \<Rightarrow> mvcc_iterator \<Rightarrow> 'v res" where
  "current_value_serialized from_slice i =
     rbind (unwrap (curr_kv i)) (\<lambda>(_, v). unwrap_result (from_slice v))"

definition it_valid :: "mvcc_iterator \<Rightarrow> bool" where
  "it_valid i \<longleftrightarrow> \<not> is_done i"

definition seek_match :: "mvcc_key \<Rightarrow> mvcc_key \<Rightarrow> bool" where
  "seek_match k found \<longleftrightarrow> mkey found = mkey k \<and> mtimestamp found \<le> mtimestamp k"

text \<open>The loop of \<open>seek_ge\<close>: every turn peeks, then consumes one item.\<close>

function seek_ge_loop :: "mvcc_key \<Rightarrow> mvcc_iterator \<Rightarrow> (bool \<times> mvcc_iterator) res" where
  "seek_ge_loop k i =
     (case it i of
        Inr (raw, _) # _ \<Rightarrow>
          rbind (convert_raw_key_to_mvcc_key raw)
            (\<lambda>peeked_key.
               if seek_match k peeked_key then Inr (True, snd (it_next i))
               else seek_ge_loop k (snd (it_next i)))
      | _ \<Rightarrow> Inr (False, i))"
  by pat_completeness auto
termination
  by (relation "measure (\<lambda>(k, i). length (it i))") (auto simp: it_next_def)

declare seek_ge_loop.simps [simp del]

definition seek_ge :: "mvcc_iterator \<Rightarrow> mvcc_key \<Rightarrow> (bool \<times> mvcc_iterator) res" where
  "seek_ge i k =
     (if \<not> it_valid i then Inr (False, i)
      else rbind (current_key i)
        (\<lambda>curr_key. if seek_match k curr_key then Inr (True, i)
                    else seek_ge_loop k i))"

subsection \<open>Invariant\<close>

text \<open>The comment in the source: if \<open>is_done\<close> then \<open>curr_kv\<close> is \<open>None\<close>; and conversely.\<close>

definition it_inv :: "mvcc_iterator \<Rightarrow> bool" where
  "it_inv i \<longleftrightarrow> (is_done i \<longleftrightarrow> curr_kv i = None)"

lemma it_next_inv:
  assumes "\<not> is_done i \<or> it i = []"
  shows "it_inv (snd (it_next i))"
  using assms by (auto simp: it_next_def it_inv_def split: list.splits sum.splits)

lemma mvcc_iterator_new_inv: "mvcc_iterator_new env d pre = Inr i \<Longrightarrow> it_inv i"
  by (auto simp: mvcc_iterator_new_def rbind_eq_Inr intro: it_next_inv)

lemma seek_ge_loop_inv:
  "seek_ge_loop k i = Inr (b, j) \<Longrightarrow> it_inv i \<Longrightarrow> \<not> is_done i \<Longrightarrow> it_inv j \<and> \<not> is_done j"
proof (induction k i rule: seek_ge_loop.induct)
  case (1 k i)
  have step: "it_inv (snd (it_next i)) \<and> \<not> is_done (snd (it_next i))" if "it i = Inr kv # rest" for kv rest
    using that "1.prems" by (auto simp: it_next_def it_inv_def)
  show ?case
  proof (cases "it i")
    case (Cons x rest)
    with 1 step show ?thesis
      by (cases x)
        (auto simp: seek_ge_loop.simps[of k i] rbind_eq_Inr split: if_splits prod.splits)
  qed (use "1.prems" in \<open>auto simp: seek_ge_loop.simps[of k i]\<close>)
qed

lemma seek_ge_inv: "seek_ge i k = Inr (b, j) \<Longrightarrow> it_inv i \<Longrightarrow> it_inv j"
  by (auto simp: seek_ge_def it_valid_def rbind_eq_Inr it_inv_def split: if_splits
      dest!: seek_ge_loop_inv)

subsection \<open>Iteration over decoded entries\<close>

text \<open>
  On a live database the items are encoded keys in comparator order. \<open>at_entries\<close> says that
  the iterator stands on the first of these entries with the others still to come.
\<close>

type_synonym entry = "mvcc_key \<times> bytes"

definition enc_entries :: "entry list \<Rightarrow> kv_bytes list" where
  "enc_entries es = map (\<lambda>(k, v). (encode_mvcc_key k, v)) es"

definition entries_sorted :: "entry list \<Rightarrow> bool" where
  "entries_sorted es \<longleftrightarrow> sorted_wrt key_before (map fst es)"

fun at_entries :: "bool \<Rightarrow> entry list \<Rightarrow> mvcc_iterator" where
  "at_entries pre [] = \<lparr>it = [], prefix = pre, curr_kv = None, is_done = True\<rparr>"
| "at_entries pre ((k, v) # es) =
     \<lparr>it = map Inr (enc_entries es), prefix = pre, curr_kv = Some (encode_mvcc_key k, v),
      is_done = False\<rparr>"

lemma enc_entries_simps [simp]:
  "enc_entries [] = []"
  "enc_entries (e # es) = (encode_mvcc_key (fst e), snd e) # enc_entries es"
  by (simp_all add: enc_entries_def case_prod_unfold)

lemma decoded_contents:
  assumes "fst ` set xs \<subseteq> cf_keys True" and "ordered_by storage_compare xs"
  obtains es where "xs = enc_entries es" "entries_sorted es"
proof -
  have "\<exists>es. xs = enc_entries es \<and> entries_sorted es"
    using assms
  proof (induction xs)
    case Nil
    have "[] = enc_entries []" and "entries_sorted []"
      by (simp_all add: entries_sorted_def)
    then show ?case by blast
  next
    case (Cons x xs)
    then obtain es where es: "xs = enc_entries es" "entries_sorted es"
      by auto
    obtain k where k: "fst x = encode_mvcc_key k"
      using Cons.prems by (auto simp: cf_keys_mvcc)
    have "key_before k (fst e)" if "e \<in> set es" for e
    proof -
      have "(encode_mvcc_key (fst e), snd e) \<in> set xs"
        using that by (auto simp: es enc_entries_def case_prod_unfold)
      then have "storage_compare (encode_mvcc_key k) (encode_mvcc_key (fst e)) = Less"
        using Cons.prems k by fastforce
      then show ?thesis by (simp add: storage_compare_encode split: if_splits)
    qed
    then have "x # xs = enc_entries ((k, snd x) # es)" "entries_sorted ((k, snd x) # es)"
      using es k by (auto simp: entries_sorted_def prod_eq_iff)
    then show ?case by blast
  qed
  with that show ?thesis by blast
qed

lemma entries_sorted_Cons:
  "entries_sorted (e # es) \<longleftrightarrow> (\<forall>f\<in>set es. key_before (fst e) (fst f)) \<and> entries_sorted es"
  by (auto simp: entries_sorted_def)

lemma entries_sorted_append:
  "entries_sorted (es @ fs) \<longleftrightarrow> entries_sorted es \<and> entries_sorted fs \<and>
     (\<forall>e\<in>set es. \<forall>f\<in>set fs. key_before (fst e) (fst f))"
  by (auto simp: entries_sorted_def sorted_wrt_append)

lemma entries_sorted_distinct: "entries_sorted es \<Longrightarrow> distinct (map fst es)"
  by (induction es) (auto simp: entries_sorted_Cons)

lemma map_of_enc_entries: "map_of (enc_entries es) (encode_mvcc_key k) = map_of es k"
  by (induction es) auto

lemma version_map_entries:
  assumes "platform_ok env live contents" "db_is env live contents d vm rm"
  obtains es where "contents d MVCC_COLUMN_FAMILY = enc_entries es" "entries_sorted es"
    "vm = map_of es" "mvcc_iterator_new env d pre = Inr (at_entries pre es)"
proof -
  note ok = cf_okD[OF mvcc_cf_ok[OF assms(1) db_is_live[OF assms(2)]]]
  obtain es where es: "contents d MVCC_COLUMN_FAMILY = enc_entries es" "entries_sorted es"
    using decoded_contents[of "contents d MVCC_COLUMN_FAMILY"] ok(3,4) by auto
  have "vm = map_of es"
    using assms(2) by (auto simp: db_is_def version_map_def es map_of_enc_entries fun_eq_iff)
  moreover have "mvcc_iterator_new env d pre = Inr (at_entries pre es)"
    using ok(1,2)
    by (cases es) (auto simp: mvcc_iterator_new_def get_mvcc_iterator_def get_normal_iterator_def es(1)
        it_next_def)
  ultimately show ?thesis using that es by blast
qed

lemma at_entries_simps [simp]:
  "prefix (at_entries pre es) = pre"
  "it_valid (at_entries pre es) \<longleftrightarrow> es \<noteq> []"
  "is_done (at_entries pre es) \<longleftrightarrow> es = []"
  by (cases es; auto simp: it_valid_def)+

lemma at_entries_Cons [simp]:
  "curr_kv (at_entries pre (e # es)) = Some (encode_mvcc_key (fst e), snd e)"
  "it (at_entries pre (e # es)) = map Inr (enc_entries es)"
  by (cases e, simp)+

lemma at_entries_current [simp]:
  "current_key (at_entries pre (e # es)) = Inr (fst e)"
  "current_value (at_entries pre (e # es)) = Inr (snd e)"
  "current_value_serialized f (at_entries pre (e # es)) = unwrap_result (f (snd e))"
  by (simp_all add: current_key_def current_value_def current_value_serialized_def
      convert_raw_key_to_mvcc_key_def decode_encode)

lemma it_next_entries [simp]: "snd (it_next (at_entries pre (e # es))) = at_entries pre es"
  by (cases e; cases es) (auto simp: it_next_def)

declare at_entries.simps [simp del]

lemma seek_ge_loop_entries:
  "seek_ge_loop k (at_entries pre (e # es)) =
     Inr (case dropWhile (\<lambda>e. \<not> seek_match k (fst e)) es of
            [] \<Rightarrow> (False, at_entries pre [last (e # es)])
          | fs \<Rightarrow> (True, at_entries pre fs))"
proof (induction es arbitrary: e)
  case Nil
  then show ?case by (simp add: seek_ge_loop.simps[of k "at_entries pre [e]"])
next
  case (Cons f es)
  have "seek_ge_loop k (at_entries pre (e # f # es)) =
    (if seek_match k (fst f) then Inr (True, at_entries pre (f # es))
     else seek_ge_loop k (at_entries pre (f # es)))"
    by (simp add: seek_ge_loop.simps[of k "at_entries pre (e # f # es)"]
        convert_raw_key_to_mvcc_key_def decode_encode)
  then show ?case
    using Cons.IH[of f]
    by (cases "seek_match k (fst f)"; cases "dropWhile (\<lambda>e. \<not> seek_match k (fst e)) es")
      (simp_all del: dropWhile_eq_Nil_conv)
qed

text \<open>
  \<open>seek_ge\<close> stops at the first entry of the key at or below the timestamp, and on the last
  entry of the whole family when there is none.
\<close>

lemma seek_ge_entries:
  assumes "es \<noteq> []"
  shows "seek_ge (at_entries pre es) k =
     Inr (case dropWhile (\<lambda>e. \<not> seek_match k (fst e)) es of
            [] \<Rightarrow> (False, at_entries pre [last es])
          | fs \<Rightarrow> (True, at_entries pre fs))"
proof -
  obtain e fs where es: "es = e # fs" using assms by (cases es) auto
  have "seek_ge (at_entries pre es) k =
    (if seek_match k (fst e) then Inr (True, at_entries pre es)
     else seek_ge_loop k (at_entries pre es))"
    by (cases "seek_match k (fst e)") (simp_all add: seek_ge_def es)
  then show ?thesis
    by (cases "seek_match k (fst e)"; cases "dropWhile (\<lambda>e. \<not> seek_match k (fst e)) fs")
      (simp_all add: es seek_ge_loop_entries del: dropWhile_eq_Nil_conv)
qed

lemma seek_ge_Nil [simp]: "seek_ge (at_entries pre []) k = Inr (False, at_entries pre [])"
  by (simp add: seek_ge_def)

end
