(* ===== verification/Mvcc_Scanner.thy ===== *)
theory Mvcc_Scanner
  imports Mvcc_Iterator
begin

text \<open>
  The scanner of \<open>src/src/storage/mvcc_scanner.rs\<close>: from a start key to an end key it
  collects, for every key it stands on, the newest version at or below the scan's timestamp,
  or the intent if the key has one.
\<close>

record mvcc_scanner =
  sc_it :: mvcc_iterator
  sc_txn :: "uuid option"
  start_key :: key
  end_key :: "key option"
  sc_timestamp :: timestamp
  found_intents :: "(txn_intent \<times> val) list"
  max_records_count :: nat
  results :: "(mvcc_key \<times> val) list"

definition mvcc_scanner_new ::
  "mvcc_iterator \<Rightarrow> key \<Rightarrow> key option \<Rightarrow> timestamp \<Rightarrow> nat \<Rightarrow> uuid option \<Rightarrow> mvcc_scanner" where
  "mvcc_scanner_new i start stop ts max_records transaction =
     \<lparr>sc_it = i, sc_txn = transaction, start_key = start, end_key = stop, sc_timestamp = ts,
      found_intents = [], max_records_count = max_records, results = []\<rparr>"

definition push_result :: "mvcc_scanner \<Rightarrow> mvcc_scanner res" where
  "push_result s =
     rbind (current_key (sc_it s)) (\<lambda>k. rbind (current_value (sc_it s)) (\<lambda>v.
       Inr (s\<lparr>results := results s @ [(k, v)]\<rparr>)))"

definition seek_older_version :: "mvcc_scanner \<Rightarrow> key \<Rightarrow> timestamp \<Rightarrow> (bool \<times> mvcc_scanner) res" where
  "seek_older_version s k ts =
     rbind (seek_ge (sc_it s) (MVCCKey k ts)) (\<lambda>(is_valid, i).
       let s' = s\<lparr>sc_it := i\<rparr> in
       if is_valid then
         rbind (current_key i) (\<lambda>ck.
           if mkey ck = k then rbind (push_result s') (\<lambda>s''. Inr (True, s''))
           else Inr (False, s'))
       else Inr (False, s'))"

text \<open>
  The three branches on the scanner's transaction differ only in the comments of the source;
  each pushes the intent it found.
\<close>

definition get_current_key :: "'db env \<Rightarrow> mvcc_scanner \<Rightarrow> (bool \<times> mvcc_scanner) res" where
  "get_current_key env s =
     rbind (current_key (sc_it s)) (\<lambda>ck.
       if is_intent_key ck then
         rbind (current_value_serialized (de_uncommitted env) (sc_it s)) (\<lambda>cv.
           let found = (TxnIntent (uvalue_meta cv) (mkey ck), uvalue cv);
               pushed = s\<lparr>found_intents := found_intents s @ [found]\<rparr>
           in case sc_txn s of
                Some scanner_transaction \<Rightarrow>
                  if meta_txn_id (uvalue_meta cv) = scanner_transaction
                  then Inr (False, pushed) else Inr (False, pushed)
              | None \<Rightarrow> Inr (False, pushed))
       else
         let key_timestamp = mtimestamp ck in
         if sc_timestamp s > key_timestamp then rbind (push_result s) (\<lambda>s'. Inr (True, s'))
         else if sc_timestamp s < key_timestamp then
           seek_older_version s (mkey ck) (sc_timestamp s)
         else rbind (push_result s) (\<lambda>s'. Inr (True, s')))"

function advance_loop :: "key \<Rightarrow> mvcc_iterator \<Rightarrow> mvcc_iterator res" where
  "advance_loop k i =
     (let i' = snd (it_next i) in
      if \<not> it_valid i' then Inr i'
      else rbind (current_key i') (\<lambda>next_key.
        if k \<noteq> mkey next_key then Inr i' else advance_loop k i'))"
  by pat_completeness auto
termination
  by (relation "measure (\<lambda>(k, i). length (it i))")
    (auto simp: it_next_def it_valid_def split: list.splits sum.splits)

declare advance_loop.simps [simp del]

definition advance_to_next_key :: "mvcc_scanner \<Rightarrow> mvcc_scanner res" where
  "advance_to_next_key s =
     (if \<not> it_valid (sc_it s) then Inr s
      else rbind (current_key (sc_it s)) (\<lambda>ck.
        rbind (advance_loop (mkey ck) (sc_it s)) (\<lambda>i. Inr (s\<lparr>sc_it := i\<rparr>))))"

subsection \<open>Every turn of the scan consumes input\<close>

definition items_left :: "mvcc_iterator \<Rightarrow> nat" where
  "items_left i = (if is_done i then 0 else Suc (length (it i)))"

lemma it_next_items:
  "\<not> is_done i \<Longrightarrow> items_left (snd (it_next i)) < items_left i"
  "is_done i \<Longrightarrow> items_left (snd (it_next i)) = 0"
  by (auto simp: items_left_def it_next_def split: list.splits sum.splits)

lemma seek_ge_loop_items: "seek_ge_loop k i = Inr (b, j) \<Longrightarrow> items_left j \<le> items_left i"
proof (induction k i rule: seek_ge_loop.induct)
  case (1 k i)
  have "items_left (snd (it_next i)) \<le> items_left i"
    using it_next_items[of i] by (cases "is_done i") (auto simp: items_left_def)
  moreover have "it i = [] \<or> (\<exists>x rest. it i = x # rest)"
    by (cases "it i") auto
  ultimately show ?case
    using 1
    by (auto simp: seek_ge_loop.simps[of k i] rbind_eq_Inr split: if_splits prod.splits sum.splits)
      (meson le_trans)+
qed

lemma seek_ge_items: "seek_ge i k = Inr (b, j) \<Longrightarrow> items_left j \<le> items_left i"
  by (auto simp: seek_ge_def rbind_eq_Inr split: if_splits dest: seek_ge_loop_items)

lemma advance_loop_items:
  "advance_loop k i = Inr j \<Longrightarrow> \<not> is_done i \<Longrightarrow> items_left j < items_left i"
proof (induction k i rule: advance_loop.induct)
  case (1 k i)
  have "items_left (snd (it_next i)) < items_left i"
    using "1.prems" it_next_items by blast
  with 1 show ?case
    by (auto simp: advance_loop.simps[of k i] rbind_eq_Inr it_valid_def Let_def split: if_splits)
      (meson less_trans)
qed

lemma push_result_it: "push_result s = Inr s' \<Longrightarrow> sc_it s' = sc_it s"
  by (auto simp: push_result_def rbind_eq_Inr)

lemma get_current_key_items:
  "get_current_key env s = Inr (b, s') \<Longrightarrow> items_left (sc_it s') \<le> items_left (sc_it s)"
  by (auto simp: get_current_key_def seek_older_version_def rbind_eq_Inr Let_def
      split: if_splits option.splits dest!: push_result_it seek_ge_items)

lemma advance_to_next_key_items:
  "advance_to_next_key s = Inr s' \<Longrightarrow> it_valid (sc_it s) \<Longrightarrow>
   items_left (sc_it s') < items_left (sc_it s)"
  by (auto simp: advance_to_next_key_def rbind_eq_Inr it_valid_def split: if_splits
      dest: advance_loop_items)

subsection \<open>The scan\<close>

definition past_end :: "mvcc_scanner \<Rightarrow> key \<Rightarrow> bool" where
  "past_end s k = (case end_key s of Some e \<Rightarrow> k > e | None \<Rightarrow> k > start_key s)"

function scan_loop :: "'db env \<Rightarrow> mvcc_scanner \<Rightarrow> mvcc_scanner res" where
  "scan_loop env s =
     (if length (results s) = max_records_count s then Inr s
      else if \<not> it_valid (sc_it s) then Inr s
      else rbind (current_key (sc_it s)) (\<lambda>ck.
        if past_end s (mkey ck) then Inr s
        else rbind (get_current_key env s) (\<lambda>(_, s').
          rbind (advance_to_next_key s') (\<lambda>s''. scan_loop env s''))))"
  by pat_completeness auto
termination
proof (relation "measure (\<lambda>(env, s). items_left (sc_it s))", goal_cases)
  case (2 env s ck bs b s' s'')
  have "items_left (sc_it s') \<le> items_left (sc_it s)"
    using 2 get_current_key_items[of env s b s'] by simp
  moreover have "items_left (sc_it s'') < items_left (sc_it s)"
  proof (cases "it_valid (sc_it s')")
    case True
    with 2 advance_to_next_key_items[of s' s''] calculation show ?thesis by simp
  next
    case False
    with 2 show ?thesis
      by (auto simp: advance_to_next_key_def items_left_def it_valid_def)
  qed
  ultimately show ?case by simp
qed simp

declare scan_loop.simps [simp del]

definition scan :: "'db env \<Rightarrow> mvcc_scanner \<Rightarrow> mvcc_scanner res" where
  "scan env s =
     rbind (seek_ge (sc_it s) (create_intent_key (start_key s)))
       (\<lambda>(_, i). scan_loop env (s\<lparr>sc_it := i\<rparr>))"

subsection \<open>A point scan over decoded entries\<close>

lemma advance_loop_entries:
  "advance_loop k (at_entries pre (e # es)) =
     Inr (at_entries pre (dropWhile (\<lambda>e. mkey (fst e) = k) es))"
proof (induction es arbitrary: e)
  case Nil
  then show ?case by (simp add: advance_loop.simps[of k "at_entries pre [e]"] Let_def)
next
  case (Cons f es)
  have "advance_loop k (at_entries pre (e # f # es)) =
    (if k \<noteq> mkey (fst f) then Inr (at_entries pre (f # es))
     else advance_loop k (at_entries pre (f # es)))"
    by (subst advance_loop.simps) (simp add: Let_def)
  then show ?case
    using Cons[of f] by (cases "k = mkey (fst f)") simp_all
qed

lemma advance_to_next_key_entries:
  "sc_it s = at_entries pre (e # es) \<Longrightarrow>
   advance_to_next_key s =
     Inr (s\<lparr>sc_it := at_entries pre (dropWhile (\<lambda>f. mkey (fst f) = mkey (fst e)) es)\<rparr>)"
  by (simp add: advance_to_next_key_def advance_loop_entries)

lemma get_current_key_intent:
  assumes "sc_it s = at_entries pre (e # es)" "is_intent_key (fst e)"
    and "de_uncommitted env (snd e) = Inr u"
  shows "get_current_key env s =
    Inr (False, s\<lparr>found_intents := found_intents s @ [(TxnIntent (uvalue_meta u) (mkey (fst e)), uvalue u)]\<rparr>)"
  using assms by (simp add: get_current_key_def Let_def split: option.splits)

lemma get_current_key_version:
  assumes "sc_it s = at_entries pre (e # es)" "\<not> is_intent_key (fst e)"
    and "mtimestamp (fst e) \<le> sc_timestamp s"
  shows "get_current_key env s = Inr (True, s\<lparr>results := results s @ [e]\<rparr>)"
  using assms by (auto simp: get_current_key_def push_result_def Let_def)

lemma get_current_key_older:
  assumes "sc_it s = at_entries pre (e # es)" "\<not> is_intent_key (fst e)"
    and "sc_timestamp s < mtimestamp (fst e)"
  shows "get_current_key env s =
    Inr (case dropWhile (\<lambda>f. \<not> seek_match (MVCCKey (mkey (fst e)) (sc_timestamp s)) (fst f)) (e # es) of
           [] \<Rightarrow> (False, s\<lparr>sc_it := at_entries pre [last (e # es)]\<rparr>)
         | f # fs \<Rightarrow> (True, s\<lparr>sc_it := at_entries pre (f # fs), results := results s @ [f]\<rparr>))"
    (is "_ = Inr (case ?dw of [] \<Rightarrow> _ | f # fs \<Rightarrow> _)")
proof -
  have get: "get_current_key env s = seek_older_version s (mkey (fst e)) (sc_timestamp s)"
    using assms by (auto simp: get_current_key_def Let_def)
  have seek: "seek_ge (sc_it s) (MVCCKey (mkey (fst e)) (sc_timestamp s)) =
    Inr (case ?dw of [] \<Rightarrow> (False, at_entries pre [last (e # es)]) | fs \<Rightarrow> (True, at_entries pre fs))"
    using assms(1) seek_ge_entries[of "e # es" pre] by simp
  show ?thesis
  proof (cases ?dw)
    case Nil
    then show ?thesis by (simp add: get seek_older_version_def seek del: dropWhile_eq_Nil_conv)
  next
    case (Cons f fs)
    then have "seek_match (MVCCKey (mkey (fst e)) (sc_timestamp s)) (fst f)"
      using hd_dropWhile[of "\<lambda>f. \<not> seek_match (MVCCKey (mkey (fst e)) (sc_timestamp s)) (fst f)" "e # es"]
      by auto
    then have "mkey (fst f) = mkey (fst e)" by (simp add: seek_match_def)
    with Cons show ?thesis
      by (simp add: get seek_older_version_def seek push_result_def)
  qed
qed

text \<open>The loop stops once the iterator is exhausted, has enough results, or is past the end.\<close>

lemma scan_loop_stop:
  "sc_it s = at_entries pre [] \<Longrightarrow> scan_loop env s = Inr s"
  "length (results s) = max_records_count s \<Longrightarrow> scan_loop env s = Inr s"
  "sc_it s = at_entries pre (e # es) \<Longrightarrow> past_end s (mkey (fst e)) \<Longrightarrow> scan_loop env s = Inr s"
  by (simp_all add: scan_loop.simps[of env s])

lemma scan_loop_step:
  assumes "length (results s) \<noteq> max_records_count s" "sc_it s = at_entries pre (e # es)"
    "\<not> past_end s (mkey (fst e))"
    "get_current_key env s = Inr (b, s')" "sc_it s' = at_entries pre (f # fs)"
  shows "scan_loop env s =
    scan_loop env (s'\<lparr>sc_it := at_entries pre (dropWhile (\<lambda>g. mkey (fst g) = mkey (fst f)) fs)\<rparr>)"
  using assms by (simp add: scan_loop.simps[of env s] advance_to_next_key_entries)

lemma seek_start:
  "seek_match (create_intent_key k) m \<longleftrightarrow> mkey m = k"
  by (simp add: seek_match_def)

lemma scanner_new_simps [simp]:
  "sc_it (mvcc_scanner_new i k e t n tx) = i"
  "start_key (mvcc_scanner_new i k e t n tx) = k"
  "sc_timestamp (mvcc_scanner_new i k e t n tx) = t"
  "results (mvcc_scanner_new i k e t n tx) = []"
  "found_intents (mvcc_scanner_new i k e t n tx) = []"
  "max_records_count (mvcc_scanner_new i k e t n tx) = n"
  "past_end (mvcc_scanner_new i k (Some stop) t n tx) k' \<longleftrightarrow> stop < k'"
  "(mvcc_scanner_new i k e t n tx)\<lparr>sc_it := j\<rparr> = mvcc_scanner_new j k e t n tx"
  by (simp_all add: mvcc_scanner_new_def past_end_def)

lemma past_end_update [simp]:
  "past_end (s\<lparr>sc_it := i\<rparr>) k = past_end s k"
  "past_end (s\<lparr>results := r\<rparr>) k = past_end s k"
  "past_end (s\<lparr>found_intents := f\<rparr>) k = past_end s k"
  by (simp_all add: past_end_def split: option.split)

text \<open>The entries of one key are contiguous: after them come only greater keys.\<close>

lemma entries_after_key:
  assumes "entries_sorted (e # es)" "mkey (fst e) = k"
  shows "dropWhile (\<lambda>f. mkey (fst f) = k) es = [] \<or>
    (\<exists>g gs. dropWhile (\<lambda>f. mkey (fst f) = k) es = g # gs \<and> k < mkey (fst g))"
proof (cases "dropWhile (\<lambda>f. mkey (fst f) = k) es")
  case (Cons g gs)
  then have "g \<in> set es" by (metis list.set_intros(1) set_dropWhileD)
  then have "key_before (fst e) (fst g)"
    using assms(1) by (auto simp: entries_sorted_Cons)
  moreover have "mkey (fst g) \<noteq> k"
    using Cons hd_dropWhile[of "\<lambda>f. mkey (fst f) = k" es] by auto
  ultimately show ?thesis
    using assms(2) Cons by (auto simp: key_before_def)
qed simp

lemma scan_loop_after_key:
  assumes "entries_sorted (e # es)" "mkey (fst e) = k"
    and "sc_it s = at_entries pre (dropWhile (\<lambda>f. mkey (fst f) = k) es)"
    and "\<And>k'. past_end s k' \<longleftrightarrow> k < k'"
  shows "scan_loop env s = Inr s"
  using entries_after_key[OF assms(1,2)] assms(3,4) scan_loop_stop(1,3) by metis

text \<open>What a point scan of a key returns, on each kind of entry it starts from.\<close>

lemma scan_point_intent:
  assumes "entries_sorted (e # es)" "fst e = create_intent_key k"
    and "de_uncommitted env (snd e) = Inr u"
  shows "\<exists>s. scan_loop env (mvcc_scanner_new (at_entries pre (e # es)) k (Some k) t 1 tx) = Inr s \<and>
     results s = [] \<and> found_intents s = [(TxnIntent (uvalue_meta u) k, uvalue u)]"
proof -
  let ?s = "mvcc_scanner_new (at_entries pre (e # es)) k (Some k) t 1 tx"
  let ?s' = "?s\<lparr>found_intents := [(TxnIntent (uvalue_meta u) k, uvalue u)]\<rparr>"
  let ?s'' = "?s'\<lparr>sc_it := at_entries pre (dropWhile (\<lambda>g. mkey (fst g) = k) es)\<rparr>"
  have "get_current_key env ?s = Inr (False, ?s')"
    using get_current_key_intent[of ?s pre e es env u] assms(2,3) by simp
  then have "scan_loop env ?s = scan_loop env ?s''"
    using scan_loop_step[of ?s pre e es env False ?s' e es] assms(2) by simp
  also have "\<dots> = Inr ?s''"
    using scan_loop_after_key[OF assms(1), of k ?s'' pre env] assms(2) by simp
  finally show ?thesis by simp
qed

lemma scan_point_version:
  assumes "\<not> is_intent_key (fst e)" "mkey (fst e) \<le> k" "mtimestamp (fst e) \<le> t"
  shows "\<exists>s. scan_loop env (mvcc_scanner_new (at_entries pre (e # es)) k (Some k) t 1 tx) = Inr s \<and>
     results s = [e] \<and> found_intents s = []"
proof -
  let ?s = "mvcc_scanner_new (at_entries pre (e # es)) k (Some k) t 1 tx"
  let ?s' = "?s\<lparr>results := [e]\<rparr>"
  let ?s'' = "?s'\<lparr>sc_it := at_entries pre (dropWhile (\<lambda>g. mkey (fst g) = mkey (fst e)) es)\<rparr>"
  have "get_current_key env ?s = Inr (True, ?s')"
    using get_current_key_version[of ?s pre e es env] assms by simp
  then have "scan_loop env ?s = scan_loop env ?s''"
    using scan_loop_step[of ?s pre e es env True ?s' e es] assms(2) by (simp add: not_less)
  also have "\<dots> = Inr ?s''"
    by (rule scan_loop_stop(2)) simp
  finally show ?thesis by simp
qed

lemma scan_point_older:
  assumes "\<not> is_intent_key (fst e)" "mkey (fst e) \<le> k" "t < mtimestamp (fst e)"
  shows "\<exists>s. scan_loop env (mvcc_scanner_new (at_entries pre (e # es)) k (Some k) t 1 tx) = Inr s \<and>
     found_intents s = [] \<and>
     results s = (case dropWhile (\<lambda>f. \<not> seek_match (MVCCKey (mkey (fst e)) t) (fst f)) (e # es) of
                    [] \<Rightarrow> [] | f # fs \<Rightarrow> [f])"
    (is "\<exists>s. scan_loop env ?s = Inr s \<and> _ s \<and> results s = (case ?dw of [] \<Rightarrow> [] | f # fs \<Rightarrow> [f])")
proof (cases ?dw)
  case Nil
  let ?s' = "?s\<lparr>sc_it := at_entries pre [last (e # es)]\<rparr>"
  let ?s'' = "?s'\<lparr>sc_it := at_entries pre []\<rparr>"
  have "get_current_key env ?s = Inr (False, ?s')"
    using get_current_key_older[of ?s pre e es env] assms Nil
    by (simp del: dropWhile_eq_Nil_conv last.simps)
  then have "scan_loop env ?s = scan_loop env ?s''"
    using scan_loop_step[of ?s pre e es env False ?s' "last (e # es)" "[]"] assms(2)
    by (simp add: not_less del: last.simps)
  also have "\<dots> = Inr ?s''"
    by (rule scan_loop_stop(1)) simp
  finally show ?thesis using Nil by (simp del: dropWhile_eq_Nil_conv)
next
  case (Cons f fs)
  let ?s' = "?s\<lparr>sc_it := at_entries pre (f # fs), results := [f]\<rparr>"
  let ?s'' = "?s'\<lparr>sc_it := at_entries pre (dropWhile (\<lambda>g. mkey (fst g) = mkey (fst f)) fs)\<rparr>"
  have "get_current_key env ?s = Inr (True, ?s')"
    using get_current_key_older[of ?s pre e es env] assms Cons by simp
  then have "scan_loop env ?s = scan_loop env ?s''"
    using scan_loop_step[of ?s pre e es env True ?s' f fs] assms(2) by (simp add: not_less)
  also have "\<dots> = Inr ?s''"
    by (rule scan_loop_stop(2)) simp
  finally show ?thesis using Cons by simp
qed

end
