(* ===== verification/Mvcc.thy ===== *)
theory Mvcc
  imports Mvcc_Scanner
begin

text \<open>
  The multi-version store (\<open>KVStore\<close> in \<open>src/src/storage/mvcc.rs\<close>). A transaction passed
  to an operation is the \<open>txn\<close> its link points to.
\<close>

datatype mvcc_get_result =
  MVCCGetResult (get_value: "(mvcc_key \<times> val) option") (get_intent: "(txn_intent \<times> val) option")

datatype mvcc_scan_result =
  MVCCScanResult (scan_results: "(mvcc_key \<times> val) list") (scan_intents: "(txn_intent \<times> val) list")

datatype write_intent_error = WriteIntentError (err_intent: txn_intent)

definition mvcc_scan ::
  "'db env \<Rightarrow> 'db \<Rightarrow> key \<Rightarrow> key \<Rightarrow> timestamp \<Rightarrow> nat \<Rightarrow> uuid option \<Rightarrow> mvcc_scan_result res" where
  "mvcc_scan env d start stop ts max_result_count transaction =
     rbind (mvcc_iterator_new env d True) (\<lambda>iterator.
       rbind (scan env (mvcc_scanner_new iterator start (Some stop) ts max_result_count transaction))
         (\<lambda>scanner. Inr (MVCCScanResult (results scanner) (found_intents scanner))))"

definition first_of :: "'a list \<Rightarrow> 'a option" where
  "first_of xs = (if length xs > 0 then Some (hd xs) else None)"

definition mvcc_get ::
  "'db env \<Rightarrow> 'db \<Rightarrow> key \<Rightarrow> timestamp \<Rightarrow> uuid option \<Rightarrow> mvcc_get_result res" where
  "mvcc_get env d k ts transaction =
     rbind (mvcc_scan env d k k ts 1 transaction) (\<lambda>res.
       Inr (MVCCGetResult (first_of (scan_results res)) (first_of (scan_intents res))))"

definition mvcc_delete :: "'db env \<Rightarrow> 'db \<Rightarrow> mvcc_key \<Rightarrow> 'db res" where
  "mvcc_delete env d k = delete_mvcc env d k"

definition get_transaction_record :: "'db env \<Rightarrow> 'db \<Rightarrow> uuid \<Rightarrow> txn_record option res" where
  "get_transaction_record env d tid = storage_get_transaction_record env d tid"

definition put_transaction_record :: "'db env \<Rightarrow> 'db \<Rightarrow> uuid \<Rightarrow> txn_record \<Rightarrow> 'db res" where
  "put_transaction_record env d tid r =
     rbind (storage_put_transaction_record env d tid r) unwrap_result"

definition create_pending_transaction_record :: "'db env \<Rightarrow> 'db \<Rightarrow> uuid \<Rightarrow> timestamp \<Rightarrow> 'db res" where
  "create_pending_transaction_record env d tid ts =
     put_transaction_record env d tid (TxnRecord PENDING (TxnMetadata tid ts))"

definition commit_transaction_record :: "'db env \<Rightarrow> 'db \<Rightarrow> uuid \<Rightarrow> timestamp \<Rightarrow> 'db res" where
  "commit_transaction_record env d tid ts =
     put_transaction_record env d tid (TxnRecord COMMITTED (TxnMetadata tid ts))"

definition update_transaction_record_to_abort :: "'db env \<Rightarrow> 'db \<Rightarrow> uuid \<Rightarrow> timestamp \<Rightarrow> 'db res" where
  "update_transaction_record_to_abort env d tid ts =
     put_transaction_record env d tid (TxnRecord ABORTED (TxnMetadata tid ts))"

definition mvcc_get_uncommited_value ::
  "'db env \<Rightarrow> 'db \<Rightarrow> key \<Rightarrow> (txn_metadata \<times> txn_record) option res" where
  "mvcc_get_uncommited_value env d k =
     rbind (mvcc_iterator_new env d True) (\<lambda>i.
       rbind (seek_ge i (create_intent_key k)) (\<lambda>(seek_res, i).
         if seek_res then
           rbind (current_key i) (\<lambda>curr_key.
             if is_intent_key curr_key \<and> mkey curr_key = k then
               rbind (current_value_serialized (de_uncommitted env) i) (\<lambda>cv.
                 rbind (get_transaction_record env d (meta_txn_id (uvalue_meta cv))) (\<lambda>r.
                   rbind (unwrap r) (\<lambda>transaction_record.
                     Inr (Some (uvalue_meta cv, transaction_record)))))
             else Inr None)
         else Inr None))"

definition mvcc_put_check ::
  "'db env \<Rightarrow> 'db \<Rightarrow> key \<Rightarrow> txn option \<Rightarrow> (write_intent_error + unit) res" where
  "mvcc_put_check env d k tx =
     rbind (mvcc_get_uncommited_value env d k) (\<lambda>intent.
       case intent of
         Some (metadata, transaction_record) \<Rightarrow>
           (case tx of
              Some put_txn \<Rightarrow>
                if meta_txn_id metadata = txn_id put_txn then Inr (Inr ())
                else (case rec_status transaction_record of
                        PENDING \<Rightarrow> Inr (Inl (WriteIntentError (TxnIntent metadata k)))
                      | COMMITTED \<Rightarrow> Inl NotImplemented
                      | ABORTED \<Rightarrow> Inl NotImplemented)
            | None \<Rightarrow> Inr (Inr ()))
       | None \<Rightarrow> Inr (Inr ()))"

definition mvcc_put_raw ::
  "'db env \<Rightarrow> 'db \<Rightarrow> key \<Rightarrow> timestamp option \<Rightarrow> txn option \<Rightarrow> val \<Rightarrow>
   (write_intent_error + mvcc_key \<times> 'db) res" where
  "mvcc_put_raw env d k ts tx value =
     rbind (mvcc_put_check env d k tx) (\<lambda>checked.
       case checked of
         Inl err \<Rightarrow> Inr (Inl err)
       | Inr _ \<Rightarrow>
           rbind (case tx of Some t \<Rightarrow> Inr (write_timestamp t) | None \<Rightarrow> unwrap ts) (\<lambda>write_ts.
             let version_key = MVCCKey k write_ts in
             case tx of
               Some t \<Rightarrow>
                 rbind (put_serialized_with_mvcc_key env d (ser_uncommitted env) (create_intent_key k)
                          (UncommittedValue value (TxnMetadata (txn_id t) write_ts))) (\<lambda>r.
                   rbind (unwrap_result r) (\<lambda>d'. Inr (Inr (version_key, d'))))
             | None \<Rightarrow>
                 rbind (put_raw_with_mvcc_key env d version_key value) (\<lambda>r.
                   rbind (unwrap_result r) (\<lambda>d'. Inr (Inr (version_key, d'))))))"

text \<open>\<open>to_string\<close> is the serializer of the value's type.\<close>

definition mvcc_put ::
  "'db env \<Rightarrow> ('v \<Rightarrow> string + bytes) \<Rightarrow> 'db \<Rightarrow> key \<Rightarrow> timestamp option \<Rightarrow> txn option \<Rightarrow> 'v \<Rightarrow>
   (write_intent_error + mvcc_key \<times> 'db) res" where
  "mvcc_put env to_string d k ts tx value =
     rbind (unwrap_result (to_string value)) (mvcc_put_raw env d k ts tx)"

definition get_uncommitted_value :: "'db env \<Rightarrow> 'db \<Rightarrow> mvcc_key \<Rightarrow> uncommitted_value option res" where
  "get_uncommitted_value env d k =
     rbind (get_serialized_with_mvcc_key env d (de_uncommitted env) k) unwrap_result"

definition mvcc_resolve_intent ::
  "'db env \<Rightarrow> 'db \<Rightarrow> key \<Rightarrow> timestamp \<Rightarrow> uuid \<Rightarrow> 'db res" where
  "mvcc_resolve_intent env d k commit_timestamp tid =
     (let intent_key = create_intent_key k in
      rbind (get_uncommitted_value env d intent_key) (\<lambda>uncommitted.
        case uncommitted of
          Some u \<Rightarrow>
            if meta_txn_id (uvalue_meta u) \<noteq> tid then Inr d
            else rbind (delete_mvcc env d intent_key) (\<lambda>d'.
                   rbind (put_raw_with_mvcc_key env d' (MVCCKey k commit_timestamp) (uvalue u))
                     unwrap_result)
        | None \<Rightarrow> Inr d))"

function collect_loop :: "mvcc_iterator \<Rightarrow> mvcc_key list \<Rightarrow> mvcc_key list res" where
  "collect_loop i acc =
     (if it_valid i then
        rbind (current_raw_key i) (\<lambda>raw.
          collect_loop (snd (it_next i))
            (case decode_mvcc_key raw of Some k \<Rightarrow> acc @ [k] | None \<Rightarrow> acc))
      else Inr acc)"
  by pat_completeness auto
termination
  by (relation "measure (\<lambda>(i, acc). items_left i)") (auto simp: it_valid_def it_next_items)

declare collect_loop.simps [simp del]

definition collect_all_mvcc_kvs :: "'db env \<Rightarrow> 'db \<Rightarrow> mvcc_key list res" where
  "collect_all_mvcc_kvs env d = rbind (mvcc_iterator_new env d False) (\<lambda>i. collect_loop i [])"

subsection \<open>Point reads\<close>

lemma mvcc_get_scan_loop:
  assumes "mvcc_iterator_new env d True = Inr (at_entries True es)"
    and "dropWhile (\<lambda>e. mkey (fst e) \<noteq> k) es = f # fs"
    and "scan_loop env (mvcc_scanner_new (at_entries True (f # fs)) k (Some k) t 1 tx) = Inr s"
  shows "mvcc_get env d k t tx =
    Inr (MVCCGetResult (first_of (results s)) (first_of (found_intents s)))"
proof -
  have "es \<noteq> []" using assms(2) by auto
  then have "seek_ge (at_entries True es) (create_intent_key k) = Inr (True, at_entries True (f # fs))"
    by (simp add: seek_ge_entries seek_start assms(2))
  then show ?thesis
    by (simp add: mvcc_get_def mvcc_scan_def assms(1) scan_def assms(3) del: One_nat_def)
qed

lemma mvcc_get_last:
  assumes "mvcc_iterator_new env d True = Inr (at_entries True es)" "es \<noteq> []"
    and "\<And>e. e \<in> set es \<Longrightarrow> mkey (fst e) \<noteq> k"
    and "scan_loop env (mvcc_scanner_new (at_entries True [last es]) k (Some k) t 1 tx) = Inr s"
  shows "mvcc_get env d k t tx =
    Inr (MVCCGetResult (first_of (results s)) (first_of (found_intents s)))"
proof -
  have "dropWhile (\<lambda>e. mkey (fst e) \<noteq> k) es = []"
    using assms(3) by simp
  then have "seek_ge (at_entries True es) (create_intent_key k) = Inr (False, at_entries True [last es])"
    by (simp add: seek_ge_entries seek_start assms(2) del: dropWhile_eq_Nil_conv)
  then show ?thesis
    by (simp add: mvcc_get_def mvcc_scan_def assms(1) scan_def assms(4) del: One_nat_def)
qed

lemma first_of_simps [simp]: "first_of [] = None" "first_of (x # xs) = Some x"
  by (simp_all add: first_of_def)

text \<open>
  The specification of a read: the newest version of the key at or below the timestamp.
\<close>

definition newest_version ::
  "(mvcc_key \<rightharpoonup> bytes) \<Rightarrow> key \<Rightarrow> timestamp \<Rightarrow> (mvcc_key \<times> bytes) option \<Rightarrow> bool" where
  "newest_version vm k t r \<longleftrightarrow>
     (case r of
        None \<Rightarrow> \<forall>u\<le>t. vm (MVCCKey k u) = None
      | Some (m, v) \<Rightarrow> mkey m = k \<and> mtimestamp m \<le> t \<and> vm m = Some v \<and>
          (\<forall>u\<le>t. vm (MVCCKey k u) \<noteq> None \<longrightarrow> u \<le> mtimestamp m))"

lemma newest_version_unique:
  assumes "newest_version vm k t r" "newest_version vm k t r'"
  shows "r = r'"
proof -
  have bound: "mtimestamp m' \<le> mtimestamp m"
    if "newest_version vm k t (Some (m, v))" "newest_version vm k t (Some (m', v'))" for m v m' v'
    using that by (cases m'; cases m) (force simp: newest_version_def)
  have none: "newest_version vm k t (Some (m, v)) \<Longrightarrow> \<not> newest_version vm k t None" for m v
    by (cases m) (auto simp: newest_version_def)
  show ?thesis
  proof (cases r; cases r')
    fix p q
    assume rr: "r = Some p" "r' = Some q"
    then have "mtimestamp (fst p) = mtimestamp (fst q)" "mkey (fst p) = mkey (fst q)"
      using assms bound[of "fst p" "snd p" "fst q" "snd q"] bound[of "fst q" "snd q" "fst p" "snd p"]
      by (auto simp: newest_version_def case_prod_unfold)
    then have "fst p = fst q" by (simp add: mvcc_key.expand)
    then show ?thesis
      using assms rr by (auto simp: newest_version_def case_prod_unfold prod_eq_iff)
  qed (use assms none in \<open>auto simp: split_paired_all\<close>)
qed

lemma newest_version_entries:
  assumes "entries_sorted es"
  shows "newest_version (map_of es) k t
    (first_of (dropWhile (\<lambda>e. \<not> (mkey (fst e) = k \<and> mtimestamp (fst e) \<le> t)) es))"
  using assms
proof (induction es)
  case Nil
  then show ?case by (simp add: newest_version_def)
next
  case (Cons e es)
  have later: "key_before (fst e) m" if "map_of es m = Some v" for m v
    using Cons.prems map_of_SomeD[OF that] by (auto simp: entries_sorted_Cons)
  show ?case
  proof (cases "mkey (fst e) = k \<and> mtimestamp (fst e) \<le> t")
    case True
    have "u \<le> mtimestamp (fst e)" if "map_of (e # es) (MVCCKey k u) \<noteq> None" for u
      using that later[of "MVCCKey k u"] True
      by (cases "fst e"; cases "map_of es (MVCCKey k u)") (auto simp: key_before_def split: if_splits)
    then show ?thesis
      using True by (auto simp: newest_version_def case_prod_unfold)
  next
    case False
    then have "fst e \<noteq> MVCCKey k u" if "u \<le> t" for u
      using that by auto
    then have vm: "newest_version (map_of (e # es)) k t r = newest_version (map_of es) k t r" for r
      by (fastforce simp: newest_version_def split: option.splits)
    have dw: "dropWhile (\<lambda>e. \<not> (mkey (fst e) = k \<and> mtimestamp (fst e) \<le> t)) (e # es) =
      dropWhile (\<lambda>e. \<not> (mkey (fst e) = k \<and> mtimestamp (fst e) \<le> t)) es"
      using False by auto
    show ?thesis
      unfolding vm dw using Cons by (simp add: entries_sorted_Cons)
  qed
qed

lemma dropWhile_keys:
  assumes "map_of es (MVCCKey k u) \<noteq> None"
  obtains f fs where "dropWhile (\<lambda>e. mkey (fst e) \<noteq> k) es = f # fs" "mkey (fst f) = k" "f \<in> set es"
proof (cases "dropWhile (\<lambda>e. mkey (fst e) \<noteq> k) es")
  case Nil
  then have "mkey (fst e) \<noteq> k" if "e \<in> set es" for e
    using that by auto
  with assms show ?thesis by (fastforce dest: map_of_SomeD)
next
  case (Cons f fs)
  then have "mkey (fst f) = k"
    using hd_dropWhile[of "\<lambda>e. mkey (fst e) \<noteq> k" es] by auto
  moreover have "f \<in> set es"
    using Cons by (metis list.set_intros(1) set_dropWhileD)
  ultimately show ?thesis using that Cons by blast
qed

lemma dropWhile_narrow:
  assumes "dropWhile (\<lambda>e. mkey (fst e) \<noteq> k) es = fs"
  shows "dropWhile (\<lambda>e. \<not> (mkey (fst e) = k \<and> Q e)) es = dropWhile (\<lambda>e. \<not> (mkey (fst e) = k \<and> Q e)) fs"
  using assms by (induction es) auto

lemma entries_sorted_dropWhile: "entries_sorted es \<Longrightarrow> entries_sorted (dropWhile P es)"
  by (induction es) (auto simp: entries_sorted_Cons)

lemma mvcc_get_no_intent:
  assumes "platform_ok env live contents" "db_is env live contents d vm rm"
    and "vm (create_intent_key k) = None" "vm (MVCCKey k u) \<noteq> None"
  shows "\<exists>r. mvcc_get env d k t tx = Inr (MVCCGetResult r None) \<and> newest_version vm k t r"
proof -
  obtain es where es: "entries_sorted es" "vm = map_of es"
    "mvcc_iterator_new env d True = Inr (at_entries True es)"
    using version_map_entries[OF assms(1,2)] by metis
  obtain f fs where f: "dropWhile (\<lambda>e. mkey (fst e) \<noteq> k) es = f # fs" "mkey (fst f) = k" "f \<in> set es"
    using dropWhile_keys assms(4) es(2) by metis
  have ni: "\<not> is_intent_key (fst f)"
    using assms(3) f(2,3) es(1,2) by (auto simp: is_intent_key_iff map_of_eq_None_iff)
  have newest: "newest_version vm k t
    (first_of (dropWhile (\<lambda>e. \<not> (mkey (fst e) = k \<and> mtimestamp (fst e) \<le> t)) (f # fs)))"
    using newest_version_entries[OF es(1), of k t] dropWhile_narrow[OF f(1)] es(2) by simp
  show ?thesis
  proof (cases "mtimestamp (fst f) \<le> t")
    case True
    with scan_point_version[OF ni, of k t env True fs tx] f(2)
    obtain s where "scan_loop env (mvcc_scanner_new (at_entries True (f # fs)) k (Some k) t 1 tx) = Inr s"
      "results s = [f]" "found_intents s = []" by auto
    with mvcc_get_scan_loop[OF es(3) f(1)] newest True f(2) show ?thesis by simp
  next
    case False
    with scan_point_older[OF ni, of k t env True fs tx] f(2)
    obtain s where s: "scan_loop env (mvcc_scanner_new (at_entries True (f # fs)) k (Some k) t 1 tx) = Inr s"
      "found_intents s = []"
      "results s = (case dropWhile (\<lambda>g. \<not> seek_match (MVCCKey k t) (fst g)) (f # fs) of
                      [] \<Rightarrow> [] | g # gs \<Rightarrow> [g])"
      by (auto simp: not_le)
    have "first_of (results s) = first_of (dropWhile (\<lambda>e. \<not> (mkey (fst e) = k \<and> mtimestamp (fst e) \<le> t)) (f # fs))"
      unfolding s(3) seek_match_def
      by (cases "dropWhile (\<lambda>e. \<not> (mkey (fst e) = k \<and> mtimestamp (fst e) \<le> t)) (f # fs)")
        (simp_all del: dropWhile_eq_Nil_conv dropWhile.simps)
    with mvcc_get_scan_loop[OF es(3) f(1) s(1)] s(2) newest show ?thesis by simp
  qed
qed

lemma intent_first:
  assumes "entries_sorted es" "map_of es (create_intent_key k) = Some b"
  obtains fs where "dropWhile (\<lambda>e. mkey (fst e) \<noteq> k) es = (create_intent_key k, b) # fs"
proof -
  have "map_of es (MVCCKey k get_intent_timestamp) \<noteq> None"
    using assms(2) by (simp add: create_intent_key_def)
  then obtain f fs where f: "dropWhile (\<lambda>e. mkey (fst e) \<noteq> k) es = f # fs" "mkey (fst f) = k" "f \<in> set es"
    by (rule dropWhile_keys)
  have "(create_intent_key k, b) \<in> set es"
    using assms(2) by (rule map_of_SomeD)
  then have "(create_intent_key k, b) \<in> set (f # fs)"
    using f(1) by (induction es) (auto split: if_splits)
  moreover have "entries_sorted (f # fs)"
    using entries_sorted_dropWhile[OF assms(1)] f(1) by metis
  ultimately have "f = (create_intent_key k, b)"
    using f(2) by (auto simp: entries_sorted_Cons key_before_def)
  with f(1) that show ?thesis by blast
qed

lemma mvcc_get_with_intent:
  assumes "platform_ok env live contents" "db_is env live contents d vm rm"
    and "vm (create_intent_key k) = Some b" "de_uncommitted env b = Inr u"
  shows "mvcc_get env d k t tx =
    Inr (MVCCGetResult None (Some (TxnIntent (uvalue_meta u) k, uvalue u)))"
proof -
  obtain es where es: "entries_sorted es" "vm = map_of es"
    "mvcc_iterator_new env d True = Inr (at_entries True es)"
    using version_map_entries[OF assms(1,2)] by metis
  obtain fs where fs: "dropWhile (\<lambda>e. mkey (fst e) \<noteq> k) es = (create_intent_key k, b) # fs"
    using intent_first[OF es(1)] assms(3) es(2) by blast
  have "entries_sorted ((create_intent_key k, b) # fs)"
    using entries_sorted_dropWhile[OF es(1)] fs by metis
  then obtain s where
    "scan_loop env (mvcc_scanner_new (at_entries True ((create_intent_key k, b) # fs)) k (Some k) t 1 tx) = Inr s"
    "results s = []" "found_intents s = [(TxnIntent (uvalue_meta u) k, uvalue u)]"
    using scan_point_intent[of "(create_intent_key k, b)" fs k env u True t tx] assms(4) by auto
  with mvcc_get_scan_loop[OF es(3) fs] show ?thesis by simp
qed

lemma last_greatest:
  assumes "entries_sorted es" "e \<in> set es"
  shows "e = last es \<or> key_before (fst e) (fst (last es))"
  using assms by (induction es) (auto simp: entries_sorted_Cons split: if_splits)

lemma mvcc_get_absent:
  assumes "platform_ok env live contents" "db_is env live contents d vm rm"
    and "\<And>u. vm (MVCCKey k u) = None" and "vm = Map.empty \<or> (\<exists>m. vm m \<noteq> None \<and> k < mkey m)"
  shows "mvcc_get env d k t tx = Inr (MVCCGetResult None None)"
proof -
  obtain es where es: "entries_sorted es" "vm = map_of es"
    "mvcc_iterator_new env d True = Inr (at_entries True es)"
    using version_map_entries[OF assms(1,2)] by metis
  have absent: "mkey (fst e) \<noteq> k" if "e \<in> set es" for e
  proof
    assume "mkey (fst e) = k"
    then have "fst e = MVCCKey k (mtimestamp (fst e))" by (cases "fst e") simp
    then have "map_of es (fst e) = None" using assms(3) es(2) by metis
    with that show False by (metis map_of_eq_None_iff imageI)
  qed
  show ?thesis
  proof (cases "es = []")
    case True
    then show ?thesis
      by (simp add: mvcc_get_def mvcc_scan_def es(3) scan_def scan_loop_stop(1))
  next
    case False
    then have "vm \<noteq> Map.empty" using es(2) by auto
    with assms(4) obtain m where m: "vm m \<noteq> None" "k < mkey m" by auto
    then obtain e where "e \<in> set es" "fst e = m"
      using es(2) by (auto dest: map_of_SomeD)
    then have "k < mkey (fst (last es))"
      using last_greatest[OF es(1), of e] m(2) by (auto simp: key_before_def)
    then have "scan_loop env (mvcc_scanner_new (at_entries True [last es]) k (Some k) t 1 tx) =
      Inr (mvcc_scanner_new (at_entries True [last es]) k (Some k) t 1 tx)"
      by (intro scan_loop_stop(3)) auto
    from mvcc_get_last[OF es(3) False absent this] show ?thesis by simp
  qed
qed

text \<open>
  Reading a key that is absent and greater than every stored key: the failed seek leaves the
  iterator on the last entry, and the scan returns that entry of another key.
\<close>

lemma mvcc_get_absent_beyond:
  assumes "platform_ok env live contents" "db_is env live contents d vm rm"
    and "vm m = Some v" "\<not> is_intent_key m" "mtimestamp m \<le> t" "mkey m < k"
    and "\<And>m'. vm m' \<noteq> None \<Longrightarrow> m' = m \<or> key_before m' m"
  shows "mvcc_get env d k t tx = Inr (MVCCGetResult (Some (m, v)) None)"
proof -
  obtain es where es: "entries_sorted es" "vm = map_of es"
    "mvcc_iterator_new env d True = Inr (at_entries True es)"
    using version_map_entries[OF assms(1,2)] by metis
  have mem: "(m, v) \<in> set es" using assms(3) es(2) by (simp add: map_of_SomeD)
  then have ne: "es \<noteq> []" by auto
  have vm_mem: "vm (fst e) \<noteq> None" if "e \<in> set es" for e
    using that es(2) by (auto simp: map_of_eq_None_iff)
  have "fst (last es) = m"
    using last_greatest[OF es(1) mem] assms(7)[OF vm_mem[OF last_in_set[OF ne]]]
      key_before_trans[of m "fst (last es)" m] by (metis fst_conv key_before_irrefl)
  then have last: "last es = (m, v)"
    using mem last_in_set[OF ne] entries_sorted_distinct[OF es(1)]
    by (metis eq_key_imp_eq_value prod.collapse)
  have absent: "mkey (fst e) \<noteq> k" if "e \<in> set es" for e
    using assms(6) assms(7)[OF vm_mem[OF that]] by (auto simp: key_before_def)
  obtain s where "scan_loop env (mvcc_scanner_new (at_entries True [last es]) k (Some k) t 1 tx) = Inr s"
    "results s = [(m, v)]" "found_intents s = []"
    using scan_point_version[of "(m, v)" k t env True "[]" tx] assms(4,5) less_imp_le[OF assms(6)] last by auto
  with mvcc_get_last[OF es(3) ne absent] show ?thesis by simp
qed

text \<open>A key that is not beyond every stored key reads as its newest version, or as nothing.\<close>

definition within :: "(mvcc_key \<rightharpoonup> bytes) \<Rightarrow> key \<Rightarrow> bool" where
  "within vm k \<longleftrightarrow> vm = Map.empty \<or> (\<exists>m. vm m \<noteq> None \<and> k \<le> mkey m)"

lemma mvcc_get_within:
  assumes "platform_ok env live contents" "db_is env live contents d vm rm"
    and "vm (create_intent_key k) = None" "within vm k"
  shows "\<exists>r. mvcc_get env d k t tx = Inr (MVCCGetResult r None) \<and> newest_version vm k t r"
proof (cases "\<exists>u. vm (MVCCKey k u) \<noteq> None")
  case True
  then show ?thesis using mvcc_get_no_intent[OF assms(1-3)] by blast
next
  case False
  then have absent: "vm (MVCCKey k u) = None" for u by blast
  have "k < mkey m" if "vm m \<noteq> None" "k \<le> mkey m" for m
    using that absent[of "mtimestamp m"] by (cases m) (auto simp: order_le_less)
  with assms(4) have "vm = Map.empty \<or> (\<exists>m. vm m \<noteq> None \<and> k < mkey m)" unfolding within_def by blast
  from mvcc_get_absent[OF assms(1,2) absent this] absent show ?thesis by (simp add: newest_version_def)
qed

text \<open>A read returns, whatever the key, when the intents decode.\<close>

lemma scan_last_returns:
  assumes "is_intent_key (fst e) \<Longrightarrow> \<exists>u. de_uncommitted env (snd e) = Inr u"
  shows "\<exists>s. scan_loop env (mvcc_scanner_new (at_entries True [e]) k (Some k) t 1 tx) = Inr s"
proof (cases "mkey (fst e) \<le> k")
  case le: True
  show ?thesis
  proof (cases "is_intent_key (fst e)")
    case True
    let ?s = "mvcc_scanner_new (at_entries True [e]) k (Some k) t 1 tx"
    obtain u where u: "de_uncommitted env (snd e) = Inr u" using assms True by blast
    then obtain s' where "get_current_key env ?s = Inr (False, s')" "sc_it s' = at_entries True [e]"
      using get_current_key_intent[of ?s True e "[]" env u] True by auto
    then have "scan_loop env ?s = scan_loop env (s'\<lparr>sc_it := at_entries True []\<rparr>)"
      using scan_loop_step[of ?s True e "[]" env False s' e "[]"] le by (simp add: not_less)
    then show ?thesis by (simp add: scan_loop_stop(1))
  next
    case False
    then show ?thesis
      using scan_point_version[OF False le, of t env True "[]" tx] scan_point_older[OF False le, of t env True "[]" tx]
      by (cases "mtimestamp (fst e) \<le> t") (auto simp: not_le)
  qed
next
  case False
  then show ?thesis by (subst scan_loop_stop(3)[where e = e and es = "[]"]) (auto simp: not_le)
qed

lemma mvcc_get_returns:
  assumes "platform_ok env live contents" "db_is env live contents d vm rm"
    and "\<And>k b. vm (create_intent_key k) = Some b \<Longrightarrow> \<exists>u. de_uncommitted env b = Inr u"
  shows "\<exists>r. mvcc_get env d k t tx = Inr r"
proof (cases "\<exists>u. vm (MVCCKey k u) \<noteq> None")
  case True
  show ?thesis
  proof (cases "vm (create_intent_key k)")
    case None
    with True show ?thesis using mvcc_get_no_intent[OF assms(1,2)] by blast
  next
    case (Some b)
    with assms(3) obtain u where "de_uncommitted env b = Inr u" by blast
    with Some show ?thesis using mvcc_get_with_intent[OF assms(1,2)] by blast
  qed
next
  case False
  obtain es where es: "entries_sorted es" "vm = map_of es" "mvcc_iterator_new env d True = Inr (at_entries True es)"
    using version_map_entries[OF assms(1,2)] by metis
  show ?thesis
  proof (cases "es = []")
    case True
    then show ?thesis using mvcc_get_absent[OF assms(1,2), of k t tx] es(2) by auto
  next
    case ne: False
    have absent: "mkey (fst e) \<noteq> k" if "e \<in> set es" for e
      using that False es(2) by (cases "fst e") (metis imageI map_of_eq_None_iff mvcc_key.sel(1))
    have "map_of es (fst (last es)) = Some (snd (last es))"
      using entries_sorted_distinct[OF es(1)] last_in_set[OF ne] by simp
    then obtain s where "scan_loop env (mvcc_scanner_new (at_entries True [last es]) k (Some k) t 1 tx) = Inr s"
      using scan_last_returns[of "last es" env k t tx] assms(3) es(2)
      by (metis create_intent_key_def is_intent_key_iff mvcc_key.collapse)
    from mvcc_get_last[OF es(3) ne absent this] show ?thesis by blast
  qed
qed

subsection \<open>Intents and transaction records\<close>

text \<open>The record of a transaction as the store would return it.\<close>

definition record_map :: "'db env \<Rightarrow> (uuid \<rightharpoonup> bytes) \<Rightarrow> uuid \<rightharpoonup> txn_record" where
  "record_map env rm u =
     (case rm u of None \<Rightarrow> None
      | Some b \<Rightarrow> (case de_txn_record env b of Inl _ \<Rightarrow> None | Inr r \<Rightarrow> Some r))"

text \<open>Only records the program wrote: every stored byte string decodes.\<close>

definition records_decode :: "'db env \<Rightarrow> (uuid \<rightharpoonup> bytes) \<Rightarrow> bool" where
  "records_decode env rm \<longleftrightarrow> (\<forall>u b. rm u = Some b \<longrightarrow> (\<exists>r. de_txn_record env b = Inr r))"

lemma get_transaction_record_map:
  assumes "platform_ok env live contents" "db_is env live contents d vm rm" "records_decode env rm"
  shows "get_transaction_record env d u = Inr (record_map env rm u)"
  using get_transaction_record_ok[OF assms(1,2), of u] assms(3)
  by (force simp: get_transaction_record_def record_map_def records_decode_def split: option.splits)

lemma put_transaction_record_map:
  assumes "platform_ok env live contents" "db_is env live contents d vm rm" "records_decode env rm"
  obtains d' rm' where "put_transaction_record env d u r = Inr d'"
    "db_is env live contents d' vm rm'" "records_decode env rm'"
    "record_map env rm' = (record_map env rm)(u \<mapsto> r)"
proof -
  obtain b where b: "ser_txn_record env r = Inr b" "de_txn_record env b = Inr r"
    using assms(1) unfolding platform_ok_def serde_ok_def by blast
  obtain d' where "storage_put_transaction_record env d u r = Inr (Inr d')"
    "db_is env live contents d' vm (rm(u \<mapsto> b))"
    using put_transaction_record_ok[OF assms(1,2) b(1)] by metis
  then show ?thesis
    using assms(3) b(2)
    by (intro that[of d' "rm(u \<mapsto> b)"])
      (auto simp: put_transaction_record_def records_decode_def record_map_def fun_eq_iff)
qed

lemma intent_to_string:
  assumes "valid_utf8 k"
  shows "mvcc_key_to_string (create_intent_key k) = Inr (encode_mvcc_key (create_intent_key k))"
proof -
  have "valid_utf8 (encode_timestamp get_intent_timestamp)"
    by (rule valid_utf8_ascii)
      (auto simp: encode_timestamp_def get_intent_timestamp_def to_le_bytes_def)
  then show ?thesis using assms by (simp add: to_string_iff)
qed

lemma uncommited_value_none:
  assumes "platform_ok env live contents" "db_is env live contents d vm rm"
    and "vm (create_intent_key k) = None"
  shows "mvcc_get_uncommited_value env d k = Inr None"
proof -
  obtain es where es: "entries_sorted es" "vm = map_of es"
    "mvcc_iterator_new env d True = Inr (at_entries True es)"
    using version_map_entries[OF assms(1,2)] by metis
  show ?thesis
  proof (cases "dropWhile (\<lambda>e. mkey (fst e) \<noteq> k) es")
    case Nil
    then show ?thesis
      by (cases "es = []")
        (simp_all add: mvcc_get_uncommited_value_def es(3) seek_ge_entries seek_start
          del: dropWhile_eq_Nil_conv)
  next
    case (Cons f fs)
    then have "es \<noteq> []" and "f \<in> set es"
      by (auto, metis list.set_intros(1) set_dropWhileD)
    then have "\<not> (is_intent_key (fst f) \<and> mkey (fst f) = k)"
      using assms(3) es(2) by (auto simp: is_intent_key_iff map_of_eq_None_iff)
    with Cons \<open>es \<noteq> []\<close> show ?thesis
      by (auto simp: mvcc_get_uncommited_value_def es(3) seek_ge_entries seek_start)
  qed
qed

lemma uncommited_value_some:
  assumes "platform_ok env live contents" "db_is env live contents d vm rm" "records_decode env rm"
    and "vm (create_intent_key k) = Some b" "de_uncommitted env b = Inr u"
  shows "mvcc_get_uncommited_value env d k =
    rbind (unwrap (record_map env rm (meta_txn_id (uvalue_meta u)))) (\<lambda>r. Inr (Some (uvalue_meta u, r)))"
proof -
  obtain es where es: "entries_sorted es" "vm = map_of es"
    "mvcc_iterator_new env d True = Inr (at_entries True es)"
    using version_map_entries[OF assms(1,2)] by metis
  obtain fs where fs: "dropWhile (\<lambda>e. mkey (fst e) \<noteq> k) es = (create_intent_key k, b) # fs"
    using intent_first[OF es(1)] assms(4) es(2) by blast
  then have "es \<noteq> []" by auto
  then show ?thesis
    by (simp add: mvcc_get_uncommited_value_def es(3) seek_ge_entries seek_start fs assms(5)
        get_transaction_record_map[OF assms(1-3)])
qed

subsection \<open>Writes\<close>

lemma put_txn_writes_intent:
  assumes "platform_ok env live contents" "db_is env live contents d vm rm"
    and "valid_utf8 k" and "mvcc_put_check env d k (Some t) = Inr (Inr ())"
  obtains d' b where
    "mvcc_put_raw env d k ts (Some t) v = Inr (Inr (MVCCKey k (write_timestamp t), d'))"
    "db_is env live contents d' (vm(create_intent_key k \<mapsto> b)) rm"
    "de_uncommitted env b = Inr (UncommittedValue v (to_txn_metadata t))"
proof -
  let ?u = "UncommittedValue v (TxnMetadata (txn_id t) (write_timestamp t))"
  obtain b where b: "ser_uncommitted env ?u = Inr b" "de_uncommitted env b = Inr ?u"
    using assms(1) unfolding platform_ok_def serde_ok_def by blast
  obtain d' where d': "put_serialized_with_mvcc_key env d (ser_uncommitted env) (create_intent_key k) ?u
      = Inr (Inr d')" "db_is env live contents d' (vm(create_intent_key k \<mapsto> b)) rm"
    using put_serialized_with_mvcc_key_ok[OF assms(1,2) intent_to_string[OF assms(3)]] b(1) by metis
  then have "mvcc_put_raw env d k ts (Some t) v = Inr (Inr (MVCCKey k (write_timestamp t), d'))"
    by (simp add: mvcc_put_raw_def assms(4) Let_def)
  with d'(2) b(2) that show ?thesis by (simp add: to_txn_metadata_def)
qed

lemma put_check_none:
  assumes "platform_ok env live contents" "db_is env live contents d vm rm"
    and "vm (create_intent_key k) = None"
  shows "mvcc_put_check env d k tx = Inr (Inr ())"
  using uncommited_value_none[OF assms] by (simp add: mvcc_put_check_def)

lemma put_check_some:
  assumes "platform_ok env live contents" "db_is env live contents d vm rm" "records_decode env rm"
    and "vm (create_intent_key k) = Some b" "de_uncommitted env b = Inr u"
    and "record_map env rm (meta_txn_id (uvalue_meta u)) = Some r"
  shows "mvcc_put_check env d k (Some t) =
    (if meta_txn_id (uvalue_meta u) = txn_id t then Inr (Inr ())
     else case rec_status r of
            PENDING \<Rightarrow> Inr (Inl (WriteIntentError (TxnIntent (uvalue_meta u) k)))
          | _ \<Rightarrow> Inl NotImplemented)"
  using uncommited_value_some[OF assms(1-5)] assms(6)
  by (simp add: mvcc_put_check_def split: transaction_status.split)

lemma get_uncommitted_value_ok:
  assumes "platform_ok env live contents" "db_is env live contents d vm rm" "valid_utf8 k"
  shows "get_uncommitted_value env d (create_intent_key k) =
    (case vm (create_intent_key k) of None \<Rightarrow> Inr None
     | Some b \<Rightarrow> rbind (unwrap_result (de_uncommitted env b)) (\<lambda>u. Inr (Some u)))"
  using column_family_ok[OF assms(1,2)] get_cf_mvcc[OF assms(1,2), of "create_intent_key k"]
    intent_to_string[OF assms(3)]
  by (cases "vm (create_intent_key k)"; cases "de_uncommitted env (the (vm (create_intent_key k)))")
    (auto simp: get_uncommitted_value_def get_serialized_with_mvcc_key_def get_serialized_def)

lemma resolve_intent_own:
  assumes "platform_ok env live contents" "db_is env live contents d vm rm"
    and "valid_utf8 k" "valid_utf8 (encode_timestamp c)"
    and "vm (create_intent_key k) = Some b" "de_uncommitted env b = Inr u"
  obtains d' where "mvcc_resolve_intent env d k c (meta_txn_id (uvalue_meta u)) = Inr d'"
    "db_is env live contents d' (vm(create_intent_key k := None, MVCCKey k c \<mapsto> uvalue u)) rm"
proof -
  have str: "mvcc_key_to_string (MVCCKey k c) = Inr (encode_mvcc_key (MVCCKey k c))"
    using assms(3,4) by (simp add: to_string_iff)
  obtain d1 where d1: "delete_mvcc env d (create_intent_key k) = Inr d1"
    "db_is env live contents d1 (vm(create_intent_key k := None)) rm"
    using delete_mvcc_ok[OF assms(1,2) intent_to_string[OF assms(3)]] by metis
  obtain d2 where "put_raw_with_mvcc_key env d1 (MVCCKey k c) (uvalue u) = Inr (Inr d2)"
    "db_is env live contents d2 (vm(create_intent_key k := None, MVCCKey k c \<mapsto> uvalue u)) rm"
    using put_raw_with_mvcc_key_ok[OF assms(1) d1(2) str] by metis
  then show ?thesis
    using that d1 get_uncommitted_value_ok[OF assms(1-3)] assms(5,6)
    by (simp add: mvcc_resolve_intent_def Let_def)
qed

lemma resolve_intent_other:
  assumes "platform_ok env live contents" "db_is env live contents d vm rm" "valid_utf8 k"
    and "\<And>b u. vm (create_intent_key k) = Some b \<Longrightarrow>
           \<exists>u. de_uncommitted env b = Inr u \<and> meta_txn_id (uvalue_meta u) \<noteq> tid"
  shows "mvcc_resolve_intent env d k c tid = Inr d"
  using get_uncommitted_value_ok[OF assms(1-3)] assms(4)
  by (cases "vm (create_intent_key k)") (auto simp: mvcc_resolve_intent_def Let_def)

lemma collect_loop_entries:
  "collect_loop (at_entries pre es) acc = Inr (acc @ map fst es)"
proof (induction es arbitrary: acc)
  case Nil
  then show ?case by (simp add: collect_loop.simps)
next
  case (Cons e es)
  then show ?case
    by (simp add: collect_loop.simps[of "at_entries pre (e # es)"] current_raw_key_def decode_encode)
qed

end
