(* ===== verification/Reference_Platform.thy ===== *)
theory Reference_Platform
  imports Mvcc
begin

text \<open>
  One concrete platform that satisfies \<open>platform_ok\<close>: column families as association lists
  kept in comparator order, a plain byte serialization, identifiers printed digit by digit. It
  shows that the hypotheses on the platform are satisfiable, and the witnesses of the
  properties are evaluated on it.
\<close>

type_synonym ref_db = "string \<Rightarrow> kv_bytes list"

definition ref_ser_meta :: "txn_metadata \<Rightarrow> bytes" where
  "ref_ser_meta m = to_le_bytes 16 (meta_txn_id m) @ encode_timestamp (meta_write_timestamp m)"

definition ref_de_meta :: "bytes \<Rightarrow> txn_metadata" where
  "ref_de_meta bs = TxnMetadata (from_le_bytes (take 16 bs)) (decode_timestamp (take 12 (drop 16 bs)))"

definition ref_ser_uncommitted :: "uncommitted_value \<Rightarrow> string + bytes" where
  "ref_ser_uncommitted u = Inr (ref_ser_meta (uvalue_meta u) @ uvalue u)"

definition ref_de_uncommitted :: "bytes \<Rightarrow> string + uncommitted_value" where
  "ref_de_uncommitted bs =
     (if length bs < 28 then Inl ''EOF while parsing''
      else Inr (UncommittedValue (drop 28 bs) (ref_de_meta bs)))"

definition ref_ser_status :: "transaction_status \<Rightarrow> u8" where
  "ref_ser_status st = (case st of PENDING \<Rightarrow> 0 | COMMITTED \<Rightarrow> 1 | ABORTED \<Rightarrow> 2)"

definition ref_ser_record :: "txn_record \<Rightarrow> string + bytes" where
  "ref_ser_record r = Inr (ref_ser_status (rec_status r) # ref_ser_meta (rec_metadata r))"

definition ref_de_record :: "bytes \<Rightarrow> string + txn_record" where
  "ref_de_record bs =
     (case bs of
        [] \<Rightarrow> Inl ''EOF while parsing''
      | b # rest \<Rightarrow>
          Inr (TxnRecord (if b = 0 then PENDING else if b = 1 then COMMITTED else ABORTED)
                 (ref_de_meta rest)))"

definition ref_uuid_string :: "uuid \<Rightarrow> bytes" where
  "ref_uuid_string u = map (\<lambda>i. if bit u i then 0x31 else 0x30) [0..<128]"

definition ref_env :: "ref_db env" where
  "ref_env =
     \<lparr>put_cf = (\<lambda>d cf k v. Inr (d(cf := assoc_put storage_compare k v (d cf)))),
      delete_cf = (\<lambda>d cf k. Inr (d(cf := assoc_del k (d cf)))),
      get_cf = (\<lambda>d cf k. Inr (map_of (d cf) k)),
      iterator_cf = (\<lambda>d cf. map Inr (d cf)),
      cf_handle = (\<lambda>d cf. cf \<in> {MVCC_COLUMN_FAMILY, TRANSACTION_RECORD_COLUMN_FAMILY}),
      uuid_to_string = ref_uuid_string,
      ser_uncommitted = ref_ser_uncommitted,
      de_uncommitted = ref_de_uncommitted,
      ser_txn_record = ref_ser_record,
      de_txn_record = ref_de_record\<rparr>"

definition ref_live :: "ref_db \<Rightarrow> bool" where
  "ref_live d \<longleftrightarrow>
     (\<forall>cf. fst ` set (d cf) \<subseteq> cf_keys (cf = MVCC_COLUMN_FAMILY) \<and> ordered_by storage_compare (d cf))"

definition ref_contents :: "ref_db \<Rightarrow> string \<Rightarrow> kv_bytes list" where
  "ref_contents d = d"

definition ref_empty :: ref_db where
  "ref_empty = (\<lambda>_. [])"

lemma ref_de_ser_meta: "ref_de_meta (ref_ser_meta m @ bs) = m"
  by (simp add: ref_de_meta_def ref_ser_meta_def from_to_le_bytes decode_encode_timestamp)

lemma length_ref_ser_meta: "length (ref_ser_meta m) = 28"
  by (simp add: ref_ser_meta_def)

lemma ref_serde_ok: "serde_ok ref_env"
  using ref_de_ser_meta[of _ "[]"]
  by (auto simp: serde_ok_def ref_env_def ref_ser_uncommitted_def ref_de_uncommitted_def
      ref_ser_record_def ref_de_record_def ref_ser_status_def length_ref_ser_meta ref_de_ser_meta
      split: transaction_status.split intro: txn_record.expand)

lemma ref_uuid_ok: "uuid_ok ref_env"
proof -
  have "inj ref_uuid_string"
  proof (rule injI)
    fix u v
    assume eq: "ref_uuid_string u = ref_uuid_string v"
    show "u = v"
    proof (rule bit_word_eqI)
      fix i
      assume "i < LENGTH(128)"
      then show "bit u i = bit v i"
        using arg_cong[OF eq, of "\<lambda>xs. xs ! i"] by (simp add: ref_uuid_string_def split: if_splits)
    qed
  qed
  moreover have "0x30 \<in> uuid_chars" "0x31 \<in> uuid_chars"
    by (simp_all add: uuid_chars_def upt_rec)
  then have "set (ref_uuid_string u) \<subseteq> uuid_chars" for u
    unfolding ref_uuid_string_def by fastforce
  ultimately show ?thesis by (simp add: uuid_ok_def ref_env_def)
qed

lemma ref_ord: "rust_ord storage_compare (cf_keys b)"
  using mvcc_cf.rust_ord_axioms txn_cf.rust_ord_axioms by (cases b) auto

lemma ref_live_put:
  assumes "ref_live d" "k \<in> cf_keys (cf = MVCC_COLUMN_FAMILY)"
  shows "ref_live (d(cf := assoc_put storage_compare k v (d cf)))"
proof -
  let ?K = "cf_keys (cf = MVCC_COLUMN_FAMILY)"
  have d: "insert k (fst ` set (d cf)) \<subseteq> ?K" "ordered_by storage_compare (d cf)"
    using assms by (auto simp: ref_live_def)
  have "fst ` set (assoc_put storage_compare k v (d cf)) \<subseteq> ?K"
    using rust_ord.fst_assoc_put[OF ref_ord d(1)] d(1) by simp
  moreover have "ordered_by storage_compare (assoc_put storage_compare k v (d cf))"
    by (rule rust_ord.ordered_assoc_put[OF ref_ord d])
  ultimately show ?thesis
    using assms(1) by (simp add: ref_live_def)
qed

lemma ref_live_del: "ref_live d \<Longrightarrow> ref_live (d(cf := assoc_del k (d cf)))"
  using fst_assoc_del[of k "d cf"] by (auto simp: ref_live_def ordered_assoc_del)

lemma ref_cf_ok:
  assumes "ref_live d" "cf \<in> {MVCC_COLUMN_FAMILY, TRANSACTION_RECORD_COLUMN_FAMILY}"
  shows "cf_ok ref_env ref_live ref_contents d cf"
proof -
  have keys: "fst ` set (d cf) \<subseteq> cf_keys (cf = MVCC_COLUMN_FAMILY)" "ordered_by storage_compare (d cf)"
    using assms(1) by (auto simp: ref_live_def)
  then have "map_of (assoc_put storage_compare k v (d cf)) = (map_of (d cf))(k \<mapsto> v)"
    if "k \<in> cf_keys (cf = MVCC_COLUMN_FAMILY)" for k v
    using rust_ord.map_of_assoc_put[OF ref_ord, of k "d cf"] that by auto
  then show ?thesis
    using assms keys ref_live_put[OF assms(1)] ref_live_del[OF assms(1)]
    by (auto simp: cf_ok_def Let_def ref_env_def ref_contents_def map_of_assoc_del)
qed

theorem ref_platform_ok: "platform_ok ref_env ref_live ref_contents"
  by (simp add: platform_ok_def rocksdb_ok_def ref_cf_ok ref_serde_ok ref_uuid_ok)

lemma ref_empty_is: "db_is ref_env ref_live ref_contents ref_empty Map.empty Map.empty"
  by (auto simp: db_is_def ref_live_def ref_empty_def version_map_def record_bytes_def ref_contents_def)

text \<open>A state of the reference platform with given versions and at most one transaction record.\<close>

definition ref_record_bytes :: "txn_record \<Rightarrow> bytes" where
  "ref_record_bytes r = ref_ser_status (rec_status r) # ref_ser_meta (rec_metadata r)"

definition ref_store :: "entry list \<Rightarrow> (uuid \<times> txn_record) option \<Rightarrow> ref_db" where
  "ref_store es rec =
     (\<lambda>cf. if cf = MVCC_COLUMN_FAMILY then enc_entries es
           else if cf = TRANSACTION_RECORD_COLUMN_FAMILY then
             (case rec of None \<Rightarrow> [] | Some (u, r) \<Rightarrow> [(ref_uuid_string u, ref_record_bytes r)])
           else [])"

definition ref_records :: "(uuid \<times> txn_record) option \<Rightarrow> uuid \<rightharpoonup> bytes" where
  "ref_records rec = (case rec of None \<Rightarrow> Map.empty | Some (u, r) \<Rightarrow> [u \<mapsto> ref_record_bytes r])"

lemma ordered_enc_entries: "entries_sorted es \<Longrightarrow> ordered_by storage_compare (enc_entries es)"
proof (induction es)
  case (Cons e es)
  then show ?case
    by (auto simp: entries_sorted_Cons enc_entries_def case_prod_unfold storage_compare_encode)
qed simp

lemma ref_uuid_string_inj [simp]: "ref_uuid_string u = ref_uuid_string v \<longleftrightarrow> u = v"
  using ref_uuid_ok by (auto simp: uuid_ok_def ref_env_def inj_eq)

lemma ref_live_store:
  assumes "entries_sorted es"
  shows "ref_live (ref_store es rec)"
  unfolding ref_live_def
proof (rule allI)
  fix cf
  have "fst ` set (enc_entries es) \<subseteq> cf_keys True"
    by (auto simp: enc_entries_def)
  moreover have "ref_uuid_string u \<in> cf_keys False" for u
    using uuid_in_cf_keys[OF ref_uuid_ok, of u] unfolding ref_env_def by simp
  ultimately show "fst ` set (ref_store es rec cf) \<subseteq> cf_keys (cf = MVCC_COLUMN_FAMILY) \<and>
      ordered_by storage_compare (ref_store es rec cf)"
    using ordered_enc_entries[OF assms]
    by (cases rec; cases "cf = MVCC_COLUMN_FAMILY"; cases "cf = TRANSACTION_RECORD_COLUMN_FAMILY")
      (simp_all add: ref_store_def case_prod_unfold)
qed

lemma ref_store_is:
  assumes "entries_sorted es"
  shows "db_is ref_env ref_live ref_contents (ref_store es rec) (map_of es) (ref_records rec)"
proof -
  have "ref_live (ref_store es rec)"
    by (rule ref_live_store[OF assms])
  moreover have "version_map ref_contents (ref_store es rec) = map_of es"
    by (auto simp: version_map_def ref_contents_def ref_store_def map_of_enc_entries)
  moreover have "record_bytes ref_env ref_contents (ref_store es rec) = ref_records rec"
    by (cases rec) (auto simp: record_bytes_def ref_contents_def ref_store_def ref_records_def
        ref_env_def fun_eq_iff)
  ultimately show ?thesis by (simp add: db_is_def)
qed

lemma ref_records_decode: "records_decode ref_env (ref_records rec)"
  by (auto simp: records_decode_def ref_records_def ref_env_def ref_de_record_def ref_record_bytes_def
      split: option.splits if_splits)

lemma ref_record_map: "record_map ref_env (ref_records (Some (u, r))) u = Some r"
  using ref_de_ser_meta[of _ "[]"]
  by (cases r) (auto simp: record_map_def ref_records_def ref_env_def ref_de_record_def
      ref_record_bytes_def ref_ser_status_def split: transaction_status.splits)

text \<open>The stored form of an intent.\<close>

definition ref_intent :: "key \<Rightarrow> val \<Rightarrow> txn_metadata \<Rightarrow> entry" where
  "ref_intent k v m = (create_intent_key k, ref_ser_meta m @ v)"

lemma ref_de_intent: "de_uncommitted ref_env (ref_ser_meta m @ v) = Inr (UncommittedValue v m)"
  by (simp add: ref_env_def ref_de_uncommitted_def length_ref_ser_meta ref_de_ser_meta)

end
