(* ===== verification/Clock.thy ===== *)
theory Clock
  imports Timestamps
begin

text \<open>
  The hybrid logical clock of \<open>src/src/hlc/clock.rs\<close> over the wall clocks of
  \<open>src/src/hlc/wall_clock/\<close>. The trait \<open>WallClock\<close> is the parameter \<open>current_time\<close>
  of the operations; \<open>Manual\<close> and \<open>SystemTimeClock\<close> are its two implementations.
\<close>

subsection \<open>Wall clocks\<close>

record manual =
  manual_time :: u64

definition manual_new :: "u64 \<Rightarrow> manual" where
  "manual_new time = \<lparr>manual_time = time\<rparr>"

definition manual_current_time :: "manual \<Rightarrow> u64" where
  "manual_current_time m = manual_time m"

text \<open>
  \<open>SystemTimeClock\<close>: the argument is what the operating system answers for the time since
  the epoch in milliseconds (\<open>None\<close> when the clock is set before the epoch).
\<close>

definition system_current_time :: "nat option \<Rightarrow> u64 res" where
  "system_current_time since_epoch =
     (case since_epoch of
        None \<Rightarrow> Inl UnwrapErr
      | Some millis \<Rightarrow> if millis < 2 ^ 64 then Inr (of_nat millis) else Inl UnwrapErr)"

subsection \<open>The clock\<close>

record 's clock =
  wall_clock :: 's
  latest_timestamp :: timestamp

definition clock_new :: "('s \<Rightarrow> u64) \<Rightarrow> 's \<Rightarrow> 's clock" where
  "clock_new current_time w =
     \<lparr>wall_clock = w, latest_timestamp = Timestamp (current_time w) 0\<rparr>"

definition receive_timestamp ::
  "('s \<Rightarrow> u64) \<Rightarrow> 's clock \<Rightarrow> timestamp \<Rightarrow> 's clock res" where
  "receive_timestamp current_time c incoming =
     (let current_pt = current_time (wall_clock c);
          incoming_pt = wall_time incoming;
          latest_pt = wall_time (latest_timestamp c);
          max_pt = max current_pt (max incoming_pt latest_pt)
      in if current_pt = incoming_pt \<and> incoming_pt = latest_pt
         then rbind (checked_add
                (max (logical_time incoming) (logical_time (latest_timestamp c))) 1)
              (\<lambda>l. Inr (c\<lparr>latest_timestamp := Timestamp max_pt l\<rparr>))
         else if latest_pt = max_pt
         then rbind (checked_add (logical_time (latest_timestamp c)) 1)
              (\<lambda>l. Inr (c\<lparr>latest_timestamp := Timestamp max_pt l\<rparr>))
         else if max_pt = incoming_pt
         then rbind (checked_add (logical_time incoming) 1)
              (\<lambda>l. Inr (c\<lparr>latest_timestamp := Timestamp max_pt l\<rparr>))
         else Inr (c\<lparr>latest_timestamp := Timestamp max_pt 0\<rparr>))"

definition get_timestamp :: "('s \<Rightarrow> u64) \<Rightarrow> 's clock \<Rightarrow> (timestamp \<times> 's clock) res" where
  "get_timestamp current_time c =
     (let current_pt = current_time (wall_clock c);
          max_pt = max (wall_time (latest_timestamp c)) current_pt
      in if wall_time (latest_timestamp c) = max_pt
         then rbind (checked_add (logical_time (latest_timestamp c)) 1)
              (\<lambda>l. let t = Timestamp max_pt l in Inr (t, c\<lparr>latest_timestamp := t\<rparr>))
         else let t = Timestamp max_pt 0 in Inr (t, c\<lparr>latest_timestamp := t\<rparr>))"

definition clock_manual :: "u64 \<Rightarrow> manual clock" where
  "clock_manual start_time =
     \<lparr>wall_clock = manual_new start_time, latest_timestamp = Timestamp start_time 0\<rparr>"

subsection \<open>Behaviour\<close>

lemma get_timestamp_later:
  assumes "get_timestamp now c = Inr (t, c')" and "\<not> is_intent_timestamp (latest_timestamp c)"
  shows "latest_timestamp c < t \<and> latest_timestamp c' = t \<and> wall_clock c' = wall_clock c"
  using assms
  by (auto simp: get_timestamp_def rbind_eq_Inr Let_def timestamp_less_iff is_intent_timestamp_def
      max_def split: if_splits dest: checked_add_1_less)

lemma receive_timestamp_later:
  assumes "receive_timestamp now c m = Inr c'" and "\<not> is_intent_timestamp (latest_timestamp c)"
  shows "latest_timestamp c < latest_timestamp c' \<and> wall_clock c' = wall_clock c"
  using assms
  by (auto simp: receive_timestamp_def rbind_eq_Inr Let_def timestamp_less_iff
      is_intent_timestamp_def max_def split: if_splits dest!: checked_add_1_less)

lemma receive_timestamp_above_incoming:
  assumes "receive_timestamp now c m = Inr c'" and "\<not> is_intent_timestamp m"
    and "wall_time m = wall_time (latest_timestamp c) \<Longrightarrow> wall_time m \<le> now (wall_clock c)"
  shows "m < latest_timestamp c'"
  using assms
  by (auto simp: receive_timestamp_def rbind_eq_Inr Let_def timestamp_less_iff
      is_intent_timestamp_def max_def split: if_splits dest!: checked_add_1_less)

text \<open>A clock driven by local events and received timestamps.\<close>

datatype clock_event = LocalEvent | ReceiveEvent timestamp

definition clock_step :: "('s \<Rightarrow> u64) \<Rightarrow> 's clock \<Rightarrow> clock_event \<Rightarrow> 's clock res" where
  "clock_step now c e =
     (case e of
        LocalEvent \<Rightarrow> rbind (get_timestamp now c) (\<lambda>(t, c'). Inr c')
      | ReceiveEvent m \<Rightarrow> receive_timestamp now c m)"

definition clock_started :: "'s clock \<Rightarrow> bool" where
  "clock_started c \<longleftrightarrow> \<not> is_intent_timestamp (latest_timestamp c)"

lemma clock_step_later:
  assumes "clock_started c" and "clock_step now c e = Inr c'"
  shows "latest_timestamp c < latest_timestamp c'"
  using assms get_timestamp_later[of now c] receive_timestamp_later[of now c]
  by (auto simp: clock_step_def clock_started_def rbind_eq_Inr split: clock_event.splits)

lemma clock_step_started:
  assumes "clock_started c" and "clock_step now c e = Inr c'"
  shows "clock_started c'"
proof -
  have "wall_time (latest_timestamp c') \<noteq> 0 \<or> logical_time (latest_timestamp c') \<noteq> 0"
    using assms
    by (auto simp: clock_started_def clock_step_def get_timestamp_def receive_timestamp_def Let_def
        rbind_eq_Inr is_intent_timestamp_def max_def split: if_splits clock_event.splits
        dest!: checked_add_1_less)
  then show ?thesis by (simp add: clock_started_def is_intent_timestamp_def)
qed

text \<open>The wall clock may read anything at each event.\<close>

definition timed_step :: "'s clock \<Rightarrow> u64 \<times> clock_event \<Rightarrow> 's clock res" where
  "timed_step c e = clock_step (\<lambda>_. fst e) c (snd e)"

interpretation hlc: step_progress timed_step clock_started
  "\<lambda>c c'. latest_timestamp c < latest_timestamp c'"
  by unfold_locales (auto simp: timed_step_def intro: clock_step_started clock_step_later)

end
