(* ===== verification/Store_Properties.thy ===== *)
theory Store_Properties
  imports Reference_Platform Clock
begin

text \<open>
  The properties of the multi-version store and of the clock that its clients rely on, over any
  platform with the documented behaviour (\<open>platform_ok\<close>), each instantiated on the reference
  platform.
\<close>

subsection \<open>Example stores\<close>

definition two_versions :: "entry list" where
  "two_versions =
     [(MVCCKey [97] (Timestamp 20 0), [2]), (MVCCKey [97] (Timestamp 10 0), [1])]"

definition one_intent :: "uuid \<Rightarrow> entry list" where
  "one_intent u = [ref_intent [97] [9] (TxnMetadata u (Timestamp 30 0)),
                   (MVCCKey [97] (Timestamp 10 0), [1])]"

lemma two_versions_sorted: "entries_sorted two_versions"
  by (simp add: two_versions_def entries_sorted_def key_before_def timestamp_less_iff is_intent_timestamp_def)

lemma one_intent_sorted: "entries_sorted (one_intent u)"
  by (simp add: one_intent_def ref_intent_def entries_sorted_def key_before_def timestamp_less_iff
      is_intent_timestamp_def create_intent_key_def get_intent_timestamp_def)

lemmas two_versions_is = ref_store_is[OF two_versions_sorted]
lemmas one_intent_is = ref_store_is[OF one_intent_sorted]

lemma one_intent_map:
  "map_of (one_intent u) (create_intent_key [97]) =
     Some (ref_ser_meta (TxnMetadata u (Timestamp 30 0)) @ [9])"
  by (simp add: one_intent_def ref_intent_def)

lemma two_versions_no_intent: "map_of two_versions (create_intent_key k) = None"
  by (simp add: two_versions_def create_intent_key_def get_intent_timestamp_def)

subsection \<open>Reads\<close>

text \<open>
  C7: a read of a key that has a version and no intent returns the version with the greatest
  timestamp at or below the read timestamp, or nothing when every version is newer.
\<close>

theorem mvcc_get_returns_newest_version:
  assumes "platform_ok env live contents" "db_is env live contents d vm rm"
    and "vm (create_intent_key k) = None" "vm (MVCCKey k u) \<noteq> None"
  shows "\<exists>r. mvcc_get env d k t tx = Inr (MVCCGetResult r None) \<and> newest_version vm k t r"
  by (rule mvcc_get_no_intent[OF assms])

theorem mvcc_get_returns_newest_version_witness:
  "mvcc_get ref_env (ref_store two_versions None) [97] (Timestamp 15 0) None =
     Inr (MVCCGetResult (Some (MVCCKey [97] (Timestamp 10 0), [1])) None)"
proof -
  have vm: "map_of two_versions (MVCCKey [97] (Timestamp 10 0)) = Some [1]"
    by (simp add: two_versions_def)
  then obtain r where r: "mvcc_get ref_env (ref_store two_versions None) [97] (Timestamp 15 0) None =
      Inr (MVCCGetResult r None)" "newest_version (map_of two_versions) [97] (Timestamp 15 0) r"
    using mvcc_get_returns_newest_version[OF ref_platform_ok two_versions_is two_versions_no_intent,
        of "[97]" "Timestamp 10 0" None] by force
  have "newest_version (map_of two_versions) [97] (Timestamp 15 0)
      (Some (MVCCKey [97] (Timestamp 10 0), [1]))"
    by (auto simp: newest_version_def vm two_versions_def timestamp_le_iff
        is_intent_timestamp_def split: if_splits)
  with r newest_version_unique show ?thesis by blast
qed

text \<open>
  While a key carries an intent, every read of it returns the intent and no value, whatever
  the read timestamp.
\<close>

lemma mvcc_get_returns_intent:
  assumes "platform_ok env live contents" "db_is env live contents d vm rm"
    and "vm (create_intent_key k) = Some b" "de_uncommitted env b = Inr u"
  shows "mvcc_get env d k t tx =
    Inr (MVCCGetResult None (Some (TxnIntent (uvalue_meta u) k, uvalue u)))"
  by (rule mvcc_get_with_intent[OF assms])

text \<open>
  A read of a key with no version and no intent returns nothing, provided the store is empty
  or holds a greater key.
\<close>

lemma mvcc_get_absent_key:
  assumes "platform_ok env live contents" "db_is env live contents d vm rm"
    and "\<And>u. vm (MVCCKey k u) = None" and "vm = Map.empty \<or> (\<exists>m. vm m \<noteq> None \<and> k < mkey m)"
  shows "mvcc_get env d k t tx = Inr (MVCCGetResult None None)"
  by (rule mvcc_get_absent[OF assms])

text \<open>
  C31: a read of an absent key greater than every stored key does not return nothing: the failed
  seek leaves the iterator on the last entry and the scan ignores the seek's answer, so the read
  returns the last entry of the store, a version of another key.
\<close>

theorem mvcc_get_beyond_last_key:
  assumes "platform_ok env live contents" "db_is env live contents d vm rm"
    and "vm m = Some v" "\<not> is_intent_key m" "mtimestamp m \<le> t" "mkey m < k"
    and "\<And>m'. vm m' \<noteq> None \<Longrightarrow> m' = m \<or> key_before m' m"
  shows "mvcc_get env d k t tx = Inr (MVCCGetResult (Some (m, v)) None) \<and> mkey m \<noteq> k"
  using mvcc_get_absent_beyond[OF assms] assms(6) by auto

theorem mvcc_get_beyond_last_key_witness:
  "mvcc_get ref_env (ref_store two_versions None) [98] (Timestamp 15 0) None =
     Inr (MVCCGetResult (Some (MVCCKey [97] (Timestamp 10 0), [1])) None)"
proof (rule mvcc_get_beyond_last_key[OF ref_platform_ok two_versions_is, THEN conjunct1])
  show "m' = MVCCKey [97] (Timestamp 10 0) \<or> key_before m' (MVCCKey [97] (Timestamp 10 0))"
    if "map_of two_versions m' \<noteq> None" for m'
    using that by (auto simp: two_versions_def key_before_def timestamp_less_iff
        is_intent_timestamp_def split: if_splits)
qed (simp_all add: two_versions_def is_intent_key_def is_intent_timestamp_def
    timestamp_le_iff)

subsection \<open>Writes\<close>

lemma newest_after_commit:
  assumes "c \<le> r" "\<And>u. u \<le> r \<Longrightarrow> vm (MVCCKey k u) \<noteq> None \<Longrightarrow> u \<le> c"
  shows "newest_version (vm(MVCCKey k c \<mapsto> v)) k r (Some (MVCCKey k c, v))"
  using assms by (auto simp: newest_version_def)

lemma example_key [simp]: "valid_utf8 [97]"
  by (rule valid_utf8_ascii) simp

lemma example_timestamp [simp]: "valid_utf8 (encode_timestamp (Timestamp 40 0))"
  by (rule valid_utf8_ascii) (auto simp: encode_timestamp_def to_le_bytes_def upt_rec take_bit_eq_mod
      unsigned_drop_bit_eq)

text \<open>
  C8: the life of a write. A transaction puts a value on a key nobody has an intent on; until
  the intent is resolved every read reports the intent; after it is resolved at a timestamp not
  below the key's other visible versions, the store holds exactly one more version and a read at
  or above the commit timestamp returns the value.
\<close>

theorem write_resolve_read:
  assumes "platform_ok env live contents" "db_is env live contents d vm rm"
    and "valid_utf8 k" "valid_utf8 (encode_timestamp c)" "\<not> is_intent_timestamp c"
    and "vm (create_intent_key k) = None"
    and "c \<le> r" "\<And>u. u \<le> r \<Longrightarrow> vm (MVCCKey k u) \<noteq> None \<Longrightarrow> u \<le> c"
  shows "\<exists>d1 d2. mvcc_put_raw env d k ts (Some t) v = Inr (Inr (MVCCKey k (write_timestamp t), d1)) \<and>
    mvcc_get env d1 k r tx = Inr (MVCCGetResult None (Some (to_intent t k, v))) \<and>
    mvcc_resolve_intent env d1 k c (txn_id t) = Inr d2 \<and>
    db_is env live contents d2 (vm(MVCCKey k c \<mapsto> v)) rm \<and>
    mvcc_get env d2 k r tx = Inr (MVCCGetResult (Some (MVCCKey k c, v)) None)"
proof -
  obtain d1 b where d1: "mvcc_put_raw env d k ts (Some t) v = Inr (Inr (MVCCKey k (write_timestamp t), d1))"
    "db_is env live contents d1 (vm(create_intent_key k \<mapsto> b)) rm"
    "de_uncommitted env b = Inr (UncommittedValue v (to_txn_metadata t))"
    using put_txn_writes_intent[OF assms(1-3) put_check_none[OF assms(1,2,6)]] by metis
  have "mvcc_get env d1 k r tx = Inr (MVCCGetResult None (Some (to_intent t k, v)))"
    using mvcc_get_with_intent[OF assms(1) d1(2) _ d1(3)] by (simp add: to_txn_metadata_def to_intent_def)
  moreover obtain d2 where d2: "mvcc_resolve_intent env d1 k c (txn_id t) = Inr d2"
    "db_is env live contents d2 ((vm(create_intent_key k \<mapsto> b))(create_intent_key k := None, MVCCKey k c \<mapsto> v)) rm"
    using resolve_intent_own[OF assms(1) d1(2) assms(3,4) _ d1(3)] by (auto simp: to_txn_metadata_def)
  have vm: "(vm(create_intent_key k \<mapsto> b))(create_intent_key k := None, MVCCKey k c \<mapsto> v) =
      vm(MVCCKey k c \<mapsto> v)"
    using assms(6) by auto
  have "(vm(MVCCKey k c \<mapsto> v)) (create_intent_key k) = None"
    using assms(5,6) by (auto simp: create_intent_key_def is_intent_timestamp_iff)
  moreover have "(vm(MVCCKey k c \<mapsto> v)) (MVCCKey k c) \<noteq> None" by simp
  ultimately have "\<exists>q. mvcc_get env d2 k r tx = Inr (MVCCGetResult q None) \<and>
      newest_version (vm(MVCCKey k c \<mapsto> v)) k r q"
    using mvcc_get_no_intent[OF assms(1) d2(2)[unfolded vm]] by blast
  then have "mvcc_get env d2 k r tx = Inr (MVCCGetResult (Some (MVCCKey k c, v)) None)"
    using newest_version_unique newest_after_commit[OF assms(7,8)] by blast
  with d1 d2 vm \<open>mvcc_get env d1 k r tx = _\<close> show ?thesis by auto
qed

theorem write_resolve_read_witness:
  "\<exists>d1 d2. mvcc_put_raw ref_env (ref_store two_versions None) [97] None
      (Some (txn_new 5 (Timestamp 30 0))) [7] = Inr (Inr (MVCCKey [97] (Timestamp 30 0), d1)) \<and>
    mvcc_resolve_intent ref_env d1 [97] (Timestamp 40 0) 5 = Inr d2 \<and>
    mvcc_get ref_env d2 [97] (Timestamp 50 0) None =
      Inr (MVCCGetResult (Some (MVCCKey [97] (Timestamp 40 0), [7])) None)"
proof -
  have "u \<le> Timestamp 40 0" if "map_of two_versions (MVCCKey [97] u) \<noteq> None" for u
    using that by (auto simp: two_versions_def timestamp_le_iff is_intent_timestamp_def split: if_splits)
  then show ?thesis
    using write_resolve_read[OF ref_platform_ok two_versions_is[of None], where k = "[97]" and
        c = "Timestamp 40 0" and r = "Timestamp 50 0" and t = "txn_new 5 (Timestamp 30 0)" and
        v = "[7]" and ts = None and tx = None]
    by (auto simp: two_versions_no_intent txn_new_def is_intent_timestamp_def timestamp_le_iff)
qed

text \<open>
  A put on a key that carries another transaction's intent writes nothing: it reports the
  intent while that transaction is pending, and panics (\<open>todo!\<close>) once it is finalised.
\<close>

lemma put_on_foreign_intent:
  assumes "platform_ok env live contents" "db_is env live contents d vm rm" "records_decode env rm"
    and "vm (create_intent_key k) = Some b" "de_uncommitted env b = Inr u"
    and "record_map env rm (meta_txn_id (uvalue_meta u)) = Some r"
    and "meta_txn_id (uvalue_meta u) \<noteq> txn_id t"
  shows "mvcc_put_raw env d k ts (Some t) v =
    (if rec_status r = PENDING then Inr (Inl (WriteIntentError (TxnIntent (uvalue_meta u) k)))
     else Inl NotImplemented)"
  using put_check_some[OF assms(1-6), of t] assms(7)
  by (cases "rec_status r") (simp_all add: mvcc_put_raw_def)

text \<open>
  A put by the transaction that owns the intent replaces the intent's value and timestamp
  and touches nothing else.
\<close>

lemma put_on_own_intent:
  assumes "platform_ok env live contents" "db_is env live contents d vm rm" "records_decode env rm"
    and "vm (create_intent_key k) = Some b" "de_uncommitted env b = Inr u"
    and "record_map env rm (txn_id t) = Some r" "meta_txn_id (uvalue_meta u) = txn_id t"
    and "valid_utf8 k"
  shows "\<exists>d' b'. mvcc_put_raw env d k ts (Some t) v = Inr (Inr (MVCCKey k (write_timestamp t), d')) \<and>
    db_is env live contents d' (vm(create_intent_key k \<mapsto> b')) rm \<and>
    de_uncommitted env b' = Inr (UncommittedValue v (to_txn_metadata t))"
proof -
  have "mvcc_put_check env d k (Some t) = Inr (Inr ())"
    using put_check_some[OF assms(1-5), of r t] assms(6,7) by simp
  then show ?thesis
    by (rule put_txn_writes_intent[OF assms(1,2,8)]) blast
qed

text \<open>
  Resolving an intent on behalf of a transaction that does not own it, or a key without an
  intent, leaves the database as it is.
\<close>

lemma resolve_foreign_intent_noop:
  assumes "platform_ok env live contents" "db_is env live contents d vm rm" "valid_utf8 k"
    and "\<And>b. vm (create_intent_key k) = Some b \<Longrightarrow>
           \<exists>u. de_uncommitted env b = Inr u \<and> meta_txn_id (uvalue_meta u) \<noteq> tid"
  shows "mvcc_resolve_intent env d k c tid = Inr d"
  by (rule resolve_intent_other[OF assms])

text \<open>
  C32: a commit whose timestamp is not valid UTF-8 when written as twelve little-endian bytes
  panics instead of writing the version, for every key and every pending intent of the caller.
\<close>

theorem resolve_intent_panics_on_timestamp:
  assumes "platform_ok env live contents" "db_is env live contents d vm rm" "valid_utf8 k"
    and "vm (create_intent_key k) = Some b" "de_uncommitted env b = Inr u"
    and "\<not> valid_utf8 (encode_timestamp c)"
  shows "mvcc_resolve_intent env d k c (meta_txn_id (uvalue_meta u)) = Inl UnwrapErr"
proof -
  obtain d1 where "delete_mvcc env d (create_intent_key k) = Inr d1"
    using delete_mvcc_ok[OF assms(1,2) intent_to_string[OF assms(3)]] by metis
  moreover have "put_raw_with_mvcc_key env d1 (MVCCKey k c) x = Inl UnwrapErr" for x
    using assms(3,6) by (simp add: put_raw_with_mvcc_key_def to_string_iff)
  ultimately show ?thesis
    using get_uncommitted_value_ok[OF assms(1-3)] assms(4,5)
    by (simp add: mvcc_resolve_intent_def Let_def)
qed

theorem resolve_intent_panics_on_timestamp_witness:
  "mvcc_resolve_intent ref_env (ref_store (one_intent 5) None) [97] (Timestamp 128 0) 5 = Inl UnwrapErr"
proof -
  have "\<not> valid_utf8 (encode_timestamp (Timestamp 128 0))"
    by (simp add: encode_timestamp_def to_le_bytes_def upt_rec valid_utf8.simps utf8_next_def
        take_bit_eq_mod)
  then show ?thesis
    using resolve_intent_panics_on_timestamp[OF ref_platform_ok one_intent_is example_key
        one_intent_map ref_de_intent] by simp
qed

subsection \<open>Transaction records\<close>

text \<open>
  Storing a transaction record makes it the record of that transaction and leaves every
  other record and every version as it was.
\<close>

lemma transaction_record_roundtrip:
  assumes "platform_ok env live contents" "db_is env live contents d vm rm" "records_decode env rm"
  shows "\<exists>d' rm'. put_transaction_record env d u r = Inr d' \<and>
    db_is env live contents d' vm rm' \<and>
    (\<forall>w. get_transaction_record env d' w =
       (if w = u then Inr (Some r) else get_transaction_record env d w))"
proof -
  obtain d' rm' where d': "put_transaction_record env d u r = Inr d'"
    "db_is env live contents d' vm rm'" "records_decode env rm'"
    "record_map env rm' = (record_map env rm)(u \<mapsto> r)"
    by (rule put_transaction_record_map[OF assms])
  show ?thesis
    using d'(1,2) get_transaction_record_map[OF assms(1) d'(2,3)] get_transaction_record_map[OF assms] d'(4)
    by auto
qed

text \<open>
  Listing the store yields every stored version and intent once, in key order, and per key
  the intent first and then the versions from the newest to the oldest.
\<close>

lemma collect_all_lists_versions:
  assumes "platform_ok env live contents" "db_is env live contents d vm rm"
  shows "\<exists>ks. collect_all_mvcc_kvs env d = Inr ks \<and> sorted_wrt key_before ks \<and> distinct ks \<and>
    set ks = dom vm"
proof -
  obtain es where es: "entries_sorted es" "vm = map_of es"
    "mvcc_iterator_new env d False = Inr (at_entries False es)"
    using version_map_entries[OF assms] by metis
  then show ?thesis
    using collect_loop_entries[of False es "[]"] entries_sorted_distinct[OF es(1)]
    by (simp add: collect_all_mvcc_kvs_def entries_sorted_def dom_map_of_conv_image_fst)
qed

subsection \<open>Keys and their order\<close>

text \<open>
  C30: a byte string decodes to a versioned key exactly when it is the encoding of that key: the
  encoding is a bijection between versioned keys and the byte strings the decoder accepts.
\<close>

theorem mvcc_key_encoding:
  "decode_mvcc_key bs = Some k \<longleftrightarrow> bs = encode_mvcc_key k"
  by (rule decode_Some_iff)

text \<open>
  The RocksDB comparator puts the encodings of two versioned keys in the order of their
  keys; of two entries of one key the intent comes first, then the newer version.
\<close>

lemma comparator_order:
  "storage_compare (encode_mvcc_key (MVCCKey k t)) (encode_mvcc_key (MVCCKey l u)) =
     (if k \<noteq> l then cmp k l
      else if t = u then Equal
      else if is_intent_timestamp t then Less
      else if is_intent_timestamp u then Greater
      else if wall_time t \<noteq> wall_time u then cmp (wall_time u) (wall_time t)
      else cmp (logical_time u) (logical_time t))"
  by (cases t; cases u)
    (auto simp: storage_compare_encode key_before_def timestamp_less_iff cmp_def is_intent_timestamp_def)

text \<open>
  A versioned key whose key is valid UTF-8 can be written at exactly the timestamps whose
  twelve bytes are valid UTF-8; every other write panics.
\<close>

lemma writable_timestamps:
  assumes "valid_utf8 (mkey k)"
  shows "mvcc_key_to_string k =
    (if valid_utf8 (encode_timestamp (mtimestamp k)) then Inr (encode_mvcc_key k) else Inl UnwrapErr)"
  by (rule to_string_iff[OF assms])

subsection \<open>The clock\<close>

text \<open>
  C29: a clock that hands out timestamps and receives others' keeps strictly increasing: when its latest timestamp is
  not that of intents, then after any non-empty run of events that does not overflow the logical time, whatever the wall clock
  reads at each event (it may go back), its latest timestamp is greater than before and is not the intent timestamp.
\<close>

theorem clock_run_monotone:
  assumes "\<not> is_intent_timestamp (latest_timestamp c)" "es \<noteq> []"
    and "run_steps timed_step c es = Inr c'"
  shows "latest_timestamp c < latest_timestamp c' \<and> \<not> is_intent_timestamp (latest_timestamp c')"
  using hlc.run_before[of c es c'] hlc.run_inv[of c es c'] assms
  by (simp add: clock_started_def)

theorem clock_run_monotone_witness:
  "\<exists>c'. run_steps timed_step (clock_manual 10) [(10, LocalEvent), (11, ReceiveEvent (Timestamp 12 4)), (9, LocalEvent)] = Inr c' \<and>
     latest_timestamp c' = Timestamp 12 6 \<and> latest_timestamp (clock_manual 10) < latest_timestamp c' \<and>
     \<not> is_intent_timestamp (latest_timestamp c')"
proof -
  let ?c = "clock_manual 10"
  have run: "run_steps timed_step ?c [(10, LocalEvent), (11, ReceiveEvent (Timestamp 12 4)), (9, LocalEvent)] =
      Inr (?c\<lparr>latest_timestamp := Timestamp 12 6\<rparr>)"
    by (simp add: timed_step_def clock_step_def get_timestamp_def receive_timestamp_def clock_manual_def
        manual_new_def Let_def checked_add_def max_def)
  from clock_run_monotone[OF _ _ this] run show ?thesis
    by (simp add: clock_manual_def is_intent_timestamp_def)
qed

text \<open>
  After receiving a timestamp the clock is past it, unless the received wall time is the
  clock's own latest wall time and lies ahead of the physical clock.
\<close>

lemma clock_receive_above_incoming:
  assumes "receive_timestamp now c m = Inr c'" and "\<not> is_intent_timestamp m"
    and "wall_time m = wall_time (latest_timestamp c) \<Longrightarrow> wall_time m \<le> now (wall_clock c)"
  shows "m < latest_timestamp c'"
  by (rule receive_timestamp_above_incoming[OF assms])

text \<open>
  In the excepted case the clock advances only its own logical time, so it can end below
  the timestamp it received.
\<close>

lemma clock_receive_below_incoming:
  assumes "now (wall_clock c) < wall_time m" "wall_time m = wall_time (latest_timestamp c)"
    and "logical_time (latest_timestamp c) + 1 < logical_time m"
    and "checked_add (logical_time (latest_timestamp c)) 1 = Inr l"
  shows "\<exists>c'. receive_timestamp now c m = Inr c' \<and> latest_timestamp c' < m"
proof -
  have "l = logical_time (latest_timestamp c) + 1"
    using checked_add_InrD(1)[OF assms(4)] .
  with assms show ?thesis
    by (auto simp: receive_timestamp_def Let_def max_def timestamp_less_iff is_intent_timestamp_def)
qed

end
