(* ===== verification/Llrb.thy ===== *)
theory Llrb
  imports Prelude "HOL-Library.Tree" "HOL-Library.Multiset"
begin

text \<open>
  The red-black tree of \<open>src/src/llrb/llrb.rs\<close>: an arena of nodes that refer to each other
  by index, \<open>NIL\<close> being \<open>usize::MAX\<close>. The operations are translated with every index
  into the arena checked; the loops, which an inconsistent arena could keep running, are
  \<open>'a run\<close> values.
\<close>

datatype tree_color = RED | BLACK

definition NIL :: nat where
  "NIL = 2 ^ 64 - 1"

record ('k, 'v) node =
  node_start :: 'k
  node_end :: 'k
  node_value :: 'v
  left_node :: nat
  right_node :: nat
  parent_node :: nat
  color :: tree_color

record ('k, 'v) rbtree =
  nodes :: "('k, 'v) node list"
  root :: nat

definition new_node :: "tree_color \<Rightarrow> 'k \<Rightarrow> 'k \<Rightarrow> 'v \<Rightarrow> nat \<Rightarrow> ('k, 'v) node" where
  "new_node c k e v p =
     \<lparr>node_start = k, node_end = e, node_value = v, left_node = NIL, right_node = NIL,
      parent_node = p, color = c\<rparr>"

definition rbtree_new :: "('k, 'v) rbtree" where
  "rbtree_new = \<lparr>nodes = [], root = NIL\<rparr>"

text \<open>The accesses \<open>self.nodes[i]\<close> and the assignments to a field of \<open>self.nodes[i]\<close>.\<close>

definition node_at :: "('k, 'v) rbtree \<Rightarrow> nat \<Rightarrow> ('k, 'v) node res" where
  "node_at t i = vec_get (nodes t) i"

definition upd_node ::
  "('k, 'v) rbtree \<Rightarrow> nat \<Rightarrow> (('k, 'v) node \<Rightarrow> ('k, 'v) node) \<Rightarrow> ('k, 'v) rbtree res" where
  "upd_node t i f = rbind (node_at t i) (\<lambda>n. Inr (t\<lparr>nodes := (nodes t)[i := f n]\<rparr>))"

definition put_left :: "('k, 'v) rbtree \<Rightarrow> nat \<Rightarrow> nat \<Rightarrow> ('k, 'v) rbtree res" where
  "put_left t i j = upd_node t i (\<lambda>n. n\<lparr>left_node := j\<rparr>)"

definition put_right :: "('k, 'v) rbtree \<Rightarrow> nat \<Rightarrow> nat \<Rightarrow> ('k, 'v) rbtree res" where
  "put_right t i j = upd_node t i (\<lambda>n. n\<lparr>right_node := j\<rparr>)"

definition put_parent :: "('k, 'v) rbtree \<Rightarrow> nat \<Rightarrow> nat \<Rightarrow> ('k, 'v) rbtree res" where
  "put_parent t i j = upd_node t i (\<lambda>n. n\<lparr>parent_node := j\<rparr>)"

definition put_color :: "('k, 'v) rbtree \<Rightarrow> nat \<Rightarrow> tree_color \<Rightarrow> ('k, 'v) rbtree res" where
  "put_color t i c = upd_node t i (\<lambda>n. n\<lparr>color := c\<rparr>)"

text \<open>The first half of \<open>set_left\<close> and \<open>set_right\<close>: unhook a node from its old parent.\<close>

definition detach :: "('k, 'v) rbtree \<Rightarrow> nat \<Rightarrow> ('k, 'v) rbtree res" where
  "detach t child =
     rbind (node_at t child) (\<lambda>c.
       let original_parent = parent_node c in
       if original_parent \<noteq> NIL then
         rbind (node_at t original_parent) (\<lambda>p.
           if left_node p = child then put_left t original_parent NIL
           else put_right t original_parent NIL)
       else Inr t)"

definition set_left :: "('k, 'v) rbtree \<Rightarrow> nat \<Rightarrow> nat \<Rightarrow> ('k, 'v) rbtree res" where
  "set_left t parent new_left =
     (if parent = NIL then Inl (Explicit ''cannot be NIL'')
      else if new_left = NIL then put_left t parent NIL
      else
        rbind (detach t new_left) (\<lambda>t1.
          rbind (node_at t1 parent) (\<lambda>p.
            let original_left = left_node p in
            rbind (if original_left \<noteq> NIL then put_parent t1 original_left NIL else Inr t1) (\<lambda>t2.
              rbind (put_left t2 parent new_left) (\<lambda>t3.
                put_parent t3 new_left parent)))))"

definition set_right :: "('k, 'v) rbtree \<Rightarrow> nat \<Rightarrow> nat \<Rightarrow> ('k, 'v) rbtree res" where
  "set_right t parent new_right =
     (if parent = NIL then Inl (Explicit ''cannot be NIL'')
      else if new_right = NIL then put_right t parent NIL
      else
        rbind (detach t new_right) (\<lambda>t1.
          rbind (node_at t1 parent) (\<lambda>p.
            let original_right = right_node p in
            rbind (if original_right \<noteq> NIL then put_parent t1 original_right NIL else Inr t1) (\<lambda>t2.
              rbind (put_right t2 parent new_right) (\<lambda>t3.
                put_parent t3 new_right parent)))))"

definition add_node :: "('k, 'v) rbtree \<Rightarrow> ('k, 'v) node \<Rightarrow> nat \<times> ('k, 'v) rbtree" where
  "add_node t n = (length (nodes t), t\<lparr>nodes := nodes t @ [n]\<rparr>)"

definition right_rotate :: "('k, 'v) rbtree \<Rightarrow> nat \<Rightarrow> ('k, 'v) rbtree res" where
  "right_rotate t k =
     rbind (node_at t k) (\<lambda>kn.
       let left = left_node kn; parent = parent_node kn in
       rbind (node_at t left) (\<lambda>ln.
         let left_right = right_node ln in
         rbind
           (if parent = NIL then put_parent (t\<lparr>root := left\<rparr>) left NIL
            else rbind (node_at t parent) (\<lambda>pn.
                   if right_node pn = k then set_right t parent left
                   else set_left t parent left)) (\<lambda>t1.
         rbind (set_right t1 left k) (\<lambda>t2.
           set_left t2 k left_right))))"

definition left_rotate :: "('k, 'v) rbtree \<Rightarrow> nat \<Rightarrow> ('k, 'v) rbtree res" where
  "left_rotate t k =
     rbind (node_at t k) (\<lambda>kn.
       let right = right_node kn; parent = parent_node kn in
       rbind (node_at t right) (\<lambda>rn.
         let right_left = left_node rn in
         rbind
           (if parent = NIL then put_parent (t\<lparr>root := right\<rparr>) right NIL
            else rbind (node_at t parent) (\<lambda>pn.
                   if right_node pn = k then set_right t parent right
                   else set_left t parent right)) (\<lambda>t1.
         rbind (set_left t1 right k) (\<lambda>t2.
           set_right t2 k right_left))))"

text \<open>One turn of the loop of \<open>fix_insert\<close>: the new tree and the new \<open>k\<close>.\<close>

definition recolor_up :: "('k, 'v) rbtree \<Rightarrow> nat \<Rightarrow> nat \<Rightarrow> nat \<Rightarrow> (nat \<times> ('k, 'v) rbtree) res" where
  "recolor_up t uncle k_parent grand_parent =
     rbind (put_color t uncle BLACK) (\<lambda>t1.
       rbind (put_color t1 k_parent BLACK) (\<lambda>t2.
         rbind (put_color t2 grand_parent RED) (\<lambda>t3. Inr (grand_parent, t3))))"

definition rotate_up ::
  "(('k, 'v) rbtree \<Rightarrow> nat \<Rightarrow> ('k, 'v) rbtree res) \<Rightarrow> ('k, 'v) rbtree \<Rightarrow> nat \<Rightarrow>
   (nat \<times> ('k, 'v) rbtree) res" where
  "rotate_up rot t k =
     rbind (node_at t k) (\<lambda>kn.
       let parent = parent_node kn in
       rbind (node_at t parent) (\<lambda>pn.
         let grand_parent = parent_node pn in
         rbind (put_color t parent BLACK) (\<lambda>t1.
           rbind (put_color t1 grand_parent RED) (\<lambda>t2.
             rbind (rot t2 grand_parent) (\<lambda>t3. Inr (k, t3))))))"

definition uncle_is_red :: "('k, 'v) rbtree \<Rightarrow> nat \<Rightarrow> bool res" where
  "uncle_is_red t uncle =
     (if uncle \<noteq> NIL then rbind (node_at t uncle) (\<lambda>un. Inr (color un = RED)) else Inr False)"

definition fix_turn :: "('k, 'v) rbtree \<Rightarrow> nat \<Rightarrow> (nat \<times> ('k, 'v) rbtree) res" where
  "fix_turn t k =
     rbind (node_at t k) (\<lambda>kn.
       let k_parent = parent_node kn in
       rbind (node_at t k_parent) (\<lambda>pn.
         let grand_parent = parent_node pn in
         rbind (node_at t grand_parent) (\<lambda>gn.
           if k_parent = right_node gn then
             let uncle = left_node gn in
             rbind (uncle_is_red t uncle) (\<lambda>red.
               if red then recolor_up t uncle k_parent grand_parent
               else if k = left_node pn then
                 rbind (right_rotate t k_parent) (\<lambda>t'. rotate_up left_rotate t' k_parent)
               else rotate_up left_rotate t k)
           else
             let uncle = right_node gn in
             rbind (uncle_is_red t uncle) (\<lambda>red.
               if red then recolor_up t uncle k_parent grand_parent
               else if k = right_node pn then
                 rbind (left_rotate t k_parent) (\<lambda>t'. rotate_up right_rotate t' k_parent)
               else rotate_up right_rotate t k))))"

definition fix_guard :: "('k, 'v) rbtree \<Rightarrow> nat \<Rightarrow> bool res" where
  "fix_guard t k =
     rbind (node_at t k) (\<lambda>kn. rbind (node_at t (parent_node kn)) (\<lambda>pn. Inr (color pn = RED)))"

definition fix_break :: "('k, 'v) rbtree \<Rightarrow> nat \<Rightarrow> bool res" where
  "fix_break t k = rbind (node_at t k) (\<lambda>kn. Inr (parent_node kn = NIL))"

partial_function (option) fix_loop ::
  "('k, 'v) rbtree \<Rightarrow> nat \<Rightarrow> ('k, 'v) rbtree run" where
  [code]: "fix_loop t k =
     run_bind (Some (fix_guard t k)) (\<lambda>red.
       if red then
         run_bind (Some (fix_turn t k)) (\<lambda>(k', t').
           run_bind (Some (fix_break t' k')) (\<lambda>stop.
             if stop then Some (Inr t') else fix_loop t' k'))
       else Some (Inr t))"

definition fix_insert :: "('k, 'v) rbtree \<Rightarrow> nat \<Rightarrow> ('k, 'v) rbtree run" where
  "fix_insert t k = run_bind (fix_loop t k) (\<lambda>t'. Some (put_color t' (root t') BLACK))"

text \<open>The descent of \<open>insert_node\<close>: the last node before \<open>NIL\<close>.\<close>

partial_function (option) find_parent ::
  "('k::linorder, 'v) rbtree \<Rightarrow> 'k \<Rightarrow> nat \<Rightarrow> nat \<Rightarrow> nat run" where
  [code]: "find_parent t k cur prev =
     (if cur \<noteq> NIL then
        run_bind (Some (node_at t cur)) (\<lambda>n.
          find_parent t k
            (case cmp (node_start n) k of
               Less \<Rightarrow> right_node n | Equal \<Rightarrow> left_node n | Greater \<Rightarrow> left_node n) cur)
      else Some (Inr prev))"

definition attach ::
  "('k::linorder, 'v) rbtree \<Rightarrow> nat \<Rightarrow> nat \<Rightarrow> 'k \<Rightarrow> ('k, 'v) rbtree res" where
  "attach t prev new_idx k =
     rbind (node_at t prev) (\<lambda>pn.
       case cmp (node_start pn) k of
         Less \<Rightarrow> put_right t prev new_idx
       | Equal \<Rightarrow> put_left t prev new_idx
       | Greater \<Rightarrow> put_left t prev new_idx)"

definition insert_at ::
  "('k::linorder, 'v) rbtree \<Rightarrow> nat \<Rightarrow> 'k \<Rightarrow> 'k \<Rightarrow> 'v \<Rightarrow> ('k, 'v) rbtree run" where
  "insert_at t prev k e v =
     (if prev = NIL then
        (let (added, t1) = add_node t (new_node BLACK k e v NIL) in
         Some (Inr (t1\<lparr>root := added\<rparr>)))
      else
        (let (new_idx, t1) = add_node t (new_node RED k e v prev) in
         run_bind (Some (attach t1 prev new_idx k)) (\<lambda>t2.
           run_bind (Some (node_at t2 prev)) (\<lambda>pn.
             if parent_node pn = NIL then Some (Inr t2) else fix_insert t2 new_idx))))"

definition insert_node ::
  "('k::linorder, 'v) rbtree \<Rightarrow> 'k \<Rightarrow> 'k \<Rightarrow> 'v \<Rightarrow> ('k, 'v) rbtree run" where
  "insert_node t k e v =
     run_bind (find_parent t k (root t) NIL) (\<lambda>prev. insert_at t prev k e v)"

text \<open>Traversals and the checks the source's own tests run.\<close>

definition node_link :: "('k, 'v) rbtree \<Rightarrow> nat \<Rightarrow> ('k, 'v) node option res" where
  "node_link t i = (if i = NIL then Inr None else rbind (node_at t i) (\<lambda>n. Inr (Some n)))"

partial_function (option) preorder_keys_internal ::
  "('k, 'v) rbtree \<Rightarrow> ('k, 'v) node option \<Rightarrow> 'k list run" where
  [code]: "preorder_keys_internal t link =
     (case link of
        None \<Rightarrow> Some (Inr [])
      | Some n \<Rightarrow>
          run_bind (Some (node_link t (left_node n))) (\<lambda>l.
          run_bind (preorder_keys_internal t l) (\<lambda>left_tree_list.
          run_bind (Some (node_link t (right_node n))) (\<lambda>r.
          run_bind (preorder_keys_internal t r) (\<lambda>right_tree_list.
            Some (Inr (node_start n # left_tree_list @ right_tree_list)))))))"

partial_function (option) inorder_keys_internal ::
  "('k, 'v) rbtree \<Rightarrow> ('k, 'v) node option \<Rightarrow> 'k list run" where
  [code]: "inorder_keys_internal t link =
     (case link of
        None \<Rightarrow> Some (Inr [])
      | Some n \<Rightarrow>
          run_bind (Some (node_link t (left_node n))) (\<lambda>l.
          run_bind (inorder_keys_internal t l) (\<lambda>left_tree_list.
          run_bind (Some (node_link t (right_node n))) (\<lambda>r.
          run_bind (inorder_keys_internal t r) (\<lambda>right_tree_list.
            Some (Inr (left_tree_list @ node_start n # right_tree_list)))))))"

definition to_preorder_keys :: "('k, 'v) rbtree \<Rightarrow> 'k list run" where
  "to_preorder_keys t =
     run_bind (Some (node_at t (root t))) (\<lambda>n. preorder_keys_internal t (Some n))"

definition to_inorder_keys :: "('k, 'v) rbtree \<Rightarrow> 'k list run" where
  "to_inorder_keys t =
     run_bind (Some (node_at t (root t))) (\<lambda>n. inorder_keys_internal t (Some n))"

definition assert_that :: "bool \<Rightarrow> unit run" where
  "assert_that b = Some (if b then Inr () else Inl (Explicit ''assertion failed''))"

definition assert_child_black :: "('k, 'v) rbtree \<Rightarrow> nat \<Rightarrow> unit run" where
  "assert_child_black t i =
     (if i \<noteq> NIL then run_bind (Some (node_at t i)) (\<lambda>n. assert_that (color n = BLACK))
      else Some (Inr ()))"

partial_function (option) assert_colors :: "('k, 'v) rbtree \<Rightarrow> nat \<Rightarrow> unit run" where
  [code]: "assert_colors t k =
     run_bind (Some (node_at t k)) (\<lambda>n.
     run_bind (if color n = RED then
                 run_bind (assert_child_black t (left_node n)) (\<lambda>_.
                   assert_child_black t (right_node n))
               else Some (Inr ())) (\<lambda>_.
     run_bind (if left_node n \<noteq> NIL then assert_colors t (left_node n) else Some (Inr ())) (\<lambda>_.
       if right_node n \<noteq> NIL then assert_colors t (right_node n) else Some (Inr ()))))"

partial_function (option) assert_black_count :: "('k, 'v) rbtree \<Rightarrow> nat \<Rightarrow> nat run" where
  [code]: "assert_black_count t k =
     run_bind (Some (node_at t k)) (\<lambda>n.
     run_bind (if left_node n = NIL then Some (Inr 1) else assert_black_count t (left_node n)) (\<lambda>left_count.
     run_bind (if right_node n = NIL then Some (Inr 1) else assert_black_count t (right_node n)) (\<lambda>right_count.
     run_bind (assert_that (right_count = left_count)) (\<lambda>_.
       Some (Inr (left_count + (case color n of RED \<Rightarrow> 0 | BLACK \<Rightarrow> 1)))))))"

definition assert_rbtree_invariants :: "('k, 'v) rbtree \<Rightarrow> unit run" where
  "assert_rbtree_invariants t =
     run_bind (if root t \<noteq> NIL then
                 run_bind (Some (node_at t (root t))) (\<lambda>n. assert_that (color n = BLACK))
               else Some (Inr ())) (\<lambda>_.
     run_bind (assert_black_count t (root t)) (\<lambda>_. assert_colors t (root t)))"

end
