(* ===== verification/Llrb_Arena.thy ===== *)
theory Llrb_Arena
  imports Llrb
begin

text \<open>
  The shape of the arena. \<open>rep t q i T\<close> says that the nodes reachable from index \<open>i\<close>
  form the tree of indices \<open>T\<close>, with every parent link right and \<open>q\<close> above the root;
  contexts with one hole (\<open>frame list\<close>, innermost frame first) say where in the whole tree
  a node stands. The rotations are shown to change the arena exactly as they change that tree.
\<close>

subsection \<open>Views of the arena\<close>

definition lft :: "('k, 'v) rbtree \<Rightarrow> nat \<Rightarrow> nat" where "lft t i = left_node (nodes t ! i)"
definition rgt :: "('k, 'v) rbtree \<Rightarrow> nat \<Rightarrow> nat" where "rgt t i = right_node (nodes t ! i)"
definition par :: "('k, 'v) rbtree \<Rightarrow> nat \<Rightarrow> nat" where "par t i = parent_node (nodes t ! i)"
definition col :: "('k, 'v) rbtree \<Rightarrow> nat \<Rightarrow> tree_color" where "col t i = color (nodes t ! i)"
definition item :: "('k, 'v) rbtree \<Rightarrow> nat \<Rightarrow> 'k \<times> 'k \<times> 'v" where
  "item t i = (let n = nodes t ! i in (node_start n, node_end n, node_value n))"
definition len :: "('k, 'v) rbtree \<Rightarrow> nat" where "len t = length (nodes t)"

lemmas views = lft_def rgt_def par_def col_def item_def len_def

lemma view_simps [simp]:
  "left_node (nodes t ! i) = lft t i" "right_node (nodes t ! i) = rgt t i"
  "parent_node (nodes t ! i) = par t i" "color (nodes t ! i) = col t i"
  "node_start (nodes t ! i) = fst (item t i)" "node_end (nodes t ! i) = fst (snd (item t i))"
  "node_value (nodes t ! i) = snd (snd (item t i))"
  by (simp_all add: views Let_def)

text \<open>Writes that stay in range, and their effect on the views.\<close>

definition wl :: "('k, 'v) rbtree \<Rightarrow> nat \<Rightarrow> nat \<Rightarrow> ('k, 'v) rbtree" where
  "wl t i j = t\<lparr>nodes := (nodes t)[i := (nodes t ! i)\<lparr>left_node := j\<rparr>]\<rparr>"
definition wr :: "('k, 'v) rbtree \<Rightarrow> nat \<Rightarrow> nat \<Rightarrow> ('k, 'v) rbtree" where
  "wr t i j = t\<lparr>nodes := (nodes t)[i := (nodes t ! i)\<lparr>right_node := j\<rparr>]\<rparr>"
definition wp :: "('k, 'v) rbtree \<Rightarrow> nat \<Rightarrow> nat \<Rightarrow> ('k, 'v) rbtree" where
  "wp t i j = t\<lparr>nodes := (nodes t)[i := (nodes t ! i)\<lparr>parent_node := j\<rparr>]\<rparr>"
definition wc :: "('k, 'v) rbtree \<Rightarrow> nat \<Rightarrow> tree_color \<Rightarrow> ('k, 'v) rbtree" where
  "wc t i c = t\<lparr>nodes := (nodes t)[i := (nodes t ! i)\<lparr>color := c\<rparr>]\<rparr>"

lemma node_at_ok [simp]: "i < len t \<Longrightarrow> node_at t i = Inr (nodes t ! i)"
  by (simp add: node_at_def len_def)

lemma puts_ok [simp]:
  "i < len t \<Longrightarrow> put_left t i j = Inr (wl t i j)"
  "i < len t \<Longrightarrow> put_right t i j = Inr (wr t i j)"
  "i < len t \<Longrightarrow> put_parent t i j = Inr (wp t i j)"
  "i < len t \<Longrightarrow> put_color t i c = Inr (wc t i c)"
  by (simp_all add: put_left_def put_right_def put_parent_def put_color_def upd_node_def
      wl_def wr_def wp_def wc_def)

lemma view_wl [simp]:
  "i < len t \<Longrightarrow> lft (wl t i j) = (lft t)(i := j)"
  "i < len t \<Longrightarrow> rgt (wl t i j) = rgt t" "i < len t \<Longrightarrow> par (wl t i j) = par t"
  "i < len t \<Longrightarrow> col (wl t i j) = col t" "i < len t \<Longrightarrow> item (wl t i j) = item t"
  "len (wl t i j) = len t" "root (wl t i j) = root t"
  by (auto simp: views wl_def Let_def fun_eq_iff nth_list_update simp del: view_simps)

lemma view_wr [simp]:
  "i < len t \<Longrightarrow> rgt (wr t i j) = (rgt t)(i := j)"
  "i < len t \<Longrightarrow> lft (wr t i j) = lft t" "i < len t \<Longrightarrow> par (wr t i j) = par t"
  "i < len t \<Longrightarrow> col (wr t i j) = col t" "i < len t \<Longrightarrow> item (wr t i j) = item t"
  "len (wr t i j) = len t" "root (wr t i j) = root t"
  by (auto simp: views wr_def Let_def fun_eq_iff nth_list_update simp del: view_simps)

lemma view_wp [simp]:
  "i < len t \<Longrightarrow> par (wp t i j) = (par t)(i := j)"
  "i < len t \<Longrightarrow> lft (wp t i j) = lft t" "i < len t \<Longrightarrow> rgt (wp t i j) = rgt t"
  "i < len t \<Longrightarrow> col (wp t i j) = col t" "i < len t \<Longrightarrow> item (wp t i j) = item t"
  "len (wp t i j) = len t" "root (wp t i j) = root t"
  by (auto simp: views wp_def Let_def fun_eq_iff nth_list_update simp del: view_simps)

lemma view_wc [simp]:
  "i < len t \<Longrightarrow> col (wc t i c) = (col t)(i := c)"
  "i < len t \<Longrightarrow> lft (wc t i c) = lft t" "i < len t \<Longrightarrow> rgt (wc t i c) = rgt t"
  "i < len t \<Longrightarrow> par (wc t i c) = par t" "i < len t \<Longrightarrow> item (wc t i c) = item t"
  "len (wc t i c) = len t" "root (wc t i c) = root t"
  by (auto simp: views wc_def Let_def fun_eq_iff nth_list_update simp del: view_simps)

lemma view_root [simp]:
  "lft (t\<lparr>root := j\<rparr>) = lft t" "rgt (t\<lparr>root := j\<rparr>) = rgt t" "par (t\<lparr>root := j\<rparr>) = par t"
  "col (t\<lparr>root := j\<rparr>) = col t" "item (t\<lparr>root := j\<rparr>) = item t" "len (t\<lparr>root := j\<rparr>) = len t"
  by (auto simp: views Let_def fun_eq_iff simp del: view_simps)

lemma view_add [simp]:
  "add_node t n = (i, t') \<Longrightarrow> i = len t"
  "add_node t n = (i, t') \<Longrightarrow> len t' = Suc (len t)"
  "add_node t n = (i, t') \<Longrightarrow> root t' = root t"
  "add_node t n = (i, t') \<Longrightarrow> j < len t \<Longrightarrow> nodes t' ! j = nodes t ! j"
  "add_node t n = (i, t') \<Longrightarrow> nodes t' ! i = n"
  by (auto simp: add_node_def len_def nth_append)

subsection \<open>Rotations\<close>

text \<open>Arenas that differ in their links only.\<close>

definition same_data :: "('k, 'v) rbtree \<Rightarrow> ('k, 'v) rbtree \<Rightarrow> bool" where
  "same_data t t' \<longleftrightarrow> len t' = len t \<and> col t' = col t \<and> item t' = item t"

text \<open>
  \<open>set_left\<close> and \<open>set_right\<close> on a node that has no parent, or whose parent is another
  node than the new one.
\<close>

lemma set_right_views:
  assumes "len t \<le> NIL" "p < len t" "x < len t" "par t x \<noteq> NIL \<Longrightarrow> par t x < len t \<and> par t x \<noteq> p"
    and "rgt t p \<noteq> NIL \<Longrightarrow> rgt t p < len t"
  shows "\<exists>t'. set_right t p x = Inr t' \<and> same_data t t' \<and> root t' = root t \<and>
    rgt t' = (if par t x \<noteq> NIL \<and> lft t (par t x) \<noteq> x then (rgt t)(par t x := NIL, p := x) else (rgt t)(p := x)) \<and>
    lft t' = (if par t x \<noteq> NIL \<and> lft t (par t x) = x then (lft t)(par t x := NIL) else lft t) \<and>
    par t' = (if rgt t p \<noteq> NIL then (par t)(rgt t p := NIL, x := p) else (par t)(x := p))"
  using assms
  by (cases "par t x = NIL"; cases "rgt t p = NIL"; cases "lft t (par t x) = x")
    (simp_all add: set_right_def detach_def Let_def same_data_def)

lemma set_left_views:
  assumes "len t \<le> NIL" "p < len t" "x < len t" "par t x \<noteq> NIL \<Longrightarrow> par t x < len t \<and> par t x \<noteq> p"
    and "lft t p \<noteq> NIL \<Longrightarrow> lft t p < len t"
  shows "\<exists>t'. set_left t p x = Inr t' \<and> same_data t t' \<and> root t' = root t \<and>
    rgt t' = (if par t x \<noteq> NIL \<and> lft t (par t x) \<noteq> x then (rgt t)(par t x := NIL) else rgt t) \<and>
    lft t' = (if par t x \<noteq> NIL \<and> lft t (par t x) = x then (lft t)(par t x := NIL, p := x) else (lft t)(p := x)) \<and>
    par t' = (if lft t p \<noteq> NIL then (par t)(lft t p := NIL, x := p) else (par t)(x := p))"
  using assms
  by (cases "par t x = NIL"; cases "lft t p = NIL"; cases "lft t (par t x) = x")
    (simp_all add: set_left_def detach_def Let_def same_data_def)

lemma left_rotate_top:
  assumes "len t \<le> NIL" "k < len t" "y < len t" "rgt t k = y" "y \<noteq> k" "lft t k \<noteq> y" "par t y = k"
    and "p \<noteq> NIL \<longrightarrow> p < len t \<and> p \<noteq> k \<and> p \<noteq> y \<and> (rgt t p = k) \<noteq> (lft t p = k)"
  shows "\<exists>t1. (if p = NIL then put_parent (t\<lparr>root := y\<rparr>) y NIL
            else rbind (node_at t p) (\<lambda>pn. if right_node pn = k then set_right t p y else set_left t p y))
        = Inr t1 \<and> same_data t t1 \<and> root t1 = (if p = NIL then y else root t) \<and>
     rgt t1 = (if p = NIL then rgt t else if rgt t p = k then (rgt t)(k := NIL, p := y) else (rgt t)(k := NIL)) \<and>
     lft t1 = (if p \<noteq> NIL \<and> rgt t p \<noteq> k then (lft t)(p := y) else lft t) \<and>
     par t1 = (if p = NIL then (par t)(y := NIL) else (par t)(k := NIL, y := p))"
proof (cases "p = NIL")
  case False
  with assms(8) have p: "p < len t" "p \<noteq> k" "p \<noteq> y" "(rgt t p = k) \<noteq> (lft t p = k)" by auto
  show ?thesis
  proof (cases "rgt t p = k")
    case True
    with set_right_views[OF assms(1) p(1) assms(3)] assms p show ?thesis by auto
  next
    case False
    with set_left_views[OF assms(1) p(1) assms(3)] assms p show ?thesis by auto
  qed
qed (use assms in \<open>simp add: same_data_def\<close>)

lemma right_rotate_top:
  assumes "len t \<le> NIL" "k < len t" "y < len t" "lft t k = y" "y \<noteq> k" "par t y = k"
    and "p \<noteq> NIL \<longrightarrow> p < len t \<and> p \<noteq> k \<and> p \<noteq> y \<and> (rgt t p = k) \<noteq> (lft t p = k)"
  shows "\<exists>t1. (if p = NIL then put_parent (t\<lparr>root := y\<rparr>) y NIL
            else rbind (node_at t p) (\<lambda>pn. if right_node pn = k then set_right t p y else set_left t p y))
        = Inr t1 \<and> same_data t t1 \<and> root t1 = (if p = NIL then y else root t) \<and>
     lft t1 = (if p = NIL then lft t else if rgt t p \<noteq> k then (lft t)(k := NIL, p := y) else (lft t)(k := NIL)) \<and>
     rgt t1 = (if p \<noteq> NIL \<and> rgt t p = k then (rgt t)(p := y) else rgt t) \<and>
     par t1 = (if p = NIL then (par t)(y := NIL) else (par t)(k := NIL, y := p))"
proof (cases "p = NIL")
  case False
  with assms(7) have p: "p < len t" "p \<noteq> k" "p \<noteq> y" "(rgt t p = k) \<noteq> (lft t p = k)" by auto
  show ?thesis
  proof (cases "rgt t p = k")
    case True
    with set_right_views[OF assms(1) p(1) assms(3)] assms p show ?thesis by auto
  next
    case False
    with set_left_views[OF assms(1) p(1) assms(3)] assms p show ?thesis by auto
  qed
qed (use assms in \<open>simp add: same_data_def\<close>)

lemma left_rotate_views:
  assumes "len t \<le> NIL" "k < len t" "rgt t k = y" "y < len t" "par t k = p" "lft t y = b" "par t y = k"
    and "y \<noteq> k" "p \<noteq> NIL \<Longrightarrow> p < len t \<and> p \<noteq> k \<and> p \<noteq> y \<and> (rgt t p = k) \<noteq> (lft t p = k)"
    and "lft t k \<noteq> y"
    and "b \<noteq> NIL \<Longrightarrow> b < len t \<and> b \<noteq> k \<and> b \<noteq> y \<and> b \<noteq> p \<and> par t b = y"
  shows "\<exists>t'. left_rotate t k = Inr t' \<and> same_data t t' \<and> root t' = (if p = NIL then y else root t) \<and>
    rgt t' = (if p \<noteq> NIL \<and> rgt t p = k then (rgt t)(p := y, k := b) else (rgt t)(k := b)) \<and>
    lft t' = (if p \<noteq> NIL \<and> rgt t p \<noteq> k then (lft t)(p := y, y := k) else (lft t)(y := k)) \<and>
    par t' = (if b = NIL then (par t)(y := p, k := y) else (par t)(y := p, k := y, b := k))"
proof -
  have p: "p \<noteq> NIL \<longrightarrow> p < len t \<and> p \<noteq> k \<and> p \<noteq> y \<and> (rgt t p = k) \<noteq> (lft t p = k)"
    using assms(9) by blast
  obtain t1 where t1: "(if p = NIL then put_parent (t\<lparr>root := y\<rparr>) y NIL
            else rbind (node_at t p) (\<lambda>pn. if right_node pn = k then set_right t p y else set_left t p y))
        = Inr t1" "same_data t t1" "root t1 = (if p = NIL then y else root t)"
    "rgt t1 = (if p = NIL then rgt t else if rgt t p = k then (rgt t)(k := NIL, p := y) else (rgt t)(k := NIL))"
    "lft t1 = (if p \<noteq> NIL \<and> rgt t p \<noteq> k then (lft t)(p := y) else lft t)"
    "par t1 = (if p = NIL then (par t)(y := NIL) else (par t)(k := NIL, y := p))"
    using left_rotate_top[OF assms(1,2,4,3,8,10,7) p] by (elim exE conjE) rule
  then have len1: "len t1 = len t" by (simp add: same_data_def)
  have at1: "par t1 k = NIL" "lft t1 y = b" "p \<noteq> NIL \<Longrightarrow> p \<noteq> y"
    using t1 assms by auto
  obtain t2 where t2: "set_left t1 y k = Inr t2" "same_data t1 t2" "root t2 = root t1"
    "rgt t2 = rgt t1" "lft t2 = (lft t1)(y := k)"
    "par t2 = (if b \<noteq> NIL then (par t1)(b := NIL, k := y) else (par t1)(k := y))"
    using set_left_views[of t1 y k, unfolded len1 at1(1,2)] assms(1,2,4,11) by auto
  have "left_rotate t k =
      rbind (if p = NIL then put_parent (t\<lparr>root := y\<rparr>) y NIL
             else rbind (node_at t p) (\<lambda>pn. if right_node pn = k then set_right t p y else set_left t p y))
        (\<lambda>t1. rbind (set_left t1 y k) (\<lambda>t2. set_right t2 k b))"
    using assms(2-6) by (simp add: left_rotate_def Let_def cong: if_cong)
  then have rot: "left_rotate t k = set_right t2 k b"
    by (simp only: t1(1) t2(1) rbind_Inr)
  have len2: "len t2 = len t" using t2(2) len1 by (simp add: same_data_def)
  show ?thesis
  proof (cases "b = NIL")
    case True
    then show ?thesis
      using rot t1 t2 assms(1,2,5,8,9) len2
      by (cases "p = NIL") (auto simp: set_right_def same_data_def fun_eq_iff)
  next
    case False
    then have b: "b < len t" "b \<noteq> k" "b \<noteq> y" "b \<noteq> p" using assms(11) by auto
    then have at2: "par t2 b = NIL" "rgt t2 k = (if p = NIL then y else NIL)"
      using False t1 t2 assms by auto
    obtain t' where "set_right t2 k b = Inr t'" "same_data t2 t'" "root t' = root t2"
      "rgt t' = (rgt t2)(k := b)" "lft t' = lft t2"
      "par t' = (if p = NIL then (par t2)(y := NIL, b := k) else (par t2)(b := k))"
      using set_right_views[of t2 k b] at2 b assms(1,2,4) len2 by (cases "p = NIL") auto
    then show ?thesis
      using rot t1 t2 assms(5,8,9) b False
      by (cases "p = NIL") (auto simp: same_data_def fun_eq_iff)
  qed
qed

lemma right_rotate_views:
  assumes "len t \<le> NIL" "k < len t" "lft t k = y" "y < len t" "par t k = p" "rgt t y = b" "par t y = k"
    and "y \<noteq> k" "p \<noteq> NIL \<Longrightarrow> p < len t \<and> p \<noteq> k \<and> p \<noteq> y \<and> (rgt t p = k) \<noteq> (lft t p = k)"
    and "b \<noteq> NIL \<Longrightarrow> b < len t \<and> b \<noteq> k \<and> b \<noteq> y \<and> b \<noteq> p \<and> par t b = y"
  shows "\<exists>t'. right_rotate t k = Inr t' \<and> same_data t t' \<and> root t' = (if p = NIL then y else root t) \<and>
    rgt t' = (if p \<noteq> NIL \<and> rgt t p = k then (rgt t)(p := y, y := k) else (rgt t)(y := k)) \<and>
    lft t' = (if p \<noteq> NIL \<and> rgt t p \<noteq> k then (lft t)(p := y, k := b) else (lft t)(k := b)) \<and>
    par t' = (if b = NIL then (par t)(y := p, k := y) else (par t)(y := p, k := y, b := k))"
proof -
  have p: "p \<noteq> NIL \<longrightarrow> p < len t \<and> p \<noteq> k \<and> p \<noteq> y \<and> (rgt t p = k) \<noteq> (lft t p = k)"
    using assms(9) by blast
  obtain t1 where t1: "(if p = NIL then put_parent (t\<lparr>root := y\<rparr>) y NIL
            else rbind (node_at t p) (\<lambda>pn. if right_node pn = k then set_right t p y else set_left t p y))
        = Inr t1" "same_data t t1" "root t1 = (if p = NIL then y else root t)"
    "lft t1 = (if p = NIL then lft t else if rgt t p \<noteq> k then (lft t)(k := NIL, p := y) else (lft t)(k := NIL))"
    "rgt t1 = (if p \<noteq> NIL \<and> rgt t p = k then (rgt t)(p := y) else rgt t)"
    "par t1 = (if p = NIL then (par t)(y := NIL) else (par t)(k := NIL, y := p))"
    using right_rotate_top[OF assms(1,2,4,3,8,7) p] by (elim exE conjE) rule
  then have len1: "len t1 = len t" by (simp add: same_data_def)
  have at1: "par t1 k = NIL" "rgt t1 y = b" "p \<noteq> NIL \<Longrightarrow> p \<noteq> y"
    using t1 assms by auto
  obtain t2 where t2: "set_right t1 y k = Inr t2" "same_data t1 t2" "root t2 = root t1"
    "lft t2 = lft t1" "rgt t2 = (rgt t1)(y := k)"
    "par t2 = (if b \<noteq> NIL then (par t1)(b := NIL, k := y) else (par t1)(k := y))"
    using set_right_views[of t1 y k, unfolded len1 at1(1,2)] assms(1,2,4,10) by auto
  have "right_rotate t k =
      rbind (if p = NIL then put_parent (t\<lparr>root := y\<rparr>) y NIL
             else rbind (node_at t p) (\<lambda>pn. if right_node pn = k then set_right t p y else set_left t p y))
        (\<lambda>t1. rbind (set_right t1 y k) (\<lambda>t2. set_left t2 k b))"
    using assms(2-6) by (simp add: right_rotate_def Let_def cong: if_cong)
  then have rot: "right_rotate t k = set_left t2 k b"
    by (simp only: t1(1) t2(1) rbind_Inr)
  have len2: "len t2 = len t" using t2(2) len1 by (simp add: same_data_def)
  show ?thesis
  proof (cases "b = NIL")
    case True
    then show ?thesis
      using rot t1 t2 assms(1,2,5,8,9) len2
      by (cases "p = NIL") (auto simp: set_left_def same_data_def fun_eq_iff)
  next
    case False
    then have b: "b < len t" "b \<noteq> k" "b \<noteq> y" "b \<noteq> p" using assms(10) by auto
    then have at2: "par t2 b = NIL" "lft t2 k = (if p = NIL then y else NIL)"
      using False t1 t2 assms by auto
    obtain t' where "set_left t2 k b = Inr t'" "same_data t2 t'" "root t' = root t2"
      "lft t' = (lft t2)(k := b)" "rgt t' = rgt t2"
      "par t' = (if p = NIL then (par t2)(y := NIL, b := k) else (par t2)(b := k))"
      using set_left_views[of t2 k b] at2 b assms(1,2,4) len2 by (cases "p = NIL") auto
    then show ?thesis
      using rot t1 t2 assms(5,8,9) b False
      by (cases "p = NIL") (auto simp: same_data_def fun_eq_iff)
  qed
qed

subsection \<open>Trees of indices\<close>

fun rep :: "('k, 'v) rbtree \<Rightarrow> nat \<Rightarrow> nat \<Rightarrow> nat tree \<Rightarrow> bool" where
  "rep t q i Leaf \<longleftrightarrow> i = NIL"
| "rep t q i (Node l n r) \<longleftrightarrow>
     i = n \<and> n < len t \<and> par t n = q \<and> rep t n (lft t n) l \<and> rep t n (rgt t n) r"

datatype frame = LF nat "nat tree" | RF "nat tree" nat

fun fill :: "frame \<Rightarrow> nat tree \<Rightarrow> nat tree" where
  "fill (LF n r) s = Node s n r"
| "fill (RF l n) s = Node l n s"

fun plug :: "frame list \<Rightarrow> nat tree \<Rightarrow> nat tree" where
  "plug [] s = s"
| "plug (f # c) s = plug c (fill f s)"

fun frame_idx :: "frame \<Rightarrow> nat" where
  "frame_idx (LF n r) = n"
| "frame_idx (RF l n) = n"

fun frame_sib :: "frame \<Rightarrow> nat tree" where
  "frame_sib (LF n r) = r"
| "frame_sib (RF l n) = l"

fun lefts :: "frame list \<Rightarrow> nat list" where
  "lefts [] = []"
| "lefts (LF n r # c) = lefts c"
| "lefts (RF l n # c) = lefts c @ inorder l @ [n]"

fun rights :: "frame list \<Rightarrow> nat list" where
  "rights [] = []"
| "rights (LF n r # c) = n # inorder r @ rights c"
| "rights (RF l n # c) = rights c"

lemma inorder_plug: "inorder (plug c s) = lefts c @ inorder s @ rights c"
proof (induction c arbitrary: s)
  case (Cons f c)
  then show ?case by (cases f) auto
qed simp

definition ctx_parent :: "nat \<Rightarrow> frame list \<Rightarrow> nat" where
  "ctx_parent q c = (case c of [] \<Rightarrow> q | f # _ \<Rightarrow> frame_idx f)"

lemma ctx_parent_simps [simp]: "ctx_parent q [] = q" "ctx_parent q (f # c) = frame_idx f"
  by (simp_all add: ctx_parent_def)

text \<open>The context part of \<open>rep t q i (plug c s)\<close>, \<open>j\<close> being the index at the hole.\<close>

fun rep_ctx :: "('k, 'v) rbtree \<Rightarrow> nat \<Rightarrow> nat \<Rightarrow> frame list \<Rightarrow> nat \<Rightarrow> bool" where
  "rep_ctx t q i [] j \<longleftrightarrow> i = j"
| "rep_ctx t q i (LF n r # c) j \<longleftrightarrow>
     n < len t \<and> par t n = ctx_parent q c \<and> lft t n = j \<and> rep t n (rgt t n) r \<and> rep_ctx t q i c n"
| "rep_ctx t q i (RF l n # c) j \<longleftrightarrow>
     n < len t \<and> par t n = ctx_parent q c \<and> rgt t n = j \<and> rep t n (lft t n) l \<and> rep_ctx t q i c n"

lemma rep_plug: "rep t q i (plug c s) \<longleftrightarrow> (\<exists>j. rep_ctx t q i c j \<and> rep t (ctx_parent q c) j s)"
proof (induction c arbitrary: s)
  case (Cons f c)
  then show ?case by (cases f) auto
qed auto

definition same_links :: "('k, 'v) rbtree \<Rightarrow> ('k, 'v) rbtree \<Rightarrow> nat \<Rightarrow> bool" where
  "same_links t t' n \<longleftrightarrow> lft t' n = lft t n \<and> rgt t' n = rgt t n \<and> par t' n = par t n"

lemma rep_cong:
  assumes "rep t q i s" "len t \<le> len t'" "\<And>n. n \<in> set (inorder s) \<Longrightarrow> same_links t t' n"
  shows "rep t' q i s"
  using assms by (induction s arbitrary: q i) (auto simp: same_links_def)

lemma rep_ctx_cong:
  assumes "rep_ctx t q i c j" "len t \<le> len t'"
    "\<And>n. n \<in> set (lefts c) \<union> set (rights c) \<Longrightarrow> same_links t t' n"
  shows "rep_ctx t' q i c j"
  using assms
proof (induction c arbitrary: j)
  case (Cons f c)
  then show ?case
    by (cases f) (auto simp: same_links_def intro: rep_cong)
qed simp

lemma rep_bounds: "rep t q i s \<Longrightarrow> n \<in> set (inorder s) \<Longrightarrow> n < len t"
  by (induction s arbitrary: q i) auto

lemma rep_ctx_bounds:
  "rep_ctx t q i c j \<Longrightarrow> n \<in> set (lefts c) \<union> set (rights c) \<Longrightarrow> n < len t"
proof (induction c arbitrary: j)
  case (Cons f c)
  then show ?case by (cases f) (auto dest: rep_bounds)
qed simp

text \<open>A subtree that only gets another parent.\<close>

lemma rep_reparent:
  assumes "rep t q i s" "distinct (inorder s)" "len t \<le> len t'"
    and "\<And>n. n \<in> set (inorder s) \<Longrightarrow> n \<noteq> i \<Longrightarrow> same_links t t' n"
    and "s \<noteq> Leaf \<Longrightarrow> lft t' i = lft t i \<and> rgt t' i = rgt t i \<and> par t' i = q'"
  shows "rep t' q' i s"
proof (cases s)
  case (Node l n r)
  with assms have "rep t' n (lft t n) l" "rep t' n (rgt t n) r"
    by (auto intro!: rep_cong[of t n _ l t'] rep_cong[of t n _ r t'] assms(4))
  with assms Node show ?thesis by auto
qed (use assms in auto)

lemma rep_index:
  assumes "rep t q i s" "len t \<le> NIL"
  shows "s \<noteq> Leaf \<longleftrightarrow> i \<noteq> NIL" "i < len t \<Longrightarrow> i \<in> set (inorder s)"
    "i \<noteq> NIL \<Longrightarrow> i < len t \<and> par t i = q \<and> i \<in> set (inorder s)"
  using assms by (cases s; auto)+

lemma ctx_parent_facts:
  assumes "rep_ctx t NIL i c k" "len t \<le> NIL" "k < len t" "k \<notin> set (lefts c) \<union> set (rights c)"
    and "ctx_parent NIL c \<noteq> NIL"
  shows "ctx_parent NIL c < len t" "ctx_parent NIL c \<in> set (lefts c) \<union> set (rights c)"
    "(rgt t (ctx_parent NIL c) = k) \<noteq> (lft t (ctx_parent NIL c) = k)"
proof -
  obtain f c' where c: "c = f # c'" using assms(5) by (cases c) auto
  show "ctx_parent NIL c < len t" "ctx_parent NIL c \<in> set (lefts c) \<union> set (rights c)"
    using assms(1) c by (cases f; auto)+
  show "(rgt t (ctx_parent NIL c) = k) \<noteq> (lft t (ctx_parent NIL c) = k)"
    using assms(1-4) c rep_index(2)[of t "frame_idx f" k "frame_sib f"] by (cases f) auto
qed

lemma ctx_parent_NIL:
  assumes "rep_ctx t NIL i c k" "len t \<le> NIL"
  shows "ctx_parent NIL c = NIL \<longleftrightarrow> c = []"
proof (cases c)
  case (Cons f c')
  with assms show ?thesis by (cases f) auto
qed simp

text \<open>
  What a context keeps when the index \<open>k\<close> at its hole becomes \<open>y\<close>: the link to the hole
  moves, all other links of the context stay.
\<close>

lemma rep_ctx_hole:
  fixes t t' :: "('k, 'v) rbtree"
  assumes "rep_ctx t NIL i c k" "len t \<le> NIL" "len t \<le> len t'" "k < len t"
    and "distinct (lefts c @ k # rights c)"
    and "c = [] \<Longrightarrow> i' = y" "c \<noteq> [] \<Longrightarrow> i' = i"
    and "\<And>n. n \<in> set (lefts c) \<union> set (rights c) \<Longrightarrow> par t' n = par t n \<and>
           rgt t' n = (if n = ctx_parent NIL c \<and> rgt t n = k then y else rgt t n) \<and>
           lft t' n = (if n = ctx_parent NIL c \<and> rgt t n \<noteq> k then y else lft t n)"
  shows "rep_ctx t' NIL i' c y"
proof (cases c)
  case (Cons f c')
  let ?n = "frame_idx f"
  have upper: "rep_ctx t NIL i c' ?n"
    using assms(1) Cons by (cases f) auto
  have "rep_ctx t' NIL i c' ?n"
  proof (rule rep_ctx_cong[OF upper assms(3)])
    fix n
    assume "n \<in> set (lefts c') \<union> set (rights c')"
    with assms(5,8) Cons show "same_links t t' n"
      by (cases f) (auto simp: same_links_def)
  qed
  moreover have "rep t' ?n j (frame_sib f)" if "rep t ?n j (frame_sib f)" for j
    using that assms(3)
  proof (rule rep_cong)
    fix n
    assume "n \<in> set (inorder (frame_sib f))"
    with assms(5,8) Cons show "same_links t t' n"
      by (cases f) (auto simp: same_links_def)
  qed
  moreover have "?n \<in> set (lefts c) \<union> set (rights c)" and "ctx_parent NIL c = ?n"
    using Cons by (cases f; simp)+
  moreover have "(rgt t ?n = k) \<noteq> (lft t ?n = k)"
    using ctx_parent_facts(3)[OF assms(1,2,4)] assms(5) ctx_parent_NIL[OF assms(1,2)] Cons by auto
  ultimately show ?thesis
    using assms(1,3,7) assms(8)[of ?n] Cons by (cases f) auto
qed (use assms in simp)

text \<open>The whole tree: the indices below the root, without repetition, in an arena below \<open>NIL\<close>.\<close>

definition shape :: "('k, 'v) rbtree \<Rightarrow> nat tree \<Rightarrow> bool" where
  "shape t T \<longleftrightarrow> rep t NIL (root t) T \<and> distinct (inorder T) \<and> len t \<le> NIL"

lemma left_rotate_rep:
  assumes "shape t (plug c (Node a k (Node b y d)))"
  shows "\<exists>t'. left_rotate t k = Inr t' \<and> shape t' (plug c (Node (Node a k b) y d)) \<and> same_data t t'"
proof -
  let ?p = "ctx_parent NIL c" and ?b = "lft t y"
  have len: "len t \<le> NIL" and dist: "distinct (lefts c @ inorder (Node a k (Node b y d)) @ rights c)"
    and ctx: "rep_ctx t NIL (root t) c k" and k: "k < len t" "par t k = ?p" "rgt t k = y" "rep t k (lft t k) a"
    and y: "y < len t" "par t y = k" "rep t y ?b b" "rep t y (rgt t y) d"
    using assms by (auto simp: shape_def rep_plug inorder_plug)
  have pc: "?p = NIL \<longleftrightarrow> c = []" by (rule ctx_parent_NIL[OF ctx len])
  have p: "?p < len t \<and> ?p \<in> set (lefts c) \<union> set (rights c) \<and> (rgt t ?p = k) \<noteq> (lft t ?p = k)"
    if "?p \<noteq> NIL"
    using ctx_parent_facts[OF ctx len k(1) _ that] dist by auto
  have b: "?b < len t \<and> ?b \<in> set (inorder b) \<and> par t ?b = y" if "?b \<noteq> NIL"
    using rep_index(3)[OF y(3) len that] by simp
  have yk: "y \<noteq> k" using dist by auto
  have pk: "?p < len t \<and> ?p \<noteq> k \<and> ?p \<noteq> y \<and> (rgt t ?p = k) \<noteq> (lft t ?p = k)" if "?p \<noteq> NIL"
    using p[OF that] dist by auto
  have bk: "?b < len t \<and> ?b \<noteq> k \<and> ?b \<noteq> y \<and> ?b \<noteq> ?p \<and> par t ?b = y" if "?b \<noteq> NIL"
    using b[OF that] p pc dist that by (cases "?p = NIL") auto
  have "lft t k \<noteq> y"
    using rep_index(2)[OF k(4) len] y(1) dist by auto
  then obtain t' where t': "left_rotate t k = Inr t'" "same_data t t'"
    "root t' = (if ?p = NIL then y else root t)"
    "rgt t' = (if ?p \<noteq> NIL \<and> rgt t ?p = k then (rgt t)(?p := y, k := ?b) else (rgt t)(k := ?b))"
    "lft t' = (if ?p \<noteq> NIL \<and> rgt t ?p \<noteq> k then (lft t)(?p := y, y := k) else (lft t)(y := k))"
    "par t' = (if ?b = NIL then (par t)(y := ?p, k := y) else (par t)(y := ?p, k := y, ?b := k))"
    using left_rotate_views[OF len k(1,3) y(1) k(2) refl y(2) yk pk _ bk] by blast
  have len': "len t' = len t" using t'(2) by (simp add: same_data_def)
  have off: "n \<noteq> k" "n \<noteq> y" "n \<noteq> ?b" if "n \<in> set (lefts c) \<union> set (rights c)" for n
    using dist b rep_ctx_bounds[OF ctx that] len that by (cases "?b = NIL"; auto)+
  have links: "same_links t t' n" if "n \<in> set (inorder a) \<union> set (inorder d)" for n
  proof -
    have "n < len t" using that rep_bounds[OF k(4)] rep_bounds[OF y(4)] by auto
    then have "n \<noteq> k" "n \<noteq> y" "n \<noteq> ?b" "n \<noteq> ?p"
      using that dist b p len by (cases "?b = NIL"; cases "?p = NIL"; auto)+
    then show ?thesis using t'(4-6) by (auto simp: same_links_def)
  qed
  have "rep_ctx t' NIL (root t') c y"
  proof (rule rep_ctx_hole[OF ctx len _ k(1)])
    show "c = [] \<Longrightarrow> root t' = y" "c \<noteq> [] \<Longrightarrow> root t' = root t" using t'(3) pc by simp_all
    fix n
    assume n: "n \<in> set (lefts c) \<union> set (rights c)"
    then have "?p \<noteq> NIL" using pc by auto
    then show "par t' n = par t n \<and>
        rgt t' n = (if n = ?p \<and> rgt t n = k then y else rgt t n) \<and>
        lft t' n = (if n = ?p \<and> rgt t n \<noteq> k then y else lft t n)"
      using off[OF n] t'(4-6) by auto
  qed (use len' dist in auto)
  moreover have "rep t' k (lft t k) a" "rep t' y (rgt t y) d"
    using len' links by (auto intro!: rep_cong[OF k(4)] rep_cong[OF y(4)])
  moreover have "rep t' k ?b b"
    by (rule rep_reparent[OF y(3)])
      (use t' len' p b dist rep_index(1)[OF y(3) len] in \<open>auto simp: same_links_def\<close>)
  moreover have "lft t' y = k" "lft t' k = lft t k" "rgt t' y = rgt t y" "rgt t' k = ?b"
    "par t' y = ?p" "par t' k = y"
    using t' p b dist by auto
  ultimately have "shape t' (plug c (Node (Node a k b) y d))"
    using len' k(1) y(1) len dist by (auto simp: shape_def rep_plug inorder_plug)
  with t' show ?thesis by auto
qed

lemma right_rotate_rep:
  assumes "shape t (plug c (Node (Node a y b) k d))"
  shows "\<exists>t'. right_rotate t k = Inr t' \<and> shape t' (plug c (Node a y (Node b k d))) \<and> same_data t t'"
proof -
  let ?p = "ctx_parent NIL c" and ?b = "rgt t y"
  have len: "len t \<le> NIL" and dist: "distinct (lefts c @ inorder (Node (Node a y b) k d) @ rights c)"
    and ctx: "rep_ctx t NIL (root t) c k" and k: "k < len t" "par t k = ?p" "lft t k = y" "rep t k (rgt t k) d"
    and y: "y < len t" "par t y = k" "rep t y ?b b" "rep t y (lft t y) a"
    using assms by (auto simp: shape_def rep_plug inorder_plug)
  have pc: "?p = NIL \<longleftrightarrow> c = []" by (rule ctx_parent_NIL[OF ctx len])
  have p: "?p < len t \<and> ?p \<in> set (lefts c) \<union> set (rights c) \<and> (rgt t ?p = k) \<noteq> (lft t ?p = k)"
    if "?p \<noteq> NIL"
    using ctx_parent_facts[OF ctx len k(1) _ that] dist by auto
  have b: "?b < len t \<and> ?b \<in> set (inorder b) \<and> par t ?b = y" if "?b \<noteq> NIL"
    using rep_index(3)[OF y(3) len that] by simp
  have yk: "y \<noteq> k" using dist by auto
  have pk: "?p < len t \<and> ?p \<noteq> k \<and> ?p \<noteq> y \<and> (rgt t ?p = k) \<noteq> (lft t ?p = k)" if "?p \<noteq> NIL"
    using p[OF that] dist by auto
  have bk: "?b < len t \<and> ?b \<noteq> k \<and> ?b \<noteq> y \<and> ?b \<noteq> ?p \<and> par t ?b = y" if "?b \<noteq> NIL"
    using b[OF that] p pc dist that by (cases "?p = NIL") auto
  obtain t' where t': "right_rotate t k = Inr t'" "same_data t t'"
    "root t' = (if ?p = NIL then y else root t)"
    "rgt t' = (if ?p \<noteq> NIL \<and> rgt t ?p = k then (rgt t)(?p := y, y := k) else (rgt t)(y := k))"
    "lft t' = (if ?p \<noteq> NIL \<and> rgt t ?p \<noteq> k then (lft t)(?p := y, k := ?b) else (lft t)(k := ?b))"
    "par t' = (if ?b = NIL then (par t)(y := ?p, k := y) else (par t)(y := ?p, k := y, ?b := k))"
    using right_rotate_views[OF len k(1,3) y(1) k(2) refl y(2) yk pk bk] by blast
  have len': "len t' = len t" using t'(2) by (simp add: same_data_def)
  have off: "n \<noteq> k" "n \<noteq> y" "n \<noteq> ?b" if "n \<in> set (lefts c) \<union> set (rights c)" for n
    using dist b rep_ctx_bounds[OF ctx that] len that by (cases "?b = NIL"; auto)+
  have links: "same_links t t' n" if "n \<in> set (inorder a) \<union> set (inorder d)" for n
  proof -
    have "n < len t" using that rep_bounds[OF k(4)] rep_bounds[OF y(4)] by auto
    then have "n \<noteq> k" "n \<noteq> y" "n \<noteq> ?b" "n \<noteq> ?p"
      using that dist b p len by (cases "?b = NIL"; cases "?p = NIL"; auto)+
    then show ?thesis using t'(4-6) by (auto simp: same_links_def)
  qed
  have "rep_ctx t' NIL (root t') c y"
  proof (rule rep_ctx_hole[OF ctx len _ k(1)])
    show "c = [] \<Longrightarrow> root t' = y" "c \<noteq> [] \<Longrightarrow> root t' = root t" using t'(3) pc by simp_all
    fix n
    assume n: "n \<in> set (lefts c) \<union> set (rights c)"
    then have "?p \<noteq> NIL" using pc by auto
    then show "par t' n = par t n \<and>
        rgt t' n = (if n = ?p \<and> rgt t n = k then y else rgt t n) \<and>
        lft t' n = (if n = ?p \<and> rgt t n \<noteq> k then y else lft t n)"
      using off[OF n] t'(4-6) by auto
  qed (use len' dist in auto)
  moreover have "rep t' k (rgt t k) d" "rep t' y (lft t y) a"
    using len' links by (auto intro!: rep_cong[OF k(4)] rep_cong[OF y(4)])
  moreover have "rep t' k ?b b"
    by (rule rep_reparent[OF y(3)])
      (use t' len' p b dist rep_index(1)[OF y(3) len] in \<open>auto simp: same_links_def\<close>)
  moreover have "rgt t' y = k" "rgt t' k = rgt t k" "lft t' y = lft t y" "lft t' k = ?b"
    "par t' y = ?p" "par t' k = y"
    using t' p b dist by auto
  ultimately have "shape t' (plug c (Node a y (Node b k d)))"
    using len' k(1) y(1) len dist by (auto simp: shape_def rep_plug inorder_plug)
  with t' show ?thesis by auto
qed

end
