(* ===== verification/Llrb_Insert.thy ===== *)
theory Llrb_Insert
  imports Llrb_Arena
begin

text \<open>
  Insertion into the red-black tree: it returns, without a panic, a tree with the new item added
  in key order, and it restores the colour and black-height invariants.
\<close>

subsection \<open>The red-black invariants\<close>

lemma not_RED [simp]: "x \<noteq> RED \<longleftrightarrow> x = BLACK"
  by (cases x) auto

fun root_col :: "(nat \<Rightarrow> tree_color) \<Rightarrow> nat tree \<Rightarrow> tree_color" where
  "root_col c Leaf = BLACK"
| "root_col c (Node l n r) = c n"

fun invc :: "(nat \<Rightarrow> tree_color) \<Rightarrow> nat tree \<Rightarrow> bool" where
  "invc c Leaf \<longleftrightarrow> True"
| "invc c (Node l n r) \<longleftrightarrow>
     (c n = RED \<longrightarrow> root_col c l = BLACK \<and> root_col c r = BLACK) \<and> invc c l \<and> invc c r"

definition weight :: "tree_color \<Rightarrow> nat" where
  "weight x = (case x of RED \<Rightarrow> 0 | BLACK \<Rightarrow> 1)"

lemma weight_simps [simp]: "weight RED = 0" "weight BLACK = 1"
  by (simp_all add: weight_def)

fun bh :: "(nat \<Rightarrow> tree_color) \<Rightarrow> nat tree \<Rightarrow> nat" where
  "bh c Leaf = 1"
| "bh c (Node l n r) = bh c l + weight (c n)"

fun invh :: "(nat \<Rightarrow> tree_color) \<Rightarrow> nat tree \<Rightarrow> bool" where
  "invh c Leaf \<longleftrightarrow> True"
| "invh c (Node l n r) \<longleftrightarrow> invh c l \<and> invh c r \<and> bh c l = bh c r"

text \<open>The invariants of a context: of the tree around a hole of black height \<open>h\<close>.\<close>

fun cinvc :: "(nat \<Rightarrow> tree_color) \<Rightarrow> frame list \<Rightarrow> bool" where
  "cinvc c [] \<longleftrightarrow> True"
| "cinvc c (f # fs) \<longleftrightarrow>
     invc c (frame_sib f) \<and>
     (c (frame_idx f) = RED \<longrightarrow> root_col c (frame_sib f) = BLACK \<and>
        (fs \<noteq> [] \<longrightarrow> c (frame_idx (hd fs)) = BLACK)) \<and>
     cinvc c fs"

fun cinvh :: "(nat \<Rightarrow> tree_color) \<Rightarrow> frame list \<Rightarrow> nat \<Rightarrow> bool" where
  "cinvh c [] h \<longleftrightarrow> True"
| "cinvh c (f # fs) h \<longleftrightarrow>
     invh c (frame_sib f) \<and> bh c (frame_sib f) = h \<and> cinvh c fs (h + weight (c (frame_idx f)))"

lemma invc_plug:
  "invc c (plug fs s) \<longleftrightarrow>
     cinvc c fs \<and> invc c s \<and> (fs \<noteq> [] \<and> c (frame_idx (hd fs)) = RED \<longrightarrow> root_col c s = BLACK)"
proof (induction fs arbitrary: s)
  case (Cons f fs)
  then show ?case by (cases f) auto
qed simp

lemma invh_plug: "invh c (plug fs s) \<longleftrightarrow> cinvh c fs (bh c s) \<and> invh c s"
proof (induction fs arbitrary: s)
  case (Cons f fs)
  show ?case
  proof (cases f)
    case (RF l n)
    then show ?thesis using Cons[of "Node l n s"] by auto
  qed (use Cons in auto)
qed simp

text \<open>Only the colours of the nodes that occur matter.\<close>

lemma root_col_cong: "(\<And>n. n \<in> set (inorder s) \<Longrightarrow> c' n = c n) \<Longrightarrow> root_col c' s = root_col c s"
  by (cases s) auto

lemma bh_cong: "(\<And>n. n \<in> set (inorder s) \<Longrightarrow> c' n = c n) \<Longrightarrow> bh c' s = bh c s"
  by (induction s) auto

lemma invc_cong: "(\<And>n. n \<in> set (inorder s) \<Longrightarrow> c' n = c n) \<Longrightarrow> invc c' s = invc c s"
proof (induction s)
  case (Node l n r)
  then show ?case using root_col_cong[of l c' c] root_col_cong[of r c' c] by simp
qed simp

lemma invh_cong: "(\<And>n. n \<in> set (inorder s) \<Longrightarrow> c' n = c n) \<Longrightarrow> invh c' s = invh c s"
proof (induction s)
  case (Node l n r)
  then show ?case using bh_cong[of l c' c] bh_cong[of r c' c] by simp
qed simp

lemmas tree_color_cong = root_col_cong bh_cong invc_cong invh_cong

lemma cinvc_cong:
  "(\<And>n. n \<in> set (lefts fs) \<union> set (rights fs) \<Longrightarrow> c' n = c n) \<Longrightarrow> cinvc c' fs = cinvc c fs"
proof (induction fs)
  case (Cons f fs)
  have "c' (frame_idx f) = c (frame_idx f)" "root_col c' (frame_sib f) = root_col c (frame_sib f)"
    "invc c' (frame_sib f) = invc c (frame_sib f)"
    using Cons.prems by (cases f; auto intro!: tree_color_cong)+
  moreover have "fs \<noteq> [] \<Longrightarrow> c' (frame_idx (hd fs)) = c (frame_idx (hd fs))"
    using Cons.prems by (cases f; cases fs; cases "hd fs") auto
  moreover have "cinvc c' fs = cinvc c fs"
    using Cons by (cases f) auto
  ultimately show ?case by auto
qed simp

lemma cinvh_cong:
  "(\<And>n. n \<in> set (lefts fs) \<union> set (rights fs) \<Longrightarrow> c' n = c n) \<Longrightarrow> cinvh c' fs h = cinvh c fs h"
proof (induction fs arbitrary: h)
  case (Cons f fs)
  have "c' (frame_idx f) = c (frame_idx f)" "bh c' (frame_sib f) = bh c (frame_sib f)"
    "invh c' (frame_sib f) = invh c (frame_sib f)"
    using Cons.prems by (cases f; auto intro!: tree_color_cong)+
  moreover have "cinvh c' fs h = cinvh c fs h" for h
    using Cons by (cases f) auto
  ultimately show ?case by auto
qed simp

subsection \<open>One turn of the loop\<close>

lemma shape_wc [simp]: "i < len t \<Longrightarrow> shape (wc t i x) T = shape t T"
proof -
  assume "i < len t"
  then have "rep (wc t i x) q j T = rep t q j T" for q j T
    by (induction T arbitrary: q j) auto
  then show ?thesis by (simp add: shape_def)
qed

lemma shape_facts:
  assumes "shape t (plug fs (Node l n r))"
  shows "n < len t" "par t n = ctx_parent NIL fs" "len t \<le> NIL" "n \<noteq> NIL"
    "rep t n (lft t n) l" "rep t n (rgt t n) r"
    "distinct (lefts fs @ inorder (Node l n r) @ rights fs)"
  using assms by (auto simp: shape_def rep_plug inorder_plug)

lemma shape_sub:
  "shape t (plug fs (Node l n (Node l' m r'))) \<Longrightarrow> shape t (plug (RF l n # fs) (Node l' m r'))"
  "shape t (plug fs (Node (Node l' m r') n r)) \<Longrightarrow> shape t (plug (LF n r # fs) (Node l' m r'))"
  by simp_all

lemma rotate_up_left:
  assumes "shape t (plug fs (Node a g (Node b p (Node d x e))))"
  shows "\<exists>t'. rotate_up left_rotate t x = Inr (x, t') \<and>
    shape t' (plug fs (Node (Node a g b) p (Node d x e))) \<and>
    col t' = (col t)(p := BLACK, g := RED) \<and> item t' = item t \<and> len t' = len t"
proof -
  note g = shape_facts[OF assms] and p = shape_facts[OF shape_sub(1)[OF assms]]
    and x = shape_facts[OF shape_sub(1)[OF shape_sub(1)[OF assms]]]
  let ?t = "wc (wc t p BLACK) g RED"
  have "shape ?t (plug fs (Node a g (Node b p (Node d x e))))"
    using assms g(1) p(1) by simp
  then obtain t' where t': "left_rotate ?t g = Inr t'"
    "shape t' (plug fs (Node (Node a g b) p (Node d x e)))" "same_data ?t t'"
    using left_rotate_rep by blast
  then have "rotate_up left_rotate t x = Inr (x, t')"
    using g(1) p(1,2) x(1,2) by (simp add: rotate_up_def Let_def)
  with t' g(1) p(1) show ?thesis by (simp add: same_data_def)
qed

lemma rotate_up_right:
  assumes "shape t (plug fs (Node (Node (Node d x e) p b) g a))"
  shows "\<exists>t'. rotate_up right_rotate t x = Inr (x, t') \<and>
    shape t' (plug fs (Node (Node d x e) p (Node b g a))) \<and>
    col t' = (col t)(p := BLACK, g := RED) \<and> item t' = item t \<and> len t' = len t"
proof -
  note g = shape_facts[OF assms] and p = shape_facts[OF shape_sub(2)[OF assms]]
    and x = shape_facts[OF shape_sub(2)[OF shape_sub(2)[OF assms]]]
  let ?t = "wc (wc t p BLACK) g RED"
  have "shape ?t (plug fs (Node (Node (Node d x e) p b) g a))"
    using assms g(1) p(1) by simp
  then obtain t' where t': "right_rotate ?t g = Inr t'"
    "shape t' (plug fs (Node (Node d x e) p (Node b g a)))" "same_data ?t t'"
    using right_rotate_rep by blast
  then have "rotate_up right_rotate t x = Inr (x, t')"
    using g(1) p(1,2) x(1,2) by (simp add: rotate_up_def Let_def)
  with t' g(1) p(1) show ?thesis by (simp add: same_data_def)
qed

text \<open>
  The state of the loop: a red node \<open>k\<close> in a context that satisfies the invariants, apart
  from the possibly red parent of \<open>k\<close>; the root is black unless it is \<open>k\<close> itself.
\<close>

definition red_at :: "('k, 'v) rbtree \<Rightarrow> frame list \<Rightarrow> nat tree \<Rightarrow> nat \<Rightarrow> nat tree \<Rightarrow> bool" where
  "red_at t fs l k r \<longleftrightarrow>
     shape t (plug fs (Node l k r)) \<and> col t k = RED \<and>
     cinvc (col t) fs \<and> cinvh (col t) fs (bh (col t) (Node l k r)) \<and>
     invc (col t) (Node l k r) \<and> invh (col t) (Node l k r) \<and>
     (fs \<noteq> [] \<longrightarrow> col t (frame_idx (last fs)) = BLACK)"

text \<open>What the loop achieves.\<close>

definition fixed :: "('k, 'v) rbtree \<Rightarrow> nat list \<Rightarrow> ('k, 'v) rbtree \<Rightarrow> bool" where
  "fixed t xs t' \<longleftrightarrow> (\<exists>T. shape t' T \<and> inorder T = xs \<and> invc (col t') T \<and> invh (col t') T \<and>
     T \<noteq> Leaf \<and> item t' = item t \<and> len t' = len t)"

definition upper :: "(nat \<Rightarrow> tree_color) \<Rightarrow> (nat \<Rightarrow> tree_color) \<Rightarrow> frame list \<Rightarrow> bool" where
  "upper c c' fs \<longleftrightarrow> (\<forall>n \<in> set (lefts fs) \<union> set (rights fs). c' n = c n)"

lemma upperD:
  assumes "upper c c' fs"
  shows "cinvc c' fs = cinvc c fs" "cinvh c' fs h = cinvh c fs h"
    "fs \<noteq> [] \<Longrightarrow> c' (frame_idx (hd fs)) = c (frame_idx (hd fs))"
    "fs \<noteq> [] \<Longrightarrow> c' (frame_idx (last fs)) = c (frame_idx (last fs))"
proof -
  show "cinvc c' fs = cinvc c fs" "cinvh c' fs h = cinvh c fs h"
    using assms by (auto simp: upper_def intro!: cinvc_cong cinvh_cong)
  have "f \<in> set fs \<Longrightarrow> frame_idx f \<in> set (lefts fs) \<union> set (rights fs)" for f
  proof (induction fs)
    case (Cons g fs)
    then show ?case by (cases f; cases g) auto
  qed simp
  then show "fs \<noteq> [] \<Longrightarrow> c' (frame_idx (hd fs)) = c (frame_idx (hd fs))"
    "fs \<noteq> [] \<Longrightarrow> c' (frame_idx (last fs)) = c (frame_idx (last fs))"
    using assms by (auto simp: upper_def)
qed

lemma uncle_is_red_ok:
  "rep t q i u \<Longrightarrow> len t \<le> NIL \<Longrightarrow> uncle_is_red t i = Inr (root_col (col t) u = RED)"
  by (cases u) (auto simp: uncle_is_red_def)

lemma frame_inorder: "set_tree (fill f s) = insert (frame_idx f) (set_tree (frame_sib f) \<union> set_tree s)"
  by (cases f) auto

lemma fill_root: "\<exists>l r. fill f s = Node l (frame_idx f) r"
  by (cases f) auto

lemma fill_colors:
  "invc c (fill f s) \<longleftrightarrow>
     (c (frame_idx f) = RED \<longrightarrow> root_col c s = BLACK \<and> root_col c (frame_sib f) = BLACK) \<and>
     invc c s \<and> invc c (frame_sib f)"
  "root_col c (fill f s) = c (frame_idx f)"
  "invh c (fill f s) \<longleftrightarrow> invh c s \<and> invh c (frame_sib f) \<and> bh c s = bh c (frame_sib f)"
  "bh c s = bh c (frame_sib f) \<Longrightarrow> bh c (fill f s) = bh c s + weight (c (frame_idx f))"
  by (cases f; auto)+

lemma ctx_nodes: "set (lefts (f # fs)) \<union> set (rights (f # fs)) =
    insert (frame_idx f) (set (inorder (frame_sib f))) \<union> (set (lefts fs) \<union> set (rights fs))"
  by (cases f) auto

lemma ctx_distinct:
  assumes "distinct (lefts (f # fs) @ inorder s @ rights (f # fs))"
  shows "distinct (lefts fs @ inorder (fill f s) @ rights fs)" "frame_idx f \<notin> set (inorder (frame_sib f))"
    "frame_idx f \<notin> set (inorder s)" "set (inorder (frame_sib f)) \<inter> set (inorder s) = {}"
    "frame_idx f \<notin> set (lefts fs) \<union> set (rights fs)"
    "set (inorder (frame_sib f)) \<inter> (set (lefts fs) \<union> set (rights fs)) = {}"
    "set (inorder s) \<inter> (set (lefts fs) \<union> set (rights fs)) = {}"
  using assms by (cases f; auto)+

lemma recolor_up_ok:
  assumes st: "red_at t (f1 # f2 # fs) l k r" and red: "col t (frame_idx f1) = RED"
    and u: "frame_sib f2 = Node ul un ur" "col t un = RED"
  shows "\<exists>t' l' r'. recolor_up t un (frame_idx f1) (frame_idx f2) = Inr (frame_idx f2, t') \<and>
    red_at t' fs l' (frame_idx f2) r' \<and> plug fs (Node l' (frame_idx f2) r') = plug (f1 # f2 # fs) (Node l k r) \<and>
    item t' = item t \<and> len t' = len t"
proof -
  let ?s = "Node l k r" and ?p = "frame_idx f1" and ?g = "frame_idx f2" and ?c = "col t"
  let ?c' = "?c(un := BLACK, ?p := BLACK, ?g := RED)"
  obtain l' r' where whole: "fill f2 (fill f1 ?s) = Node l' ?g r'"
    using fill_root by blast
  have sh: "shape t (plug (f1 # f2 # fs) ?s)" using st by (simp add: red_at_def)
  note d1 = ctx_distinct[OF shape_facts(7)[OF sh]] and d2 = ctx_distinct[OF ctx_distinct(1)[OF shape_facts(7)[OF sh]]]
  have "?g < len t" using sh whole shape_facts(1)[of t fs l' ?g r'] by simp
  moreover have "?p < len t"
    using sh fill_root[of f1 ?s] shape_facts(1)[of t "f2 # fs"] by (metis plug.simps(2))
  moreover have "un < len t"
    using rep_bounds[of t NIL "root t" "plug fs (fill f2 (fill f1 ?s))" un] sh u(1)
    by (auto simp: shape_def inorder_plug frame_inorder)
  ultimately obtain t' where t': "recolor_up t un ?p ?g = Inr (?g, t')" "shape t' (plug (f1 # f2 # fs) ?s)"
    "col t' = ?c'" "item t' = item t" "len t' = len t"
    using sh by (simp add: recolor_up_def del: plug.simps)
  have "distinct (inorder (frame_sib f2))"
    using d2(1) by (cases f2) auto
  then have uu: "un \<notin> set (inorder ul)" "un \<notin> set (inorder ur)"
    using u(1) by auto
  have neq: "?p \<noteq> ?g" "un \<noteq> ?p" "un \<noteq> ?g" "un \<notin> set (inorder ul)" "un \<notin> set (inorder ur)"
    using d2(2-4) uu unfolding u(1) set_inorder frame_inorder by auto
  have same: "root_col ?c' X = root_col ?c X \<and> bh ?c' X = bh ?c X \<and> invc ?c' X = invc ?c X \<and> invh ?c' X = invh ?c X"
    if "?p \<notin> set_tree X" "?g \<notin> set_tree X" "un \<notin> set_tree X" for X
    using that by (intro conjI tree_color_cong) auto
  have "?p \<notin> set_tree ?s" "?p \<notin> set_tree (frame_sib f1)" "?p \<notin> set_tree ul" "?p \<notin> set_tree ur"
    "?g \<notin> set_tree ?s" "?g \<notin> set_tree (frame_sib f1)" "?g \<notin> set_tree ul" "?g \<notin> set_tree ur"
    "un \<notin> set_tree ?s" "un \<notin> set_tree (frame_sib f1)" "un \<notin> set_tree ul" "un \<notin> set_tree ur"
    using d1(2,3) d2(2-4) neq(4,5) unfolding u(1) set_inorder frame_inorder tree.set by blast+
  then have same: "root_col ?c' X = root_col ?c X \<and> bh ?c' X = bh ?c X \<and> invc ?c' X = invc ?c X \<and> invh ?c' X = invh ?c X"
    if "X = ?s \<or> X = frame_sib f1 \<or> X = ul \<or> X = ur" for X
    using that same by blast
  note same = same[of ?s] same[of "frame_sib f1"] same[of ul] same[of ur]
  have up: "upper ?c ?c' fs"
    using d2(5-7) unfolding u(1) upper_def set_inorder frame_inorder by auto
  have "red_at t' fs l' ?g r'"
    unfolding red_at_def whole[symmetric] t'(3)
    using t'(2) st red u neq same upperD[OF up]
    by (auto simp: red_at_def fill_colors simp del: inorder.simps)
  moreover have "plug fs (Node l' ?g r') = plug (f1 # f2 # fs) ?s"
    by (simp add: whole)
  ultimately show ?thesis using t' by blast
qed

lemma plug_Leaf [simp]: "plug fs s = Leaf \<longleftrightarrow> fs = [] \<and> s = Leaf"
proof (induction fs arbitrary: s)
  case (Cons f fs)
  then show ?case by (cases f) auto
qed simp

text \<open>The colours after the final rotation.\<close>

definition black_roots :: "(nat \<Rightarrow> tree_color) \<Rightarrow> nat \<Rightarrow> nat tree list \<Rightarrow> bool" where
  "black_roots c h Ts \<longleftrightarrow> (\<forall>T\<in>set Ts. root_col c T = BLACK \<and> invc c T \<and> invh c T \<and> bh c T = h)"

lemma rotated_colors:
  assumes "black_roots c h [a, b, d, e]" "c x = RED" "cinvc c fs" "cinvh c fs (Suc h)"
    and "{p, g} \<inter> (set_tree a \<union> set_tree b \<union> set_tree d \<union> set_tree e \<union> {x}) = {}" "p \<noteq> g"
    and "{p, g} \<inter> (set (lefts fs) \<union> set (rights fs)) = {}"
  shows "invc (c(p := BLACK, g := RED)) (plug fs (Node (Node a g b) p (Node d x e)))"
    "invh (c(p := BLACK, g := RED)) (plug fs (Node (Node a g b) p (Node d x e)))"
    "invc (c(p := BLACK, g := RED)) (plug fs (Node (Node d x e) p (Node b g a)))"
    "invh (c(p := BLACK, g := RED)) (plug fs (Node (Node d x e) p (Node b g a)))"
proof -
  let ?c = "c(p := BLACK, g := RED)"
  have "upper c ?c fs" using assms(7) by (auto simp: upper_def)
  note up = upperD[OF this]
  have "black_roots ?c h [a, b, d, e]"
  proof -
    have "root_col ?c T = root_col c T \<and> invc ?c T = invc c T \<and> invh ?c T = invh c T \<and> bh ?c T = bh c T"
      if "T \<in> set [a, b, d, e]" for T
      using assms(5) that by (intro conjI tree_color_cong) auto
    with assms(1) show ?thesis unfolding black_roots_def by metis
  qed
  then show "invc ?c (plug fs (Node (Node a g b) p (Node d x e)))"
    "invh ?c (plug fs (Node (Node a g b) p (Node d x e)))"
    "invc ?c (plug fs (Node (Node d x e) p (Node b g a)))"
    "invh ?c (plug fs (Node (Node d x e) p (Node b g a)))"
    using assms(2-6) up by (auto simp: invc_plug invh_plug black_roots_def)
qed

text \<open>The loop is about to stop: the parent of \<open>k\<close> is black.\<close>

definition settled :: "('k, 'v) rbtree \<Rightarrow> nat \<Rightarrow> bool" where
  "settled t k \<longleftrightarrow> fix_guard t k = Inr False \<and> fix_break t k = Inr False"

lemma settledI:
  assumes "shape t (plug fs (Node (Node a g b) p (Node d x e)))" "col t p = BLACK"
  shows "settled t x" "settled t g"
proof -
  note p = shape_facts[OF assms(1)] and x = shape_facts[OF shape_sub(1)[OF assms(1)]]
    and g = shape_facts[OF shape_sub(2)[OF assms(1)]]
  show "settled t x" "settled t g"
    using p(1,4) x(1,2) g(1,2) assms(2) by (simp_all add: settled_def fix_guard_def fix_break_def)
qed

text \<open>The black-uncle branch of \<open>fix_turn\<close> on either side.\<close>

lemma rotate_branch_left:
  assumes st: "red_at t (f1 # RF u g # fs) l k r" and red: "col t (frame_idx f1) = RED"
    and u: "root_col (col t) u = BLACK"
  shows "\<exists>k' t'. (if k = lft t (frame_idx f1) then
        rbind (right_rotate t (frame_idx f1)) (\<lambda>t'. rotate_up left_rotate t' (frame_idx f1))
      else rotate_up left_rotate t k) = Inr (k', t') \<and>
    settled t' k' \<and> fixed t (inorder (plug (f1 # RF u g # fs) (Node l k r))) t'"
proof (cases f1)
  case (RF b p)
  let ?T = "plug fs (Node (Node u g b) p (Node l k r))"
  have sh: "shape t (plug fs (Node u g (Node b p (Node l k r))))"
    using st RF by (simp add: red_at_def)
  obtain t' where t': "rotate_up left_rotate t k = Inr (k, t')" "shape t' ?T"
    "col t' = (col t)(p := BLACK, g := RED)" "item t' = item t" "len t' = len t"
    using rotate_up_left[OF sh] by blast
  note p = shape_facts[OF shape_sub(1)[OF sh]] and k = shape_facts[OF shape_sub(1)[OF shape_sub(1)[OF sh]]]
  have "k \<noteq> lft t p"
    using rep_index(2)[OF p(5,3)] k(1,7) by auto
  moreover have "black_roots (col t) (bh (col t) u) [u, b, l, r]" "cinvc (col t) fs"
    "cinvh (col t) fs (Suc (bh (col t) u))" "col t k = RED"
    using st RF red u by (auto simp: red_at_def black_roots_def)
  then have "invc (col t') ?T" "invh (col t') ?T"
    unfolding t'(3) using shape_facts(7)[OF sh] by (auto intro!: rotated_colors)
  then have "fixed t (inorder (plug (f1 # RF u g # fs) (Node l k r))) t'"
    unfolding fixed_def using t' RF by (intro exI[of _ ?T]) (auto simp: inorder_plug)
  moreover have "settled t' k"
    using settledI(1)[OF t'(2)] t'(3) shape_facts(7)[OF sh] by auto
  ultimately show ?thesis using t'(1) RF by auto
next
  case (LF p e)
  let ?T = "plug fs (Node (Node u g l) k (Node r p e))"
  have sh: "shape t (plug (RF u g # fs) (Node (Node l k r) p e))"
    using st LF by (simp add: red_at_def)
  obtain t1 where t1: "right_rotate t p = Inr t1" "shape t1 (plug fs (Node u g (Node l k (Node r p e))))" "same_data t t1"
    using right_rotate_rep[OF sh] by auto
  obtain t' where t': "rotate_up left_rotate t1 p = Inr (p, t')" "shape t' ?T"
    "col t' = (col t)(k := BLACK, g := RED)" "item t' = item t" "len t' = len t"
    using rotate_up_left[OF t1(2)] t1(3) by (auto simp: same_data_def)
  have "k = lft t p"
    using shape_facts(5)[OF sh] by simp
  moreover have "black_roots (col t) (bh (col t) u) [u, l, r, e]" "cinvc (col t) fs"
    "cinvh (col t) fs (Suc (bh (col t) u))" "col t p = RED"
    using st LF red u by (auto simp: red_at_def black_roots_def)
  then have "invc (col t') ?T" "invh (col t') ?T"
    unfolding t'(3) using shape_facts(7)[OF t1(2)] by (auto intro!: rotated_colors)
  then have "fixed t (inorder (plug (f1 # RF u g # fs) (Node l k r))) t'"
    unfolding fixed_def using t' LF by (intro exI[of _ ?T]) (auto simp: inorder_plug)
  moreover have "settled t' p"
    using settledI(1)[OF t'(2)] t'(3) shape_facts(7)[OF t1(2)] by auto
  ultimately show ?thesis using t1(1) t'(1) LF by auto
qed

lemma rotate_branch_right:
  assumes st: "red_at t (f1 # LF g u # fs) l k r" and red: "col t (frame_idx f1) = RED"
    and u: "root_col (col t) u = BLACK"
  shows "\<exists>k' t'. (if k = rgt t (frame_idx f1) then
        rbind (left_rotate t (frame_idx f1)) (\<lambda>t'. rotate_up right_rotate t' (frame_idx f1))
      else rotate_up right_rotate t k) = Inr (k', t') \<and>
    settled t' k' \<and> fixed t (inorder (plug (f1 # LF g u # fs) (Node l k r))) t'"
proof (cases f1)
  case (LF p b)
  let ?T = "plug fs (Node (Node l k r) p (Node b g u))"
  have sh: "shape t (plug fs (Node (Node (Node l k r) p b) g u))"
    using st LF by (simp add: red_at_def)
  obtain t' where t': "rotate_up right_rotate t k = Inr (k, t')" "shape t' ?T"
    "col t' = (col t)(p := BLACK, g := RED)" "item t' = item t" "len t' = len t"
    using rotate_up_right[OF sh] by blast
  note p = shape_facts[OF shape_sub(2)[OF sh]] and k = shape_facts[OF shape_sub(2)[OF shape_sub(2)[OF sh]]]
  have "k \<noteq> rgt t p"
    using rep_index(2)[OF p(6,3)] k(1,7) by auto
  moreover have "black_roots (col t) (bh (col t) u) [u, b, l, r]" "cinvc (col t) fs"
    "cinvh (col t) fs (Suc (bh (col t) u))" "col t k = RED"
    using st LF red u by (auto simp: red_at_def black_roots_def)
  then have "invc (col t') ?T" "invh (col t') ?T"
    unfolding t'(3) using shape_facts(7)[OF sh] by (auto intro!: rotated_colors)
  then have "fixed t (inorder (plug (f1 # LF g u # fs) (Node l k r))) t'"
    unfolding fixed_def using t' LF by (intro exI[of _ ?T]) (auto simp: inorder_plug)
  moreover have "settled t' k"
    using settledI(2)[OF t'(2)] t'(3) shape_facts(7)[OF sh] by auto
  ultimately show ?thesis using t'(1) LF by auto
next
  case (RF e p)
  let ?T = "plug fs (Node (Node e p l) k (Node r g u))"
  have sh: "shape t (plug (LF g u # fs) (Node e p (Node l k r)))"
    using st RF by (simp add: red_at_def)
  obtain t1 where t1: "left_rotate t p = Inr t1" "shape t1 (plug fs (Node (Node (Node e p l) k r) g u))" "same_data t t1"
    using left_rotate_rep[OF sh] by auto
  obtain t' where t': "rotate_up right_rotate t1 p = Inr (p, t')" "shape t' ?T"
    "col t' = (col t)(k := BLACK, g := RED)" "item t' = item t" "len t' = len t"
    using rotate_up_right[OF t1(2)] t1(3) by (auto simp: same_data_def)
  have "k = rgt t p"
    using shape_facts(6)[OF sh] by simp
  moreover have "black_roots (col t) (bh (col t) u) [u, r, e, l]" "cinvc (col t) fs"
    "cinvh (col t) fs (Suc (bh (col t) u))" "col t p = RED"
    using st RF red u by (auto simp: red_at_def black_roots_def)
  then have "invc (col t') ?T" "invh (col t') ?T"
    unfolding t'(3) using shape_facts(7)[OF t1(2)] by (auto intro!: rotated_colors)
  then have "fixed t (inorder (plug (f1 # LF g u # fs) (Node l k r))) t'"
    unfolding fixed_def using t' RF by (intro exI[of _ ?T]) (auto simp: inorder_plug)
  moreover have "settled t' p"
    using settledI(2)[OF t'(2)] t'(3) shape_facts(7)[OF t1(2)] by auto
  ultimately show ?thesis using t1(1) t'(1) RF by auto
qed

text \<open>One turn: either the violation moves two levels up, or the loop is about to stop.\<close>

lemma parent_links:
  assumes "shape t (plug (f1 # f2 # fs) (Node l k r))"
  shows "k < len t" "par t k = frame_idx f1" "frame_idx f1 < len t" "par t (frame_idx f1) = frame_idx f2"
    "frame_idx f2 < len t" "len t \<le> NIL"
    "f2 = RF u g \<Longrightarrow> rgt t g = frame_idx f1 \<and> rep t g (lft t g) u"
    "f2 = LF g u \<Longrightarrow> rgt t g \<noteq> frame_idx f1 \<and> rep t g (rgt t g) u"
proof -
  obtain l1 r1 where 1: "fill f1 (Node l k r) = Node l1 (frame_idx f1) r1" using fill_root by blast
  then have sh1: "shape t (plug (f2 # fs) (Node l1 (frame_idx f1) r1))" using assms by simp
  obtain l2 r2 where 2: "fill f2 (Node l1 (frame_idx f1) r1) = Node l2 (frame_idx f2) r2" using fill_root by blast
  then have sh2: "shape t (plug fs (Node l2 (frame_idx f2) r2))" using sh1 by simp
  note s0 = shape_facts[OF assms] and s1 = shape_facts[OF sh1] and s2 = shape_facts[OF sh2]
  show "k < len t" "par t k = frame_idx f1" "frame_idx f1 < len t" "par t (frame_idx f1) = frame_idx f2"
    "frame_idx f2 < len t" "len t \<le> NIL"
    using s0(1,2,3) s1(1,2) s2(1) by auto
  show "f2 = RF u g \<Longrightarrow> rgt t g = frame_idx f1 \<and> rep t g (lft t g) u"
    using s2(5,6) 2 by auto
  assume f2: "f2 = LF g u"
  then have "rep t g (rgt t g) u" "frame_idx f1 \<notin> set (inorder u)"
    using s2(6) s1(7) 2 by auto
  then show "rgt t g \<noteq> frame_idx f1 \<and> rep t g (rgt t g) u"
    using rep_index(2)[of t g "rgt t g" u] s1(1,3) by auto
qed

lemma fix_turn_ok:
  assumes st: "red_at t (f1 # f2 # fs) l k r" and red: "col t (frame_idx f1) = RED"
  shows "\<exists>k' t'. fix_turn t k = Inr (k', t') \<and>
    (settled t' k' \<and> fixed t (inorder (plug (f1 # f2 # fs) (Node l k r))) t' \<or>
     (\<exists>l' r'. red_at t' fs l' k' r' \<and> plug fs (Node l' k' r') = plug (f1 # f2 # fs) (Node l k r) \<and>
        item t' = item t \<and> len t' = len t))"
proof -
  have sh: "shape t (plug (f1 # f2 # fs) (Node l k r))" using st by (simp add: red_at_def)
  note links = parent_links[OF sh]
  show ?thesis
  proof (cases f2)
    case (RF u g)
    note f2 = links(7)[OF RF]
    have turn: "fix_turn t k = (if root_col (col t) u = RED then recolor_up t (lft t g) (frame_idx f1) g
        else if k = lft t (frame_idx f1) then
          rbind (right_rotate t (frame_idx f1)) (\<lambda>t'. rotate_up left_rotate t' (frame_idx f1))
        else rotate_up left_rotate t k)"
      using links(1-6) f2 RF uncle_is_red_ok[of t g "lft t g" u]
      by (cases "k = lft t (frame_idx f1)") (auto simp: fix_turn_def Let_def)
    show ?thesis
    proof (cases "root_col (col t) u = RED")
      case True
      then obtain ul un ur where "u = Node ul un ur" "col t un = RED" by (cases u) auto
      with recolor_up_ok[OF st red, of ul un ur] turn True RF f2 show ?thesis by auto
    next
      case False
      with rotate_branch_left[OF st[unfolded RF] red] turn RF show ?thesis by auto
    qed
  next
    case (LF g u)
    note f2 = links(8)[OF LF]
    have turn: "fix_turn t k = (if root_col (col t) u = RED then recolor_up t (rgt t g) (frame_idx f1) g
        else if k = rgt t (frame_idx f1) then
          rbind (left_rotate t (frame_idx f1)) (\<lambda>t'. rotate_up right_rotate t' (frame_idx f1))
        else rotate_up right_rotate t k)"
      using links(1-6) f2 LF uncle_is_red_ok[of t g "rgt t g" u]
      by (cases "k = rgt t (frame_idx f1)") (auto simp: fix_turn_def Let_def)
    show ?thesis
    proof (cases "root_col (col t) u = RED")
      case True
      then obtain ul un ur where "u = Node ul un ur" "col t un = RED" by (cases u) auto
      with recolor_up_ok[OF st red, of ul un ur] turn True LF f2 show ?thesis by auto
    next
      case False
      with rotate_branch_right[OF st[unfolded LF] red] turn LF show ?thesis by auto
    qed
  qed
qed

subsection \<open>The loop\<close>

lemma fixed_refl:
  assumes "red_at t fs l k r" "fs \<noteq> [] \<Longrightarrow> col t (frame_idx (hd fs)) = BLACK"
  shows "fixed t (inorder (plug fs (Node l k r))) t"
  using assms unfolding fixed_def red_at_def
  by (intro exI[of _ "plug fs (Node l k r)"]) (auto simp: invc_plug invh_plug)

lemma fix_loop_ok:
  assumes "red_at t fs l k r" "fs \<noteq> []"
  shows "\<exists>t'. fix_loop t k = Some (Inr t') \<and> fixed t (inorder (plug fs (Node l k r))) t'"
  using assms
proof (induction "length fs" arbitrary: t fs l k r rule: less_induct)
  case less
  obtain f1 fs1 where fs: "fs = f1 # fs1" using less.prems(2) by (cases fs) auto
  have sh: "shape t (plug (f1 # fs1) (Node l k r))"
    using less.prems(1) fs by (simp add: red_at_def)
  have p: "frame_idx f1 < len t" "k < len t" "par t k = frame_idx f1"
    using shape_facts[OF sh] fill_root[of f1 "Node l k r"] shape_facts(1)[of t fs1] sh by auto
  then have guard: "fix_guard t k = Inr (col t (frame_idx f1) = RED)"
    by (simp add: fix_guard_def)
  show ?case
  proof (cases "col t (frame_idx f1) = RED")
    case False
    then have "fix_loop t k = Some (Inr t)"
      using guard by (simp add: fix_loop.simps[of t k])
    then show ?thesis
      using False fixed_refl[OF less.prems(1)] fs by auto
  next
    case True
    with less.prems(1) fs obtain f2 fs2 where fs1: "fs1 = f2 # fs2"
      by (cases fs1) (auto simp: red_at_def)
    obtain k' t' where turn: "fix_turn t k = Inr (k', t')"
      and next_state: "settled t' k' \<and> fixed t (inorder (plug fs (Node l k r))) t' \<or>
       (\<exists>l' r'. red_at t' fs2 l' k' r' \<and> plug fs2 (Node l' k' r') = plug fs (Node l k r) \<and>
          item t' = item t \<and> len t' = len t)"
      using fix_turn_ok[OF less.prems(1)[unfolded fs fs1] True] fs fs1 by blast
    have step: "fix_loop t k = run_bind (Some (fix_break t' k')) (\<lambda>stop.
        if stop then Some (Inr t') else fix_loop t' k')"
      using guard turn True by (simp add: fix_loop.simps[of t k])
    from next_state show ?thesis
    proof
      assume "settled t' k' \<and> fixed t (inorder (plug fs (Node l k r))) t'"
      then show ?thesis
        using step by (simp add: settled_def fix_loop.simps[of t' k'])
    next
      assume "\<exists>l' r'. red_at t' fs2 l' k' r' \<and> plug fs2 (Node l' k' r') = plug fs (Node l k r) \<and>
          item t' = item t \<and> len t' = len t"
      then obtain l' r' where st': "red_at t' fs2 l' k' r'"
        and same: "plug fs2 (Node l' k' r') = plug fs (Node l k r)" "item t' = item t" "len t' = len t" by blast
      have sh': "shape t' (plug fs2 (Node l' k' r'))"
        using st' by (simp add: red_at_def)
      then have "rep_ctx t' NIL (root t') fs2 k'" "len t' \<le> NIL"
        by (auto simp: shape_def rep_plug)
      note k' = shape_facts(1,2)[OF sh'] ctx_parent_NIL[OF this]
      show ?thesis
      proof (cases "fs2 = []")
        case True
        then have "fix_loop t k = Some (Inr t')"
          using step k' by (simp add: fix_break_def)
        moreover have "fixed t' (inorder (plug fs2 (Node l' k' r'))) t'"
          using fixed_refl[OF st'] True by simp
        ultimately show ?thesis using same by (simp add: fixed_def)
      next
        case False
        then obtain t'' where "fix_loop t' k' = Some (Inr t'')"
          "fixed t' (inorder (plug fs2 (Node l' k' r'))) t''"
          using less.hyps[OF _ st'] fs fs1 by auto
        then show ?thesis
          using step k' False same by (simp add: fix_break_def fixed_def)
      qed
    qed
  qed
qed

text \<open>The tree after an insertion: a red-black tree over the given indices.\<close>

definition rb_over :: "('k, 'v) rbtree \<Rightarrow> nat list \<Rightarrow> bool" where
  "rb_over t xs \<longleftrightarrow> (\<exists>T. shape t T \<and> inorder T = xs \<and> invc (col t) T \<and> invh (col t) T \<and>
     root_col (col t) T = BLACK)"

lemma fix_insert_ok:
  assumes "red_at t fs l k r" "fs \<noteq> []"
  shows "\<exists>t'. fix_insert t k = Some (Inr t') \<and> rb_over t' (inorder (plug fs (Node l k r))) \<and>
    item t' = item t \<and> len t' = len t"
proof -
  obtain t1 T where t1: "fix_loop t k = Some (Inr t1)" "shape t1 T" "inorder T = inorder (plug fs (Node l k r))"
    "invc (col t1) T" "invh (col t1) T" "T \<noteq> Leaf" "item t1 = item t" "len t1 = len t"
    using fix_loop_ok[OF assms] by (auto simp: fixed_def)
  obtain a n b where T: "T = Node a n b" using t1(6) by (cases T) auto
  have n: "root t1 = n" "n < len t1" "distinct (inorder T)"
    using t1(2) T by (auto simp: shape_def)
  let ?c = "(col t1)(n := BLACK)"
  have "root_col ?c X = root_col (col t1) X \<and> bh ?c X = bh (col t1) X \<and> invc ?c X = invc (col t1) X \<and>
      invh ?c X = invh (col t1) X" if "X = a \<or> X = b" for X
    using that n T by (intro conjI tree_color_cong) auto
  then have "rb_over (wc t1 n BLACK) (inorder T)"
    unfolding rb_over_def using t1 n T by (intro exI[of _ T]) auto
  with t1 n show ?thesis by (auto simp: fix_insert_def)
qed

subsection \<open>Insertion\<close>

lemma ctx_append [simp]:
  "plug (fs @ gs) s = plug gs (plug fs s)"
  "lefts (fs @ gs) = lefts gs @ lefts fs"
  "rights (fs @ gs) = rights fs @ rights gs"
proof -
  show "plug (fs @ gs) s = plug gs (plug fs s)"
    by (induction fs arbitrary: s) auto
  show "lefts (fs @ gs) = lefts gs @ lefts fs" "rights (fs @ gs) = rights fs @ rights gs"
    by (induction fs rule: lefts.induct) auto
qed

definition key_of :: "('k, 'v) rbtree \<Rightarrow> nat \<Rightarrow> 'k" where
  "key_of t i = fst (item t i)"

text \<open>The hole the descent finds: before it the smaller keys, after it the others.\<close>

definition splits_at :: "('k::linorder, 'v) rbtree \<Rightarrow> 'k \<Rightarrow> frame list \<Rightarrow> bool" where
  "splits_at t k fs \<longleftrightarrow>
     (\<forall>n\<in>set (lefts fs). key_of t n < k) \<and> (\<forall>n\<in>set (rights fs). \<not> key_of t n < k)"

lemma find_parent_ok:
  assumes "rep t q j s" "len t \<le> NIL" "sorted (map (key_of t) (inorder s))"
  shows "\<exists>fs. find_parent t k j q = Some (Inr (ctx_parent q fs)) \<and> plug fs Leaf = s \<and> splits_at t k fs"
  using assms
proof (induction s arbitrary: q j)
  case Leaf
  then show ?case
    by (intro exI[of _ "[]"]) (simp add: find_parent.simps splits_at_def)
next
  case (Node l n r)
  then have n: "j = n" "n < len t" "j \<noteq> NIL" by auto
  have sub: "ctx_parent q (fs @ [f]) = ctx_parent (frame_idx f) fs" for fs f
    by (cases fs) auto
  show ?case
  proof (cases "key_of t n < k")
    case True
    then obtain fs where fs: "find_parent t k (rgt t n) n = Some (Inr (ctx_parent n fs))"
      "plug fs Leaf = r" "splits_at t k fs"
      using Node.IH(2)[of n "rgt t n"] Node.prems by (auto simp: sorted_append)
    have "find_parent t k j q = find_parent t k (rgt t n) n"
      using n True by (subst find_parent.simps) (simp add: key_of_def cmp_def)
    moreover have "splits_at t k (fs @ [RF l n])"
      using fs(3) True Node.prems(3) by (force simp: splits_at_def sorted_append)
    ultimately show ?thesis
      using fs(1,2) by (intro exI[of _ "fs @ [RF l n]"]) (simp add: sub)
  next
    case False
    then obtain fs where fs: "find_parent t k (lft t n) n = Some (Inr (ctx_parent n fs))"
      "plug fs Leaf = l" "splits_at t k fs"
      using Node.IH(1)[of n "lft t n"] Node.prems by (auto simp: sorted_append)
    have "find_parent t k j q = find_parent t k (lft t n) n"
      using n False by (subst find_parent.simps) (simp add: key_of_def cmp_def)
    moreover have "splits_at t k (fs @ [LF n r])"
      using fs(3) False Node.prems(3) by (force simp: splits_at_def sorted_append)
    ultimately show ?thesis
      using fs(1,2) by (intro exI[of _ "fs @ [LF n r]"]) (simp add: sub)
  qed
qed

lemma added_views:
  assumes "add_node t n = (new, t1)"
  shows "new = len t" "len t1 = Suc (len t)" "root t1 = root t"
    "i < len t \<Longrightarrow> same_links t t1 i \<and> col t1 i = col t i \<and> item t1 i = item t i"
    "lft t1 new = left_node n" "rgt t1 new = right_node n" "par t1 new = parent_node n" "col t1 new = color n"
    "item t1 new = (node_start n, node_end n, node_value n)"
  using assms
  by (auto simp: add_node_def views same_links_def nth_append Let_def simp del: view_simps)

lemma rep_ctx_attach:
  fixes t t2 :: "('k, 'v) rbtree"
  assumes "rep_ctx t NIL i fs NIL" "fs \<noteq> []" "len t \<le> len t2"
    and "distinct (lefts fs @ rights fs)"
    and "\<And>n. n \<in> set (lefts fs) \<union> set (rights fs) \<Longrightarrow> n \<noteq> ctx_parent NIL fs \<Longrightarrow> same_links t t2 n"
    and "par t2 (ctx_parent NIL fs) = par t (ctx_parent NIL fs)"
    and "\<And>l n. hd fs = RF l n \<Longrightarrow> rgt t2 n = new \<and> lft t2 n = lft t n"
    and "\<And>n r. hd fs = LF n r \<Longrightarrow> lft t2 n = new \<and> rgt t2 n = rgt t n"
  shows "rep_ctx t2 NIL i fs new"
proof -
  obtain f gs where fs: "fs = f # gs" using assms(2) by (cases fs) auto
  have "rep_ctx t NIL i gs (frame_idx f)"
    using assms(1) fs by (cases f) auto
  then have "rep_ctx t2 NIL i gs (frame_idx f)"
    by (rule rep_ctx_cong[OF _ assms(3)]) (use assms(4,5) fs in \<open>cases f; auto\<close>)
  moreover have "rep t2 (frame_idx f) j (frame_sib f)" if "rep t (frame_idx f) j (frame_sib f)" for j
    by (rule rep_cong[OF that assms(3)]) (use assms(4,5) fs in \<open>cases f; auto\<close>)
  ultimately show ?thesis
    using assms(1,3,6,7,8) fs by (cases f) auto
qed

text \<open>Linking a new red leaf below the node the descent ended on.\<close>

lemma attach_ok:
  assumes sh: "shape t (plug fs Leaf)" and ne: "fs \<noteq> []" and len: "len t < NIL"
    and split: "splits_at t k fs"
    and t1: "add_node t (new_node RED k e v (ctx_parent NIL fs)) = (new, t1)"
  shows "\<exists>t2. attach t1 (ctx_parent NIL fs) new k = Inr t2 \<and> shape t2 (plug fs (Node Leaf new Leaf)) \<and>
    len t2 = Suc (len t) \<and> new = len t \<and> col t2 new = RED \<and> item t2 new = (k, e, v) \<and>
    (\<forall>i<len t. col t2 i = col t i \<and> item t2 i = item t i)"
proof -
  let ?p = "ctx_parent NIL fs"
  note add = added_views[OF t1]
  have ctx: "rep_ctx t NIL (root t) fs NIL" and dist: "distinct (lefts fs @ rights fs)"
    using sh by (auto simp: shape_def rep_plug inorder_plug)
  have p: "?p < len t" "?p \<noteq> new"
    using ctx ne add(1) by (cases fs; cases "hd fs"; auto)+
  have bound: "n < len t" if "n \<in> set (lefts fs) \<union> set (rights fs)" for n
    using rep_ctx_bounds[OF ctx that] .
  have keep: "same_links t t1 n" "item t1 n = item t n" "col t1 n = col t n" if "n < len t" for n
    using add(4)[OF that] by auto
  have key: "key_of t ?p < k \<longleftrightarrow> (\<exists>l n. hd fs = RF l n)"
    using ne split by (cases fs; cases "hd fs") (auto simp: splits_at_def)
  define t2 where "t2 = (if key_of t ?p < k then wr t1 ?p new else wl t1 ?p new)"
  have att: "attach t1 ?p new k = Inr t2"
    using p add(2) keep(2)[OF p(1)] by (auto simp: attach_def t2_def key_of_def cmp_def)
  have v2: "len t2 = Suc (len t)" "root t2 = root t" "col t2 = col t1" "item t2 = item t1" "par t2 = par t1"
    "rgt t2 = (if key_of t ?p < k then (rgt t1)(?p := new) else rgt t1)"
    "lft t2 = (if key_of t ?p < k then lft t1 else (lft t1)(?p := new))"
    using p add(2,3) by (auto simp: t2_def)
  have "rep_ctx t2 NIL (root t) fs new"
  proof (rule rep_ctx_attach[OF ctx ne _ dist])
    show "same_links t t2 n" if "n \<in> set (lefts fs) \<union> set (rights fs)" "n \<noteq> ?p" for n
      using keep(1)[OF bound[OF that(1)]] that(2) v2 by (auto simp: same_links_def)
    show "par t2 ?p = par t ?p"
      using keep(1)[OF p(1)] v2 by (simp add: same_links_def)
    show "rgt t2 n = new \<and> lft t2 n = lft t n" if "hd fs = RF l n" for l n
      using that ne key keep(1)[OF p(1)] v2 by (cases fs) (auto simp: same_links_def)
    show "lft t2 n = new \<and> rgt t2 n = rgt t n" if "hd fs = LF n r" for n r
      using that ne key keep(1)[OF p(1)] v2 by (cases fs) (auto simp: same_links_def)
  qed (use v2 in simp)
  moreover have "rep t2 ?p new (Node Leaf new Leaf)"
    using add v2 p by (auto simp: new_node_def)
  moreover have "new \<notin> set (lefts fs) \<union> set (rights fs)"
    using bound add(1) by blast
  ultimately have "shape t2 (plug fs (Node Leaf new Leaf))"
    using v2 len dist by (auto simp: shape_def rep_plug inorder_plug)
  with att show ?thesis
    using v2 add keep by (auto simp: new_node_def)
qed

lemma insert_at_ok:
  assumes T: "shape t (plug fs Leaf)" "invc (col t) (plug fs Leaf)" "invh (col t) (plug fs Leaf)"
    "root_col (col t) (plug fs Leaf) = BLACK"
    and len: "len t < NIL" and split: "splits_at t k fs"
  shows "\<exists>t'. insert_at t (ctx_parent NIL fs) k e v = Some (Inr t') \<and>
    rb_over t' (lefts fs @ len t # rights fs) \<and> len t' = Suc (len t) \<and> item t' (len t) = (k, e, v) \<and>
    (\<forall>i<len t. item t' i = item t i)"
proof (cases "fs = []")
  case True
  obtain new t1 where t1: "add_node t (new_node BLACK k e v NIL) = (new, t1)" by fastforce
  note add = added_views[OF t1]
  have "shape (t1\<lparr>root := new\<rparr>) (Node Leaf new Leaf)"
    using add len by (auto simp: shape_def new_node_def)
  then have "rb_over (t1\<lparr>root := new\<rparr>) [new]"
    unfolding rb_over_def using add by (intro exI[of _ "Node Leaf new Leaf"]) (auto simp: new_node_def)
  with True t1 add show ?thesis by (auto simp: insert_at_def new_node_def)
next
  case False
  let ?p = "ctx_parent NIL fs"
  have ctx: "rep_ctx t NIL (root t) fs NIL" and "len t \<le> NIL"
    using T(1) by (auto simp: shape_def rep_plug)
  then have p: "?p \<noteq> NIL" "?p < len t"
    using False by (cases fs; cases "hd fs"; auto)+
  obtain new t1 where t1: "add_node t (new_node RED k e v ?p) = (new, t1)" by fastforce
  obtain t2 where t2: "attach t1 ?p new k = Inr t2" "shape t2 (plug fs (Node Leaf new Leaf))"
    "len t2 = Suc (len t)" "new = len t" "col t2 new = RED" "item t2 new = (k, e, v)"
    "\<forall>i<len t. col t2 i = col t i \<and> item t2 i = item t i"
    using attach_ok[OF T(1) False len split t1] by blast
  have up: "upper (col t) (col t2) fs"
    using t2(7) rep_ctx_bounds[OF ctx] by (auto simp: upper_def)
  have last: "root_col (col t) (plug fs s) = col t (frame_idx (last fs))" for s
    using False by (induction fs arbitrary: s) (auto simp: fill_colors)
  have red: "red_at t2 fs Leaf new Leaf"
    using T(2-4) t2(2,5) upperD[OF up] last by (auto simp: red_at_def invc_plug invh_plug)
  have step: "insert_at t ?p k e v = (if par t2 ?p = NIL then Some (Inr t2) else fix_insert t2 new)"
    using p t1 t2(1,3) by (simp add: insert_at_def)
  obtain f gs where fs: "fs = f # gs" using False by (cases fs) auto
  obtain l r where sub: "fill f (Node Leaf new Leaf) = Node l ?p r"
    using fill_root[of f "Node Leaf new Leaf"] fs by auto
  then have sh: "shape t2 (plug gs (Node l ?p r))" using t2(2) fs by simp
  then have "rep_ctx t2 NIL (root t2) gs ?p" "len t2 \<le> NIL"
    by (auto simp: shape_def rep_plug)
  then have root: "par t2 ?p = NIL \<longleftrightarrow> gs = []"
    using ctx_parent_NIL shape_facts(2)[OF sh] by auto
  have post: "inorder (plug fs (Node Leaf new Leaf)) = lefts fs @ len t # rights fs"
    using t2(4) by (simp add: inorder_plug)
  show ?thesis
  proof (cases "gs = []")
    case True
    then have "col t2 ?p = BLACK" using red fs by (simp add: red_at_def)
    then have "rb_over t2 (lefts fs @ len t # rights fs)"
      unfolding rb_over_def using red fs True post
      by (intro exI[of _ "plug fs (Node Leaf new Leaf)"]) (auto simp: red_at_def invc_plug invh_plug fill_colors)
    with True step root t2 show ?thesis by auto
  next
    case False
    then obtain t' where "fix_insert t2 new = Some (Inr t')" "rb_over t' (lefts fs @ len t # rights fs)"
      "item t' = item t2" "len t' = len t2"
      using fix_insert_ok[OF red] fs post by auto
    with False step root t2 show ?thesis by auto
  qed
qed

text \<open>
  What a tree holds: the items in key order, in a red-black tree with a black root that uses
  every node of the arena.
\<close>

definition holds :: "('k::linorder, 'v) rbtree \<Rightarrow> ('k \<times> 'k \<times> 'v) list \<Rightarrow> bool" where
  "holds t xs \<longleftrightarrow> (\<exists>ns. rb_over t ns \<and> map (item t) ns = xs \<and> length ns = len t \<and> sorted (map fst xs))"

definition insert_item :: "'k::linorder \<times> 'k \<times> 'v \<Rightarrow> ('k \<times> 'k \<times> 'v) list \<Rightarrow> ('k \<times> 'k \<times> 'v) list" where
  "insert_item x xs = takeWhile (\<lambda>y. fst y < fst x) xs @ x # dropWhile (\<lambda>y. fst y < fst x) xs"

lemma insert_item_split:
  assumes "\<And>y. y \<in> set ys \<Longrightarrow> fst y < fst x" "\<And>z. z \<in> set zs \<Longrightarrow> \<not> fst z < fst x"
  shows "insert_item x (ys @ zs) = ys @ x # zs"
proof -
  have "takeWhile (\<lambda>y. fst y < fst x) zs = []" "dropWhile (\<lambda>y. fst y < fst x) zs = zs"
    using assms(2) by (cases zs; auto)+
  then show ?thesis
    using assms(1) by (simp add: insert_item_def takeWhile_append dropWhile_append)
qed

lemma holds_new: "holds rbtree_new []"
proof -
  have "shape (rbtree_new :: ('a, 'b) rbtree) Leaf"
    by (simp add: shape_def rbtree_new_def len_def)
  then have "rb_over (rbtree_new :: ('a, 'b) rbtree) []"
    unfolding rb_over_def by (intro exI[of _ Leaf]) simp
  then show ?thesis by (simp add: holds_def rbtree_new_def len_def)
qed

theorem insert_node_ok:
  assumes "holds t xs" "length xs < NIL"
  shows "\<exists>t'. insert_node t k e v = Some (Inr t') \<and> holds t' (insert_item (k, e, v) xs)"
proof -
  obtain T where T: "shape t T" "invc (col t) T" "invh (col t) T" "root_col (col t) T = BLACK"
    "map (item t) (inorder T) = xs" "length (inorder T) = len t" "sorted (map fst xs)"
    using assms(1) by (auto simp: holds_def rb_over_def)
  then have "rep t NIL (root t) T" "len t \<le> NIL" "sorted (map (key_of t) (inorder T))"
    by (auto simp: shape_def key_of_def[abs_def] comp_def)
  then obtain fs where fs: "find_parent t k (root t) NIL = Some (Inr (ctx_parent NIL fs))"
    "plug fs Leaf = T" "splits_at t k fs"
    using find_parent_ok by blast
  have "len t < NIL" using T(5,6) assms(2) by auto
  then obtain t' where t': "insert_at t (ctx_parent NIL fs) k e v = Some (Inr t')"
    "rb_over t' (lefts fs @ len t # rights fs)" "len t' = Suc (len t)" "item t' (len t) = (k, e, v)"
    "\<forall>i<len t. item t' i = item t i"
    using insert_at_ok[of t fs k e v] T(1-4) fs by auto
  have old: "inorder T = lefts fs @ rights fs" using fs(2) by (auto simp: inorder_plug)
  have "i < len t" if "i \<in> set (inorder T)" for i
    using rep_bounds[OF _ that] T(1) by (auto simp: shape_def)
  then have same: "map (item t') (lefts fs) = map (item t) (lefts fs)"
    "map (item t') (rights fs) = map (item t) (rights fs)"
    using t'(5) old by auto
  have new: "insert_item (k, e, v) xs = map (item t') (lefts fs @ len t # rights fs)"
  proof -
    have "insert_item (k, e, v) (map (item t) (lefts fs) @ map (item t) (rights fs)) =
        map (item t) (lefts fs) @ (k, e, v) # map (item t) (rights fs)"
      using fs(3) by (intro insert_item_split) (auto simp: splits_at_def key_of_def)
    then show ?thesis
      unfolding T(5)[symmetric] old map_append list.map t'(4) same .
  qed
  moreover have "sorted (map fst (insert_item (k, e, v) xs))"
    using T(5,7) old fs(3) unfolding new
    by (fastforce simp: sorted_append same t'(4) splits_at_def key_of_def)
  ultimately have "holds t' (insert_item (k, e, v) xs)"
    unfolding holds_def using t' old T(6) by (intro exI[of _ "lefts fs @ len t # rights fs"]) auto
  with fs t' show ?thesis by (auto simp: insert_node_def)
qed

subsection \<open>Traversals and checks\<close>

lemma node_link_ok:
  "rep t q i T \<Longrightarrow> len t \<le> NIL \<Longrightarrow> node_link t i = Inr (if T = Leaf then None else Some (nodes t ! i))"
  by (cases T) (auto simp: node_link_def)

lemma inorder_keys_ok:
  "rep t q i T \<Longrightarrow> len t \<le> NIL \<Longrightarrow>
   inorder_keys_internal t (if T = Leaf then None else Some (nodes t ! i)) = Some (Inr (map (key_of t) (inorder T)))"
proof (induction T arbitrary: q i)
  case (Node l n r)
  then have "rep t n (lft t n) l" "rep t n (rgt t n) r" "i = n" by auto
  with Node node_link_ok[of t n "lft t n" l] node_link_ok[of t n "rgt t n" r] show ?case
    by (subst inorder_keys_internal.simps) (simp add: key_of_def)
qed (simp add: inorder_keys_internal.simps)

lemma assert_black_count_ok:
  "rep t q i T \<Longrightarrow> len t \<le> NIL \<Longrightarrow> invh (col t) T \<Longrightarrow> T \<noteq> Leaf \<Longrightarrow>
   assert_black_count t i = Some (Inr (bh (col t) T))"
proof (induction T arbitrary: q i)
  case (Node l n r)
  then have sub: "rep t n (lft t n) l" "rep t n (rgt t n) r" "i = n" "n < len t" by auto
  then have "(if lft t n = NIL then Some (Inr 1) else assert_black_count t (lft t n)) = Some (Inr (bh (col t) l))"
    "(if rgt t n = NIL then Some (Inr 1) else assert_black_count t (rgt t n)) = Some (Inr (bh (col t) r))"
    using Node rep_index(1)[OF sub(1)] rep_index(1)[OF sub(2)] by (cases l; cases r; auto)+
  with Node.prems sub show ?case
    by (subst assert_black_count.simps)
      (cases "lft t n = NIL"; cases "rgt t n = NIL"; simp add: assert_that_def weight_def)
qed simp

lemma assert_child_black_ok:
  "rep t q i T \<Longrightarrow> len t \<le> NIL \<Longrightarrow> root_col (col t) T = BLACK \<Longrightarrow> assert_child_black t i = Some (Inr ())"
  by (cases T) (auto simp: assert_child_black_def assert_that_def)

lemma assert_colors_ok:
  "rep t q i T \<Longrightarrow> len t \<le> NIL \<Longrightarrow> invc (col t) T \<Longrightarrow> T \<noteq> Leaf \<Longrightarrow> assert_colors t i = Some (Inr ())"
proof (induction T arbitrary: q i)
  case (Node l n r)
  then have sub: "rep t n (lft t n) l" "rep t n (rgt t n) r" "i = n" "n < len t" by auto
  have kids: "(if lft t n \<noteq> NIL then assert_colors t (lft t n) else Some (Inr ())) = Some (Inr ())"
    "(if rgt t n \<noteq> NIL then assert_colors t (rgt t n) else Some (Inr ())) = Some (Inr ())"
    using Node sub rep_index(1)[OF sub(1)] rep_index(1)[OF sub(2)] by (cases l; cases r; auto)+
  have "col t n = RED \<Longrightarrow> assert_child_black t (lft t n) = Some (Inr ())"
    "col t n = RED \<Longrightarrow> assert_child_black t (rgt t n) = Some (Inr ())"
    using assert_child_black_ok[OF sub(1)] assert_child_black_ok[OF sub(2)] Node.prems by auto
  with kids sub show ?case
    by (subst assert_colors.simps) (cases "lft t n = NIL"; cases "rgt t n = NIL"; cases "col t n"; simp)
qed simp

lemma holds_checks:
  assumes "holds t xs" "xs \<noteq> []"
  shows "assert_rbtree_invariants t = Some (Inr ())" "to_inorder_keys t = Some (Inr (map fst xs))"
proof -
  obtain T where T: "rep t NIL (root t) T" "len t \<le> NIL" "invc (col t) T" "invh (col t) T"
    "root_col (col t) T = BLACK" "xs = map (item t) (inorder T)"
    using assms(1) by (auto simp: holds_def rb_over_def shape_def)
  then have ne: "T \<noteq> Leaf" using assms(2) by auto
  then have r: "root t < len t" "root t \<noteq> NIL" "col t (root t) = BLACK"
    using T(1,2,5) by (cases T; auto)+
  show "assert_rbtree_invariants t = Some (Inr ())"
    using r assert_black_count_ok[OF T(1,2,4) ne] assert_colors_ok[OF T(1,2,3) ne]
    by (simp add: assert_rbtree_invariants_def assert_that_def)
  show "to_inorder_keys t = Some (Inr (map fst xs))"
    using r inorder_keys_ok[OF T(1,2)] ne T(6) by (simp add: to_inorder_keys_def key_of_def comp_def)
qed

end
