(* ===== verification/Interval_Tree.thy ===== *)
theory Interval_Tree
  imports Llrb_Insert
begin

text \<open>
  The interval tree of \<open>src/src/interval/interval_tree.rs\<close>: closed intervals kept in the
  red-black tree by their start, and the query for all intervals that overlap a given one. What
  a client may rely on is the locale \<open>interval_index\<close>, interpreted at the end on these
  operations.
\<close>

datatype ('k, 'v) range_value = RangeValue (rv_start: 'k) (rv_end: 'k) (rv_value: 'v)

definition does_range_overlap :: "'k::linorder \<Rightarrow> 'k \<Rightarrow> 'k \<Rightarrow> 'k \<Rightarrow> bool" where
  "does_range_overlap first_start first_end second_start second_end =
     (if first_start > second_start then
        if second_end < first_start then False else True
      else if first_start < second_start then
        if first_end \<ge> second_start then True else False
      else True)"

definition interval_tree_new :: "('k, 'v) rbtree" where
  "interval_tree_new = rbtree_new"

definition interval_insert ::
  "('k::linorder, 'v) rbtree \<Rightarrow> 'k \<Rightarrow> 'k \<Rightarrow> 'v \<Rightarrow> ('k, 'v) rbtree run" where
  "interval_insert t s e v = insert_node t s e v"

partial_function (option) collect_overlapping_nodes ::
  "('k::linorder, 'v) rbtree \<Rightarrow> 'k \<Rightarrow> 'k \<Rightarrow> nat \<Rightarrow> ('k, 'v) range_value list \<Rightarrow>
   (bool \<times> ('k, 'v) range_value list) run" where
  [code]: "collect_overlapping_nodes t s e i overlaps =
     (if i = NIL then Some (Inr (False, overlaps))
      else
        run_bind (Some (node_at t i)) (\<lambda>n.
        run_bind (collect_overlapping_nodes t s e (left_node n) overlaps) (\<lambda>(is_left_done, overlaps1).
          if is_left_done then Some (Inr (True, overlaps1))
          else
            let overlaps2 =
              if does_range_overlap s e (node_start n) (node_end n)
              then overlaps1 @ [RangeValue (node_start n) (node_end n) (node_value n)] else overlaps1
            in if e < node_start n then Some (Inr (True, overlaps2))
               else collect_overlapping_nodes t s e (right_node n) overlaps2)))"

definition get_overlap ::
  "('k::linorder, 'v) rbtree \<Rightarrow> 'k \<Rightarrow> 'k \<Rightarrow> ('k, 'v) range_value list run" where
  "get_overlap t s e =
     run_bind (collect_overlapping_nodes t s e (root t) []) (\<lambda>(_, overlaps). Some (Inr overlaps))"

subsection \<open>The query finds exactly the overlapping intervals\<close>

lemma does_range_overlap_iff:
  "s \<le> e \<Longrightarrow> a \<le> b \<Longrightarrow> does_range_overlap s e a b \<longleftrightarrow> s \<le> b \<and> a \<le> e"
  by (auto simp: does_range_overlap_def)

lemma does_range_overlap_sym:
  "does_range_overlap s e a b \<longleftrightarrow> does_range_overlap a b s e"
  by (auto simp: does_range_overlap_def)

lemma no_overlap_above: "s \<le> e \<Longrightarrow> e < a \<Longrightarrow> \<not> does_range_overlap s e a b"
  by (auto simp: does_range_overlap_def)

fun to_range :: "'k \<times> 'k \<times> 'v \<Rightarrow> ('k, 'v) range_value" where
  "to_range (s, e, v) = RangeValue s e v"

definition overlapping :: "'k::linorder \<Rightarrow> 'k \<Rightarrow> ('k, 'v) range_value \<Rightarrow> bool" where
  "overlapping s e r \<longleftrightarrow> does_range_overlap s e (rv_start r) (rv_end r)"

definition found :: "('k::linorder, 'v) rbtree \<Rightarrow> 'k \<Rightarrow> 'k \<Rightarrow> nat list \<Rightarrow> ('k, 'v) range_value list" where
  "found t s e ns = filter (overlapping s e) (map (to_range \<circ> item t) ns)"

lemma found_simps [simp]:
  "found t s e [] = []"
  "found t s e (ns @ ms) = found t s e ns @ found t s e ms"
  by (simp_all add: found_def)

lemma found_above:
  assumes "s \<le> e" "\<And>n. n \<in> set ns \<Longrightarrow> e < key_of t n"
  shows "found t s e ns = []"
proof -
  have "\<not> overlapping s e (to_range (item t n))" if "n \<in> set ns" for n
    using assms(1) assms(2)[OF that] no_overlap_above
    by (cases "item t n") (auto simp: overlapping_def key_of_def)
  then show ?thesis by (simp add: found_def filter_empty_conv)
qed

lemma collect_ok:
  assumes "rep t q i T" "len t \<le> NIL" "sorted (map (key_of t) (inorder T))" "s \<le> e"
  shows "\<exists>stop. collect_overlapping_nodes t s e i ov = Some (Inr (stop, ov @ found t s e (inorder T))) \<and>
    (stop \<longrightarrow> (\<exists>n\<in>set (inorder T). e < key_of t n))"
  using assms(1-3)
proof (induction T arbitrary: q i ov)
  case Leaf
  then show ?case by (auto simp: collect_overlapping_nodes.simps)
next
  case (Node l n r)
  let ?ov1 = "ov @ found t s e (inorder l)" and ?ov2 = "ov @ found t s e (inorder l @ [n])"
  have n: "i = n" "n < len t" "i \<noteq> NIL" "rep t n (lft t n) l" "rep t n (rgt t n) r"
    and sorted: "sorted (map (key_of t) (inorder l))" "sorted (map (key_of t) (inorder r))"
      "\<And>x. x \<in> set (inorder l) \<Longrightarrow> key_of t x \<le> key_of t n" "\<And>y. y \<in> set (inorder r) \<Longrightarrow> key_of t n \<le> key_of t y"
    using Node.prems by (auto simp: sorted_append)
  obtain stop where left: "collect_overlapping_nodes t s e (lft t n) ov = Some (Inr (stop, ?ov1))"
    "stop \<longrightarrow> (\<exists>x\<in>set (inorder l). e < key_of t x)"
    using Node.IH(1)[OF n(4) Node.prems(2) sorted(1)] by blast
  have here: "found t s e [n] = (if does_range_overlap s e (fst (item t n)) (fst (snd (item t n)))
       then [RangeValue (fst (item t n)) (fst (snd (item t n))) (snd (snd (item t n)))] else [])"
    by (cases "item t n") (simp add: found_def overlapping_def)
  have step: "collect_overlapping_nodes t s e i ov =
      (if stop then Some (Inr (True, ?ov1)) else if e < key_of t n then Some (Inr (True, ?ov2))
       else collect_overlapping_nodes t s e (rgt t n) ?ov2)"
    using n left(1) by (subst collect_overlapping_nodes.simps) (simp add: Let_def key_of_def here)
  consider (left) "stop" | (here) "\<not> stop" "e < key_of t n" | (right) "\<not> stop" "\<not> e < key_of t n" by blast
  then show ?case
  proof cases
    case left
    then obtain x where "x \<in> set (inorder l)" "e < key_of t x" using \<open>stop \<longrightarrow> _\<close> by blast
    moreover from this have "found t s e (n # inorder r) = []"
      using sorted by (intro found_above[OF assms(4)]) (force dest: less_le_trans)
    ultimately show ?thesis using step left by (auto simp: found_def)
  next
    case here
    then have "found t s e (inorder r) = []"
      using sorted(4) by (intro found_above[OF assms(4)]) (force dest: less_le_trans)
    then show ?thesis using step here by (auto simp: found_def)
  next
    case right
    then show ?thesis
      using step Node.IH(2)[OF n(5) Node.prems(2) sorted(2), of ?ov2] by (auto simp: found_def)
  qed
qed

lemma get_overlap_ok:
  assumes "holds t xs" "s \<le> e"
  shows "get_overlap t s e = Some (Inr (filter (overlapping s e) (map to_range xs)))"
proof -
  obtain T where T: "rep t NIL (root t) T" "len t \<le> NIL" "map (item t) (inorder T) = xs" "sorted (map fst xs)"
    using assms(1) by (auto simp: holds_def rb_over_def shape_def)
  then have "sorted (map (key_of t) (inorder T))"
    by (auto simp: key_of_def[abs_def] comp_def)
  then show ?thesis
    using collect_ok[OF T(1,2) _ assms(2), of "[]"] T(3) by (auto simp: get_overlap_def found_def)
qed

subsection \<open>The contract\<close>

text \<open>
  An interval index holds a multiset of intervals. Inserting returns and adds one; a query with
  a proper range returns the intervals that overlap it.
\<close>

locale interval_index =
  fixes empty_index :: "'t"
    and insert_interval :: "'t \<Rightarrow> 'k::linorder \<Rightarrow> 'k \<Rightarrow> 'v \<Rightarrow> 't run"
    and query :: "'t \<Rightarrow> 'k \<Rightarrow> 'k \<Rightarrow> ('k, 'v) range_value list run"
    and content :: "'t \<Rightarrow> ('k, 'v) range_value multiset \<Rightarrow> bool"
    and capacity :: nat
  assumes content_empty: "content empty_index {#}"
    and content_insert: "content t M \<Longrightarrow> size M < capacity \<Longrightarrow>
      \<exists>t'. insert_interval t s e v = Some (Inr t') \<and> content t' (add_mset (RangeValue s e v) M)"
    and query_content: "content t M \<Longrightarrow> s \<le> e \<Longrightarrow>
      \<exists>rs. query t s e = Some (Inr rs) \<and> mset rs = filter_mset (overlapping s e) M"
begin

text \<open>Inserting a whole sequence of intervals.\<close>

lemma content_inserts:
  assumes "content t M" "size M + length rs \<le> capacity"
  shows "\<exists>t'. foldl (\<lambda>acc r. run_bind acc (\<lambda>t. insert_interval t (rv_start r) (rv_end r) (rv_value r)))
      (Some (Inr t)) rs = Some (Inr t') \<and> content t' (M + mset rs)"
  using assms
proof (induction rs arbitrary: t M)
  case (Cons r rs)
  then obtain t1 where t1: "insert_interval t (rv_start r) (rv_end r) (rv_value r) = Some (Inr t1)"
    "content t1 (add_mset r M)"
    using content_insert[of t M "rv_start r" "rv_end r" "rv_value r"] by auto
  with Cons.IH[OF t1(2)] Cons.prems(2) show ?case by auto
qed simp

end

text \<open>The interval tree provides it, up to the arena's index space.\<close>

definition intervals :: "('k::linorder, 'v) rbtree \<Rightarrow> ('k, 'v) range_value multiset \<Rightarrow> bool" where
  "intervals t M \<longleftrightarrow> (\<exists>xs. holds t xs \<and> mset (map to_range xs) = M)"

lemma mset_insert_item: "mset (insert_item x xs) = add_mset x (mset xs)"
proof -
  have "mset xs = mset (takeWhile (\<lambda>y. fst y < fst x) xs) + mset (dropWhile (\<lambda>y. fst y < fst x) xs)"
    by (metis mset_append takeWhile_dropWhile_id)
  then show ?thesis by (simp add: insert_item_def)
qed

interpretation itree: interval_index interval_tree_new interval_insert get_overlap intervals NIL
proof
  show "intervals interval_tree_new {#}"
    using holds_new by (auto simp: intervals_def interval_tree_new_def)
next
  fix t :: "('k::linorder, 'v) rbtree" and M and s e :: 'k and v :: 'v
  assume "intervals t M" "size M < NIL"
  then obtain xs where xs: "holds t xs" "mset (map to_range xs) = M" "length xs < NIL"
    by (auto simp: intervals_def)
  then obtain t' where "insert_node t s e v = Some (Inr t')" "holds t' (insert_item (s, e, v) xs)"
    using insert_node_ok[OF xs(1,3), of s e v] by blast
  moreover from this have "intervals t' (add_mset (RangeValue s e v) M)"
    unfolding intervals_def using xs(2) by (intro exI[of _ "insert_item (s, e, v) xs"]) (simp add: mset_insert_item)
  ultimately show "\<exists>t'. interval_insert t s e v = Some (Inr t') \<and> intervals t' (add_mset (RangeValue s e v) M)"
    by (simp add: interval_insert_def)
next
  fix t :: "('k::linorder, 'v) rbtree" and M and s e :: 'k
  assume "intervals t M" "s \<le> e"
  then show "\<exists>rs. get_overlap t s e = Some (Inr rs) \<and> mset rs = filter_mset (overlapping s e) M"
    using get_overlap_ok[OF _ \<open>s \<le> e\<close>] by (force simp: intervals_def simp flip: mset_map mset_filter)
qed

end
