(* ===== verification/Request.thy ===== *)
theory Request
  imports Txn
begin

text \<open>
  Requests and the key spans they touch (the data and the synchronous part of
  \<open>src/src/execute/request.rs\<close>). The transaction of a request is given by its link.
\<close>

datatype 'k range = Range (range_start: 'k) (range_end: 'k)

type_synonym span_set = "key range list"

datatype request_union = BeginTxn uuid | CommitTxn | AbortTxn | Get key | Put key val

record request =
  request_txn :: uuid
  request_body :: request_union

definition point_span :: "key \<Rightarrow> key range" where
  "point_span k = Range k k"

text \<open>\<open>Vec::retain\<close> with a set of the starts seen so far: the first span of each start stays.\<close>

fun retain_new :: "key set \<Rightarrow> span_set \<Rightarrow> span_set" where
  "retain_new uniques [] = []"
| "retain_new uniques (r # rs) =
     (if range_start r \<in> uniques then retain_new uniques rs
      else r # retain_new (insert (range_start r) uniques) rs)"

definition dedupe_spanset :: "span_set \<Rightarrow> span_set" where
  "dedupe_spanset v = retain_new {} v"

text \<open>The spans of a commit and of an abort, which the source writes twice.\<close>

definition finalize_spans :: "txn \<Rightarrow> span_set" where
  "finalize_spans t = dedupe_spanset (map point_span (lock_spans t) @ map point_span (read_set t))"

definition abort_collect_spans :: "txn \<Rightarrow> span_set" where
  "abort_collect_spans t =
     (let read_spans = map point_span (read_set t) in dedupe_spanset (map point_span (lock_spans t) @ read_spans))"

lemma abort_collect_spans_eq [simp]: "abort_collect_spans t = finalize_spans t"
  by (simp add: abort_collect_spans_def finalize_spans_def)

definition collect_spans :: "request_union \<Rightarrow> txn \<Rightarrow> span_set" where
  "collect_spans r t =
     (case r of
        BeginTxn _ \<Rightarrow> []
      | CommitTxn \<Rightarrow> finalize_spans t
      | AbortTxn \<Rightarrow> abort_collect_spans t
      | Get k \<Rightarrow> [point_span k]
      | Put k _ \<Rightarrow> [point_span k])"

definition is_read_only :: "request_union \<Rightarrow> bool" where
  "is_read_only r =
     (case r of BeginTxn _ \<Rightarrow> True | CommitTxn \<Rightarrow> True | AbortTxn \<Rightarrow> True | Get _ \<Rightarrow> True | Put _ _ \<Rightarrow> False)"

definition get_type_string :: "request_union \<Rightarrow> string" where
  "get_type_string r =
     (case r of BeginTxn _ \<Rightarrow> ''begin txn'' | CommitTxn \<Rightarrow> ''commit txn'' | Get _ \<Rightarrow> ''get''
      | Put _ _ \<Rightarrow> ''put'' | AbortTxn \<Rightarrow> ''abort'')"

subsection \<open>Spans\<close>

lemma retain_new_ok:
  "range_start ` set (retain_new U rs) = range_start ` set rs - U \<and>
   distinct (map range_start (retain_new U rs)) \<and> set (retain_new U rs) \<subseteq> set rs"
proof (induction rs arbitrary: U)
  case (Cons r rs)
  show ?case
  proof (cases "range_start r \<in> U")
    case True
    with Cons[of U] show ?thesis by auto
  next
    case False
    with Cons[of "insert (range_start r) U"] show ?thesis by auto
  qed
qed simp

lemma collect_spans_points: "sp \<in> set (collect_spans r t) \<Longrightarrow> range_end sp = range_start sp"
  using retain_new_ok[of "{}" "map point_span (lock_spans t) @ map point_span (read_set t)"]
  by (auto simp: collect_spans_def finalize_spans_def dedupe_spanset_def point_span_def
      split: request_union.splits)

lemma collect_spans_distinct: "distinct (map range_start (collect_spans r t))"
  using retain_new_ok by (auto simp: collect_spans_def finalize_spans_def dedupe_spanset_def
      split: request_union.splits)

lemma finalize_spans_keys: "range_start ` set (finalize_spans t) = set (lock_spans t) \<union> set (read_set t)"
  using retain_new_ok[of "{}" "map point_span (lock_spans t) @ map point_span (read_set t)"]
  by (auto simp: finalize_spans_def dedupe_spanset_def point_span_def image_image image_Un)

end
