(* ===== verification/Oracle.thy ===== *)
theory Oracle
  imports Interval_Tree Request
begin

text \<open>
  The timestamp oracle (\<open>src/src/timestamp_oracle/oracle.rs\<close>): the read timestamps of past
  requests per key range, over the interval tree. The lock around the tree is held for the whole
  of each operation, so an operation is one step on the tree.
\<close>

datatype oracle_value = OracleValue (ov_timestamp: timestamp) (ov_txn_id: "uuid option")

type_synonym timestamp_oracle = "(key, oracle_value) rbtree"

definition oracle_new :: timestamp_oracle where
  "oracle_new = interval_tree_new"

definition oracle_add ::
  "timestamp_oracle \<Rightarrow> timestamp \<Rightarrow> key \<Rightarrow> key \<Rightarrow> uuid option \<Rightarrow> timestamp_oracle run" where
  "oracle_add g ts start stop tid = interval_insert g start stop (OracleValue ts tid)"

fun add_spans :: "timestamp_oracle \<Rightarrow> timestamp \<Rightarrow> uuid option \<Rightarrow> span_set \<Rightarrow> timestamp_oracle run" where
  "add_spans g ts tid [] = Some (Inr g)"
| "add_spans g ts tid (Range s e # spans) =
     run_bind (oracle_add g ts s e tid) (\<lambda>g'. add_spans g' ts tid spans)"

definition update_cache :: "txn_map \<Rightarrow> timestamp_oracle \<Rightarrow> request \<Rightarrow> timestamp_oracle run" where
  "update_cache txns g req =
     run_bind (Some (unwrap (txns (request_txn req)))) (\<lambda>t.
       add_spans g (read_timestamp t) (Some (txn_id t)) (collect_spans (request_body req) t))"

text \<open>One turn of the loop of \<open>get_max_timestamp\<close>.\<close>

definition max_step ::
  "(timestamp \<times> uuid option) option \<Rightarrow> (key, oracle_value) range_value \<Rightarrow> (timestamp \<times> uuid option) option" where
  "max_step mx r =
     (let v = rv_value r in
      case mx of
        Some (curr_timestamp, _) \<Rightarrow>
          (case timestamp_cmp curr_timestamp (ov_timestamp v) of
             Less \<Rightarrow> Some (ov_timestamp v, ov_txn_id v)
           | Equal \<Rightarrow> Some (ov_timestamp v, None)
           | Greater \<Rightarrow> mx)
      | None \<Rightarrow> Some (ov_timestamp v, ov_txn_id v))"

definition get_max_timestamp ::
  "timestamp_oracle \<Rightarrow> key \<Rightarrow> key \<Rightarrow> (timestamp \<times> uuid option) option run" where
  "get_max_timestamp g start stop =
     run_bind (get_overlap g start stop) (\<lambda>overlaps. Some (Inr (foldl max_step None overlaps)))"

subsection \<open>The maximum\<close>

text \<open>
  The answer for a multiset of entries: nothing when there is none, else the greatest timestamp,
  with the transaction of the entry that carries it when only one entry does.
\<close>

definition max_of :: "(key, oracle_value) range_value multiset \<Rightarrow> (timestamp \<times> uuid option) option \<Rightarrow> bool" where
  "max_of M mx \<longleftrightarrow>
     (case mx of
        None \<Rightarrow> M = {#}
      | Some (m, tid) \<Rightarrow>
          (\<forall>r\<in>#M. ov_timestamp (rv_value r) \<le> m) \<and>
          (let tops = filter_mset (\<lambda>r. ov_timestamp (rv_value r) = m) M in
           tops \<noteq> {#} \<and>
           (\<forall>r. tops = {#r#} \<longrightarrow> tid = ov_txn_id (rv_value r)) \<and>
           (1 < size tops \<longrightarrow> tid = None)))"

lemma max_of_step:
  assumes "max_of M mx"
  shows "max_of (add_mset r M) (max_step mx r)"
proof (cases mx)
  case None
  with assms show ?thesis by (simp add: max_of_def max_step_def Let_def)
next
  case (Some p)
  obtain m tid where p: "p = (m, tid)" by (cases p)
  let ?ts = "ov_timestamp (rv_value r)" and ?tops = "filter_mset (\<lambda>r. ov_timestamp (rv_value r) = m) M"
  have M: "\<forall>r\<in>#M. ov_timestamp (rv_value r) \<le> m" "?tops \<noteq> {#}"
    "\<forall>r. ?tops = {#r#} \<longrightarrow> tid = ov_txn_id (rv_value r)" "1 < size ?tops \<longrightarrow> tid = None"
    using assms Some p by (simp_all add: max_of_def Let_def)
  consider "m < ?ts" | "m = ?ts" | "?ts < m" by force
  then show ?thesis
  proof cases
    case 1
    then have "filter_mset (\<lambda>r. ov_timestamp (rv_value r) = ?ts) M = {#}"
      using M(1) by (force simp: multiset_eq_iff simp flip: not_in_iff)
    with 1 M(1) Some p show ?thesis
      by (auto simp: max_of_def max_step_def Let_def timestamp_cmp_eq_cmp cmp_def
          simp flip: nonempty_has_size)
  next
    case 2
    with M Some p show ?thesis
      by (auto simp: max_of_def max_step_def Let_def timestamp_cmp_eq_cmp cmp_def)
  next
    case 3
    with M Some p show ?thesis
      by (auto simp: max_of_def max_step_def Let_def timestamp_cmp_eq_cmp cmp_def)
  qed
qed

lemma max_of_ge:
  assumes "max_of M mx" "r \<in># M"
  shows "\<exists>m tid. mx = Some (m, tid) \<and> ov_timestamp (rv_value r) \<le> m"
  using assms by (cases mx) (auto simp: max_of_def)

lemma max_of_foldl: "max_of M mx \<Longrightarrow> max_of (M + mset rs) (foldl max_step mx rs)"
proof (induction rs arbitrary: M mx)
  case (Cons r rs)
  then show ?case using Cons.IH[OF max_of_step[OF Cons.prems, of r]] by simp
qed simp

lemma max_of_mset: "max_of (mset rs) (foldl max_step None rs)"
  using max_of_foldl[of "{#}" None rs] by (simp add: max_of_def)

context interval_index
begin

text \<open>What a client computes from the answer, when it does not depend on the answer's order.\<close>

lemma query_computes:
  assumes "content t M" "s \<le> e" "\<And>rs. P (mset rs) (f rs)"
  shows "\<exists>rs. query t s e = Some (Inr rs) \<and> P (filter_mset (overlapping s e) M) (f rs)"
  using query_content[OF assms(1,2)] assms(3) by metis

end

lemma get_max_timestamp_ok:
  assumes "intervals g M" "s \<le> e"
  shows "\<exists>mx. get_max_timestamp g s e = Some (Inr mx) \<and> max_of (filter_mset (overlapping s e) M) mx"
  using itree.query_computes[OF assms, of max_of, OF max_of_mset] by (auto simp: get_max_timestamp_def)

lemma add_spans_ok:
  assumes "intervals g M" "size M + length spans \<le> NIL"
  shows "\<exists>g'. add_spans g ts tid spans = Some (Inr g') \<and>
    intervals g' (M + mset (map (\<lambda>sp. RangeValue (range_start sp) (range_end sp) (OracleValue ts tid)) spans))"
  using assms
proof (induction spans arbitrary: g M)
  case (Cons sp spans)
  obtain s e where sp: "sp = Range s e" by (cases sp)
  obtain g1 where g1: "interval_insert g s e (OracleValue ts tid) = Some (Inr g1)"
    "intervals g1 (add_mset (RangeValue s e (OracleValue ts tid)) M)"
    using itree.content_insert[OF Cons.prems(1), of s e "OracleValue ts tid"] Cons.prems(2) by auto
  from Cons.IH[OF g1(2)] Cons.prems(2) g1(1) sp show ?case by (auto simp: oracle_add_def)
qed simp

end
