(* ===== verification/Index_Properties.thy ===== *)
theory Index_Properties
  imports Oracle
begin

text \<open>
  The properties of the red-black tree, the interval tree on it and the timestamp oracle on that,
  stated on the operations from an empty tree onwards.
\<close>

subsection \<open>The red-black tree\<close>

definition insert_all :: "('k::linorder \<times> 'k \<times> 'v) list \<Rightarrow> ('k, 'v) rbtree run" where
  "insert_all xs =
     foldl (\<lambda>acc (k, e, v). run_bind acc (\<lambda>t. insert_node t k e v)) (Some (Inr rbtree_new)) xs"

lemma holds_insert_all:
  assumes "length xs \<le> NIL"
  shows "\<exists>t. insert_all xs = Some (Inr t) \<and> (\<exists>ys. holds t ys \<and> mset ys = mset xs)"
  using assms
proof (induction xs rule: rev_induct)
  case Nil
  then show ?case using holds_new by (auto simp: insert_all_def)
next
  case (snoc x xs)
  then obtain t ys where t: "insert_all xs = Some (Inr t)" "holds t ys" "mset ys = mset xs"
    by auto
  obtain k e v where x: "x = (k, e, v)" by (cases x)
  have "length ys < NIL" using snoc.prems mset_eq_length[OF t(3)] by simp
  then obtain t' where "insert_node t k e v = Some (Inr t')" "holds t' (insert_item (k, e, v) ys)"
    using insert_node_ok[OF t(2)] by blast
  with t(1,3) x mset_insert_item[of "(k, e, v)" ys] show ?case
    by (auto simp: insert_all_def)
qed

text \<open>
  C9: inserting any non-empty sequence of items (as many as the index type can name) into an
  empty tree returns without a panic; the result passes the source's own check of the red-black
  invariants, and its in-order traversal is the keys in ascending order.
\<close>

theorem inserts_build_red_black_tree:
  assumes "xs \<noteq> []" "length xs \<le> NIL"
  shows "\<exists>t. insert_all xs = Some (Inr t) \<and> assert_rbtree_invariants t = Some (Inr ()) \<and>
    to_inorder_keys t = Some (Inr (sort (map fst xs)))"
proof -
  obtain t ys where t: "insert_all xs = Some (Inr t)" "holds t ys" "mset ys = mset xs"
    using holds_insert_all[OF assms(2)] by auto
  then have "ys \<noteq> []" using assms(1) by auto
  moreover have "map fst ys = sort (map fst xs)"
    using t(2,3) by (intro properties_for_sort[symmetric]) (auto simp: holds_def)
  ultimately show ?thesis using t(1) holds_checks[OF t(2)] by auto
qed

theorem inserts_build_red_black_tree_witness:
  "\<exists>t :: (int, int) rbtree. insert_all [(61, 3, 1), (52, 3, 1), (85, 3, 1), (93, 3, 1), (87, 3, 1)] = Some (Inr t) \<and>
     to_inorder_keys t = Some (Inr [52, 61, 85, 87, 93])"
  using inserts_build_red_black_tree[of "[(61, 3, 1), (52, 3, 1), (85, 3, 1), (93, 3, 1), (87, 3, 1)] :: (int \<times> int \<times> int) list"]
  by (auto simp: NIL_def)

text \<open>
  Inserting into a red-black tree that holds some items adds the new item in front of those
  with the same start and keeps every other item, the order and the red-black invariants.
\<close>

lemma insert_node_adds_item:
  assumes "holds t xs" "length xs < NIL"
  shows "\<exists>t'. insert_node t k e v = Some (Inr t') \<and> holds t' (insert_item (k, e, v) xs)"
  by (rule insert_node_ok[OF assms])

subsection \<open>The interval tree\<close>

text \<open>
  C10: after inserting any intervals, a query with a proper range returns without a panic exactly
  the inserted intervals that overlap it, as often as they were inserted, although the search
  stops at the first start past the range.
\<close>

theorem interval_query_complete:
  assumes "length rs \<le> NIL" "s \<le> e"
  shows "\<exists>t found. foldl (\<lambda>acc r. run_bind acc (\<lambda>t. interval_insert t (rv_start r) (rv_end r) (rv_value r)))
      (Some (Inr interval_tree_new)) rs = Some (Inr t) \<and>
    get_overlap t s e = Some (Inr found) \<and>
    mset found = filter_mset (\<lambda>r. does_range_overlap s e (rv_start r) (rv_end r)) (mset rs)"
proof -
  obtain t where t: "foldl (\<lambda>acc r. run_bind acc (\<lambda>t. interval_insert t (rv_start r) (rv_end r) (rv_value r)))
      (Some (Inr interval_tree_new)) rs = Some (Inr t)" "intervals t (mset rs)"
    using itree.content_inserts[OF itree.content_empty, of rs] assms(1) by auto
  then show ?thesis
    using itree.query_content[OF t(2) assms(2)] by (auto simp: overlapping_def[abs_def])
qed

theorem interval_query_complete_witness:
  "\<exists>t found. foldl (\<lambda>acc r. run_bind acc (\<lambda>t. interval_insert t (rv_start r) (rv_end r) (rv_value r)))
      (Some (Inr interval_tree_new)) [RangeValue 0 5 12, RangeValue 3 7 13, RangeValue 11 (12 :: int) (5 :: int)]
      = Some (Inr t) \<and>
    get_overlap t 1 5 = Some (Inr found) \<and> mset found = {#RangeValue 0 5 12, RangeValue 3 7 13#}"
  using interval_query_complete[of "[RangeValue 0 5 12, RangeValue 3 7 13, RangeValue 11 (12 :: int) (5 :: int)]" 1 5]
  by (simp add: NIL_def does_range_overlap_def)

text \<open>
  On proper ranges the source's case distinction is the usual overlap of closed intervals.
\<close>

lemma does_range_overlap_closed:
  assumes "s \<le> e" "a \<le> b"
  shows "does_range_overlap s e a b \<longleftrightarrow> (\<exists>x. s \<le> x \<and> x \<le> e \<and> a \<le> x \<and> x \<le> b)"
  using assms by (auto simp: does_range_overlap_def intro: exI[of _ "max s a"] order_trans)

subsection \<open>The timestamp oracle\<close>

text \<open>
  After a request has been recorded, the oracle answers for every span of the request with a
  timestamp that is not below the read timestamp of its transaction; recording does not fail.
\<close>

lemma update_cache_protects_reads:
  assumes "intervals g M" "txns (request_txn req) = Some t"
    and "size M + length (collect_spans (request_body req) t) \<le> NIL"
    and "sp \<in> set (collect_spans (request_body req) t)"
  shows "\<exists>g' m tid. update_cache txns g req = Some (Inr g') \<and>
    get_max_timestamp g' (range_start sp) (range_end sp) = Some (Inr (Some (m, tid))) \<and> read_timestamp t \<le> m"
proof -
  let ?rv = "\<lambda>sp. RangeValue (range_start sp) (range_end sp) (OracleValue (read_timestamp t) (Some (txn_id t)))"
  let ?M = "M + mset (map ?rv (collect_spans (request_body req) t))"
  obtain g' where g': "update_cache txns g req = Some (Inr g')" "intervals g' ?M"
    using add_spans_ok[OF assms(1,3)] assms(2) by (force simp: update_cache_def)
  have "range_start sp \<le> range_end sp" using collect_spans_points[OF assms(4)] by simp
  then obtain mx where mx: "get_max_timestamp g' (range_start sp) (range_end sp) = Some (Inr mx)"
    "max_of (filter_mset (overlapping (range_start sp) (range_end sp)) ?M) mx"
    using get_max_timestamp_ok[OF g'(2)] by blast
  have "?rv sp \<in># filter_mset (overlapping (range_start sp) (range_end sp)) ?M"
    using assms(4) by (auto simp: overlapping_def does_range_overlap_def)
  then have "\<exists>m tid. mx = Some (m, tid) \<and> read_timestamp t \<le> m"
    using max_of_ge[OF mx(2)] by fastforce
  with g'(1) mx(1) show ?thesis by blast
qed

text \<open>
  The oracle's answer over a proper range: nothing when no recorded range overlaps it, else
  the greatest timestamp of the overlapping ranges, with the transaction of the range that
  carries it when exactly one does.
\<close>

lemma get_max_timestamp_is_max:
  assumes "intervals g M" "s \<le> e"
  shows "\<exists>mx. get_max_timestamp g s e = Some (Inr mx) \<and> max_of (filter_mset (overlapping s e) M) mx"
  by (rule get_max_timestamp_ok[OF assms])

text \<open>
  When one transaction reads the same key twice at one timestamp, the oracle no longer
  names it: the answer carries the timestamp and no transaction, although the maximum belongs to
  a single transaction.
\<close>

lemma oracle_forgets_repeated_reader:
  "run_bind (oracle_add oracle_new ts k k (Some u)) (\<lambda>g.
     run_bind (oracle_add g ts k k (Some u)) (\<lambda>g'. get_max_timestamp g' k k)) = Some (Inr (Some (ts, None)))"
proof -
  let ?r = "RangeValue k k (OracleValue ts (Some u))"
  have cap: "0 < NIL" "1 < NIL" by (simp_all add: NIL_def)
  obtain g where g: "oracle_add oracle_new ts k k (Some u) = Some (Inr g)" "intervals g {#?r#}"
    using itree.content_insert[OF itree.content_empty] cap by (force simp: oracle_add_def oracle_new_def)
  obtain g' where g': "oracle_add g ts k k (Some u) = Some (Inr g')" "intervals g' {#?r, ?r#}"
    using itree.content_insert[OF g(2)] cap by (force simp: oracle_add_def)
  obtain mx where mx: "get_max_timestamp g' k k = Some (Inr mx)" "max_of {#?r, ?r#} mx"
    using get_max_timestamp_ok[OF g'(2), of k k] by (auto simp: overlapping_def does_range_overlap_def)
  have "mx = Some (ts, None)"
    using mx(2) by (auto simp: max_of_def Let_def split: option.splits if_splits)
  with g(1) g'(1) mx(1) show ?thesis by simp
qed

end
