(* ===== verification/Lock_Table.thy ===== *)
theory Lock_Table
  imports Request
begin

text \<open>
  The lock table (\<open>src/src/lock_table/lock_table.rs\<close>): per key the holder of the lock, the
  reservation, the queued writers and the waiting readers. Links (\<open>Arc\<close>) are references into
  explicit stores: a guard link is its \<open>guard_id\<close>, a transaction link the transaction's
  identifier, and a lock state link the key, since the map never replaces an entry. The
  one-message channel of a guard is the number of messages in it; sending into a full channel
  suspends the sender, which is the value \<open>None\<close> of a \<open>run\<close>. Every method is one step.
\<close>

datatype waiting_state = Waiting | DoneWaiting

record lock_guard =
  should_wait :: bool
  guard_txn :: uuid
  wait_done :: nat
  guard_read_only :: bool
  wait_state :: waiting_state
  guard_keys :: span_set

record lock_state =
  reservation :: "uuid option"
  lock_holder :: "txn_metadata option"
  queued_writers :: "uuid list"
  waiting_readers :: "uuid list"
  last_committed_timestamp :: "timestamp option"

record lock_table =
  locks :: "key \<rightharpoonup> lock_state"
  lt_txns :: txn_map
  lt_guards :: "uuid \<rightharpoonup> lock_guard"

datatype update_lock = CommitLock uuid timestamp | AbortLock uuid

datatype wait_for_guard_error = TxnAborted | TxnCommitted

subsection \<open>Links\<close>

text \<open>Following a link. A dangling link cannot occur in the source; the invariant rules it out.\<close>

definition guard_at :: "lock_table \<Rightarrow> uuid \<Rightarrow> lock_guard res" where
  "guard_at lt g = (case lt_guards lt g of None \<Rightarrow> Inl UnreachableCode | Some gd \<Rightarrow> Inr gd)"

definition txn_at :: "lock_table \<Rightarrow> uuid \<Rightarrow> txn res" where
  "txn_at lt u = (case lt_txns lt u of None \<Rightarrow> Inl UnreachableCode | Some t \<Rightarrow> Inr t)"

definition lock_at :: "lock_table \<Rightarrow> key \<Rightarrow> lock_state res" where
  "lock_at lt k = (case locks lt k of None \<Rightarrow> Inl UnreachableCode | Some st \<Rightarrow> Inr st)"

definition put_guard :: "lock_table \<Rightarrow> uuid \<Rightarrow> lock_guard \<Rightarrow> lock_table" where
  "put_guard lt g gd = lt\<lparr>lt_guards := (lt_guards lt)(g \<mapsto> gd)\<rparr>"

definition put_txn :: "lock_table \<Rightarrow> uuid \<Rightarrow> txn \<Rightarrow> lock_table" where
  "put_txn lt u t = lt\<lparr>lt_txns := (lt_txns lt)(u \<mapsto> t)\<rparr>"

definition put_lock :: "lock_table \<Rightarrow> key \<Rightarrow> lock_state \<Rightarrow> lock_table" where
  "put_lock lt k st = lt\<lparr>locks := (locks lt)(k \<mapsto> st)\<rparr>"

subsection \<open>Guards\<close>

definition lock_guard_new :: "uuid \<Rightarrow> bool \<Rightarrow> span_set \<Rightarrow> lock_guard" where
  "lock_guard_new tx is_ro keys =
     \<lparr>should_wait = False, guard_txn = tx, wait_done = 0, guard_read_only = is_ro,
      wait_state = DoneWaiting, guard_keys = keys\<rparr>"

definition update_wait_state :: "lock_table \<Rightarrow> uuid \<Rightarrow> waiting_state \<Rightarrow> lock_table res" where
  "update_wait_state lt g ws =
     rbind (guard_at lt g) (\<lambda>gd. Inr (put_guard lt g (gd\<lparr>wait_state := ws\<rparr>)))"

definition update_should_wait :: "lock_table \<Rightarrow> uuid \<Rightarrow> bool \<Rightarrow> lock_table res" where
  "update_should_wait lt g b =
     rbind (guard_at lt g) (\<lambda>gd. Inr (put_guard lt g (gd\<lparr>should_wait := b\<rparr>)))"

definition done_waiting_at_lock :: "lock_table \<Rightarrow> uuid \<Rightarrow> lock_table run" where
  "done_waiting_at_lock lt g =
     run_bind (Some (guard_at lt g)) (\<lambda>gd.
       if wait_done gd = 0
       then Some (update_wait_state (put_guard lt g (gd\<lparr>wait_done := 1\<rparr>)) g DoneWaiting)
       else None)"

definition guard_txn_id :: "lock_table \<Rightarrow> uuid \<Rightarrow> uuid res" where
  "guard_txn_id lt g =
     rbind (guard_at lt g) (\<lambda>gd. rbind (txn_at lt (guard_txn gd)) (\<lambda>t. Inr (txn_id t)))"

subsection \<open>Lock states\<close>

definition lock_state_new :: lock_state where
  "lock_state_new =
     \<lparr>reservation = None, lock_holder = None, queued_writers = [], waiting_readers = [],
      last_committed_timestamp = None\<rparr>"

definition upd_lock :: "lock_table \<Rightarrow> key \<Rightarrow> (lock_state \<Rightarrow> lock_state) \<Rightarrow> lock_table res" where
  "upd_lock lt k f = rbind (lock_at lt k) (\<lambda>st. Inr (put_lock lt k (f st)))"

definition update_reservation :: "lock_table \<Rightarrow> key \<Rightarrow> uuid option \<Rightarrow> lock_table res" where
  "update_reservation lt k link = upd_lock lt k (\<lambda>st. st\<lparr>reservation := link\<rparr>)"

definition update_holder :: "lock_table \<Rightarrow> key \<Rightarrow> txn_metadata option \<Rightarrow> lock_table res" where
  "update_holder lt k h = upd_lock lt k (\<lambda>st. st\<lparr>lock_holder := h\<rparr>)"

definition update_last_commit_timestamp :: "lock_table \<Rightarrow> key \<Rightarrow> timestamp \<Rightarrow> lock_table res" where
  "update_last_commit_timestamp lt k ts = upd_lock lt k (\<lambda>st. st\<lparr>last_committed_timestamp := Some ts\<rparr>)"

definition clear_readers :: "lock_table \<Rightarrow> key \<Rightarrow> lock_table res" where
  "clear_readers lt k = upd_lock lt k (\<lambda>st. st\<lparr>waiting_readers := []\<rparr>)"

definition remove_first_writer :: "lock_table \<Rightarrow> key \<Rightarrow> (uuid option \<times> lock_table) res" where
  "remove_first_writer lt k =
     rbind (lock_at lt k) (\<lambda>st.
       case queued_writers st of
         [] \<Rightarrow> Inr (None, lt)
       | w # ws \<Rightarrow> Inr (Some w, put_lock lt k (st\<lparr>queued_writers := ws\<rparr>)))"

definition get_holder_txn_id :: "lock_state \<Rightarrow> uuid option" where
  "get_holder_txn_id st = map_option meta_txn_id (lock_holder st)"

definition remove_holder_if_txn_is_holder :: "lock_table \<Rightarrow> key \<Rightarrow> uuid \<Rightarrow> lock_table res" where
  "remove_holder_if_txn_is_holder lt k tid =
     upd_lock lt k (\<lambda>st. if get_holder_txn_id st = Some tid then st\<lparr>lock_holder := None\<rparr> else st)"

definition get_reservation_txn_id :: "lock_table \<Rightarrow> lock_state \<Rightarrow> uuid option res" where
  "get_reservation_txn_id lt st =
     (case reservation st of
        None \<Rightarrow> Inr None
      | Some g \<Rightarrow> rbind (guard_txn_id lt g) (\<lambda>u. Inr (Some u)))"

definition bump_txn_write_timestamp :: "lock_table \<Rightarrow> key \<Rightarrow> uuid \<Rightarrow> lock_table res" where
  "bump_txn_write_timestamp lt k u =
     rbind (lock_at lt k) (\<lambda>st.
       case last_committed_timestamp st of
         Some last_commit_timestamp \<Rightarrow>
           rbind (txn_at lt u) (\<lambda>t.
             rbind (next_logical_timestamp last_commit_timestamp) (\<lambda>ts.
               Inr (put_txn lt u (t\<lparr>write_timestamp := ts\<rparr>))))
       | None \<Rightarrow> Inr lt)"

definition claim_reservation :: "lock_table \<Rightarrow> key \<Rightarrow> uuid \<Rightarrow> lock_table run" where
  "claim_reservation lt k g =
     run_bind (Some (guard_at lt g)) (\<lambda>gd.
     run_bind (Some (bump_txn_write_timestamp lt k (guard_txn gd))) (\<lambda>lt1.
     run_bind (Some (update_reservation lt1 k (Some g))) (\<lambda>lt2.
       done_waiting_at_lock lt2 g)))"

fun release_readers :: "lock_table \<Rightarrow> uuid list \<Rightarrow> lock_table run" where
  "release_readers lt [] = Some (Inr lt)"
| "release_readers lt (r # rs) =
     run_bind (done_waiting_at_lock lt r) (\<lambda>lt'. release_readers lt' rs)"

definition lock_is_free :: "lock_table \<Rightarrow> key \<Rightarrow> (bool \<times> lock_table) run" where
  "lock_is_free lt k =
     run_bind (Some (lock_at lt k)) (\<lambda>st.
       if lock_holder st \<noteq> None then Some (Inl (Explicit ''called lock_is_free with holder''))
       else if reservation st \<noteq> None then Some (Inl (Explicit ''called lock_is_free with reservation''))
       else
         run_bind (release_readers lt (waiting_readers st)) (\<lambda>lt1.
         run_bind (Some (clear_readers lt1 k)) (\<lambda>lt2.
         run_bind (Some (remove_first_writer lt2 k)) (\<lambda>(first_writer, lt3).
           case first_writer of
             Some writer \<Rightarrow> run_bind (claim_reservation lt3 k writer) (\<lambda>lt4. Some (Inr (False, lt4)))
           | None \<Rightarrow> Some (Inr (True, lt3))))))"

definition register_guard :: "lock_table \<Rightarrow> key \<Rightarrow> uuid \<Rightarrow> lock_table res" where
  "register_guard lt k g =
     rbind (guard_at lt g) (\<lambda>gd.
     rbind (txn_at lt (guard_txn gd)) (\<lambda>t.
     rbind (lock_at lt k) (\<lambda>st.
       let st1 = (if lock_holder st = None then st\<lparr>lock_holder := Some (to_txn_metadata t)\<rparr> else st);
           st2 = (if reservation st1 \<noteq> None then st1\<lparr>queued_writers := queued_writers st1 @ [g]\<rparr> else st1)
       in Inr (put_lock lt k st2))))"

text \<open>
  \<open>try_active_wait\<close>: the first part decides without queueing; \<open>enqueue_waiter\<close> is the rest,
  reached when another transaction holds or has reserved the lock.
\<close>

definition enqueue_waiter :: "lock_table \<Rightarrow> key \<Rightarrow> uuid \<Rightarrow> bool \<Rightarrow> timestamp \<Rightarrow> (bool \<times> lock_table) res" where
  "enqueue_waiter lt k g is_ro read_ts =
     rbind (lock_at lt k) (\<lambda>st.
       if is_ro then
         (case lock_holder st of
            Some holder \<Rightarrow>
              if read_ts < meta_write_timestamp holder then Inr (False, lt)
              else
                rbind (update_wait_state lt g Waiting) (\<lambda>lt1.
                rbind (upd_lock lt1 k (\<lambda>st. st\<lparr>waiting_readers := waiting_readers st @ [g]\<rparr>)) (\<lambda>lt2.
                rbind (update_should_wait lt2 g True) (\<lambda>lt3. Inr (True, lt3))))
          | None \<Rightarrow> Inr (False, lt))
       else
         rbind (update_wait_state lt g Waiting) (\<lambda>lt1.
         rbind (upd_lock lt1 k (\<lambda>st. st\<lparr>queued_writers := queued_writers st @ [g]\<rparr>)) (\<lambda>lt2.
         rbind (update_should_wait lt2 g True) (\<lambda>lt3. Inr (True, lt3)))))"

definition try_active_wait :: "lock_table \<Rightarrow> key \<Rightarrow> uuid \<Rightarrow> bool \<Rightarrow> (bool \<times> lock_table) run" where
  "try_active_wait lt k g is_ro =
     run_bind (Some (lock_at lt k)) (\<lambda>st.
       if is_ro \<and> lock_holder st = None then Some (Inr (False, lt))
       else
         run_bind (Some (guard_at lt g)) (\<lambda>gd.
         run_bind (Some (txn_at lt (guard_txn gd))) (\<lambda>t.
         let (lg_txn_id, lg_read_timestamp, _) = get_txn_properties t in
         run_bind (Some (get_reservation_txn_id lt st)) (\<lambda>res_txn_id.
           if res_txn_id = Some lg_txn_id then Some (Inr (False, lt))
           else if reservation st = None \<and> lock_holder st = None then
             run_bind (claim_reservation lt k g) (\<lambda>lt'. Some (Inr (False, lt')))
           else if get_holder_txn_id st = Some lg_txn_id then Some (Inr (False, lt))
           else Some (enqueue_waiter lt k g is_ro lg_read_timestamp)))))"

definition request_done :: "lock_table \<Rightarrow> key \<Rightarrow> uuid \<Rightarrow> lock_table run" where
  "request_done lt k g =
     run_bind (Some (lock_at lt k)) (\<lambda>st.
     run_bind
       (if reservation st = Some g then
          run_bind (Some (update_reservation lt k None)) (\<lambda>lt1.
          run_bind (lock_is_free lt1 k) (\<lambda>(_, lt2). Some (Inr lt2)))
        else Some (Inr lt)) (\<lambda>lt3.
       Some (upd_lock lt3 k (\<lambda>st.
         st\<lparr>queued_writers := filter (\<lambda>h. h \<noteq> g) (queued_writers st),
            waiting_readers := filter (\<lambda>h. h \<noteq> g) (waiting_readers st)\<rparr>))))"

subsection \<open>The table\<close>

definition lock_table_new :: "txn_map \<Rightarrow> lock_table" where
  "lock_table_new txns = \<lparr>locks = Map.empty, lt_txns = txns, lt_guards = Map.empty\<rparr>"

definition get_lock_state :: "lock_table \<Rightarrow> key \<Rightarrow> lock_state option" where
  "get_lock_state lt k = locks lt k"

definition add_discovered_lock :: "lock_table \<Rightarrow> uuid \<Rightarrow> txn_intent \<Rightarrow> lock_table res" where
  "add_discovered_lock lt g intent =
     (let k = intent_key intent;
          st = (case locks lt k of Some st \<Rightarrow> st | None \<Rightarrow> lock_state_new);
          st1 = (if lock_holder st = None then st\<lparr>lock_holder := Some (txn_meta intent)\<rparr> else st);
          st2 = st1\<lparr>reservation := None\<rparr>
      in rbind (guard_at lt g) (\<lambda>gd.
         rbind (update_wait_state (put_lock lt k st2) g Waiting) (\<lambda>lt1.
           upd_lock lt1 k (\<lambda>st.
             if guard_read_only gd then st\<lparr>waiting_readers := waiting_readers st @ [g]\<rparr>
             else st\<lparr>queued_writers := queued_writers st @ [g]\<rparr>))))"

fun scan_spans :: "lock_table \<Rightarrow> uuid \<Rightarrow> bool \<Rightarrow> span_set \<Rightarrow> (bool \<times> lock_table) run" where
  "scan_spans lt g is_ro [] =
     run_bind (Some (update_should_wait lt g False)) (\<lambda>lt'. Some (Inr (False, lt')))"
| "scan_spans lt g is_ro (span # spans) =
     (case get_lock_state lt (range_start span) of
        Some _ \<Rightarrow>
          run_bind (try_active_wait lt (range_start span) g is_ro) (\<lambda>(wait, lt').
            if wait then
              run_bind (Some (update_should_wait lt' g True)) (\<lambda>lt''. Some (Inr (True, lt'')))
            else scan_spans lt' g is_ro spans)
      | None \<Rightarrow> scan_spans lt g is_ro spans)"

text \<open>The identifier of the new guard is an argument (\<open>Uuid::new_v4\<close>).\<close>

definition scan_and_enqueue :: "lock_table \<Rightarrow> uuid \<Rightarrow> request \<Rightarrow> (bool \<times> uuid \<times> lock_table) run" where
  "scan_and_enqueue lt g req =
     run_bind (Some (txn_at lt (request_txn req))) (\<lambda>t.
       let spans = collect_spans (request_body req) t;
           is_ro = is_read_only (request_body req);
           lt1 = put_guard lt g (lock_guard_new (request_txn req) is_ro spans)
       in run_bind (scan_spans lt1 g is_ro spans) (\<lambda>(wait, lt2). Some (Inr (wait, g, lt2))))"

fun dequeue_spans :: "lock_table \<Rightarrow> uuid \<Rightarrow> span_set \<Rightarrow> lock_table run" where
  "dequeue_spans lt g [] = Some (Inr lt)"
| "dequeue_spans lt g (span # spans) =
     (case get_lock_state lt (range_start span) of
        Some _ \<Rightarrow> run_bind (request_done lt (range_start span) g) (\<lambda>lt'. dequeue_spans lt' g spans)
      | None \<Rightarrow> dequeue_spans lt g spans)"

definition dequeue :: "lock_table \<Rightarrow> uuid \<Rightarrow> lock_table run" where
  "dequeue lt g = run_bind (Some (guard_at lt g)) (\<lambda>gd. dequeue_spans lt g (guard_keys gd))"

definition acquire_lock :: "lock_table \<Rightarrow> key \<Rightarrow> uuid \<Rightarrow> lock_table res" where
  "acquire_lock lt k u =
     rbind (txn_at lt u) (\<lambda>t.
       let (tid, _, write_ts) = get_txn_properties t in
       case get_lock_state lt k of
         Some st \<Rightarrow>
           if get_holder_txn_id st \<noteq> None \<and> get_holder_txn_id st \<noteq> Some tid
           then Inl (Explicit ''trying to acquire lock held by another transaction'')
           else
             rbind (get_reservation_txn_id lt st) (\<lambda>res_txn_id.
               if res_txn_id \<noteq> None \<and> res_txn_id \<noteq> Some tid
               then Inl (Explicit ''trying to acquire lock reserved by another transaction'')
               else
                 rbind (update_reservation lt k None) (\<lambda>lt1.
                   update_holder lt1 k (Some (TxnMetadata tid write_ts))))
       | None \<Rightarrow>
           Inr (put_lock lt k (lock_state_new\<lparr>lock_holder := Some (TxnMetadata tid write_ts)\<rparr>)))"

definition update_lock_txn :: "update_lock \<Rightarrow> uuid" where
  "update_lock_txn u = (case u of CommitLock tid _ \<Rightarrow> tid | AbortLock tid \<Rightarrow> tid)"

definition update_locks :: "lock_table \<Rightarrow> key \<Rightarrow> update_lock \<Rightarrow> (bool \<times> lock_table) run" where
  "update_locks lt k u =
     (case get_lock_state lt k of
        None \<Rightarrow> Some (Inr (False, lt))
      | Some st \<Rightarrow>
          if reservation st = None \<and> lock_holder st = None then Some (Inr (True, lt))
          else if lock_holder st \<noteq> None \<and> get_holder_txn_id st \<noteq> Some (update_lock_txn u)
          then Some (Inr (False, lt))
          else
            run_bind (Some (update_holder lt k None)) (\<lambda>lt1.
            run_bind (Some (case u of CommitLock _ ts \<Rightarrow> update_last_commit_timestamp lt1 k ts
                                    | AbortLock _ \<Rightarrow> Inr lt1)) (\<lambda>lt2.
              lock_is_free lt2 k)))"

text \<open>
  \<open>wait_for\<close>. Either the message of \<open>done_waiting_at_lock\<close> arrives, or the timer fires and
  the holder of each key is pushed in turn. A push suspends the caller while other tasks change
  the table: \<open>pushes\<close> lists, for each push in order, its result and the table when it returned.
\<close>

datatype wait_select = Received | Elapsed "((wait_for_guard_error + unit) \<times> lock_table) list"

fun push_holders ::
  "lock_table \<Rightarrow> uuid \<Rightarrow> span_set \<Rightarrow> ((wait_for_guard_error + unit) \<times> lock_table) list \<Rightarrow>
   ((wait_for_guard_error + unit) \<times> lock_table) run" where
  "push_holders lt g [] pushes = Some (Inr (Inr (), lt))"
| "push_holders lt g (span # spans) pushes =
     run_bind (Some (unwrap (get_lock_state lt (range_start span)))) (\<lambda>st.
       case get_holder_txn_id st of
         None \<Rightarrow> push_holders lt g spans pushes
       | Some pushee \<Rightarrow>
           (case pushes of
              [] \<Rightarrow> None
            | (Inr (), lt') # rest \<Rightarrow> push_holders lt' g spans rest
            | (Inl err, lt') # rest \<Rightarrow>
                run_bind (request_done lt' (range_start span) g) (\<lambda>lt''. Some (Inr (Inl err, lt'')))))"

definition wait_for ::
  "lock_table \<Rightarrow> uuid \<Rightarrow> wait_select \<Rightarrow> ((wait_for_guard_error + unit) \<times> lock_table) run" where
  "wait_for lt g sel =
     run_bind (Some (guard_at lt g)) (\<lambda>gd.
       case sel of
         Received \<Rightarrow>
           if wait_done gd = 0 then None
           else Some (Inr (Inr (), put_guard lt g (gd\<lparr>wait_done := wait_done gd - 1\<rparr>)))
       | Elapsed pushes \<Rightarrow> push_holders lt g (guard_keys gd) pushes)"

subsection \<open>The invariant\<close>

text \<open>Reservation and lock holder do not both exist (the source states it on \<open>LockState\<close>).\<close>

definition exclusive :: "(key \<rightharpoonup> lock_state) \<Rightarrow> bool" where
  "exclusive L \<longleftrightarrow> (\<forall>k st. L k = Some st \<longrightarrow> reservation st = None \<or> lock_holder st = None)"

definition queue :: "lock_state \<Rightarrow> uuid list" where
  "queue st = queued_writers st @ waiting_readers st"

definition queue_at :: "(key \<rightharpoonup> lock_state) \<Rightarrow> key \<Rightarrow> uuid list" where
  "queue_at L k = (case L k of None \<Rightarrow> [] | Some st \<Rightarrow> queue st)"

lemma queue_at_upd [simp]:
  "queue_at (L(k \<mapsto> st)) = (queue_at L)(k := queue st)"
  by (auto simp: queue_at_def fun_eq_iff)

lemma queue_at_Some [simp]: "L k = Some st \<Longrightarrow> queue_at L k = queue st"
  by (simp add: queue_at_def)

text \<open>A guard waits in at most one queue, once, and has not been told to stop waiting.\<close>

definition queues_ok :: "(key \<Rightarrow> uuid list) \<Rightarrow> (uuid \<rightharpoonup> lock_guard) \<Rightarrow> bool" where
  "queues_ok Q G \<longleftrightarrow>
     (\<forall>k. distinct (Q k)) \<and>
     (\<forall>k k'. k \<noteq> k' \<longrightarrow> set (Q k) \<inter> set (Q k') = {}) \<and>
     (\<forall>k g. g \<in> set (Q k) \<longrightarrow> (\<exists>gd. G g = Some gd \<and> wait_done gd = 0 \<and> wait_state gd = Waiting))"

definition links_ok :: "(key \<rightharpoonup> lock_state) \<Rightarrow> (uuid \<rightharpoonup> lock_guard) \<Rightarrow> txn_map \<Rightarrow> bool" where
  "links_ok L G T \<longleftrightarrow>
     (\<forall>k st g. L k = Some st \<longrightarrow> reservation st = Some g \<longrightarrow> G g \<noteq> None) \<and>
     (\<forall>g gd. G g = Some gd \<longrightarrow> T (guard_txn gd) \<noteq> None)"

definition lock_inv :: "lock_table \<Rightarrow> bool" where
  "lock_inv lt \<longleftrightarrow>
     exclusive (locks lt) \<and> queues_ok (queue_at (locks lt)) (lt_guards lt) \<and>
     links_ok (locks lt) (lt_guards lt) (lt_txns lt)"

lemma lock_inv_new: "lock_inv (lock_table_new txns)"
  by (simp add: lock_inv_def lock_table_new_def exclusive_def queues_ok_def links_ok_def queue_at_def)

lemma lock_inv_queue:
  assumes "lock_inv lt" "locks lt k = Some st"
  shows "distinct (queue st)"
    "g \<in> set (queue st) \<Longrightarrow> \<exists>gd. lt_guards lt g = Some gd \<and> wait_done gd = 0 \<and> wait_state gd = Waiting"
proof -
  have "queue st = queue_at (locks lt) k" using assms(2) by simp
  with assms(1) show "distinct (queue st)"
    "g \<in> set (queue st) \<Longrightarrow> \<exists>gd. lt_guards lt g = Some gd \<and> wait_done gd = 0 \<and> wait_state gd = Waiting"
    unfolding lock_inv_def queues_ok_def by metis+
qed

subsection \<open>What a freed lock does\<close>

definition released :: "(uuid \<rightharpoonup> lock_guard) \<Rightarrow> uuid list \<Rightarrow> uuid \<rightharpoonup> lock_guard" where
  "released G gs g =
     (if g \<in> set gs then map_option (\<lambda>gd. gd\<lparr>wait_done := 1, wait_state := DoneWaiting\<rparr>) (G g) else G g)"

lemma done_waiting_ok:
  assumes "lt_guards lt g = Some gd" "wait_done gd = 0"
  shows "done_waiting_at_lock lt g = Some (Inr (lt\<lparr>lt_guards := released (lt_guards lt) [g]\<rparr>))"
proof -
  have "(lt_guards lt)(g \<mapsto> gd\<lparr>wait_done := Suc 0, wait_state := DoneWaiting\<rparr>) = released (lt_guards lt) [g]"
    using assms(1) by (auto simp: released_def fun_eq_iff)
  then show ?thesis
    using assms by (simp add: done_waiting_at_lock_def guard_at_def update_wait_state_def put_guard_def)
qed

lemma released_released:
  "released (released G gs) hs = released G (gs @ hs)"
  by (auto simp: released_def fun_eq_iff option.map_comp comp_def)

lemma release_readers_ok:
  assumes "distinct gs" "\<And>g. g \<in> set gs \<Longrightarrow> \<exists>gd. lt_guards lt g = Some gd \<and> wait_done gd = 0"
  shows "release_readers lt gs = Some (Inr (lt\<lparr>lt_guards := released (lt_guards lt) gs\<rparr>))"
  using assms
proof (induction gs arbitrary: lt)
  case Nil
  have "released G [] = G" for G by (simp add: released_def fun_eq_iff)
  then show ?case by simp
next
  case (Cons g gs)
  obtain gd where gd: "lt_guards lt g = Some gd" "wait_done gd = 0" using Cons.prems(2) by auto
  let ?lt = "lt\<lparr>lt_guards := released (lt_guards lt) [g]\<rparr>"
  have "\<exists>gd. lt_guards ?lt h = Some gd \<and> wait_done gd = 0" if "h \<in> set gs" for h
    using Cons.prems that by (auto simp: released_def)
  then have "release_readers ?lt gs = Some (Inr (?lt\<lparr>lt_guards := released (lt_guards ?lt) gs\<rparr>))"
    using Cons.IH Cons.prems(1) by simp
  then show ?case
    using done_waiting_ok[OF gd] by (simp add: released_released)
qed

lemma bump_effect:
  assumes "bump_txn_write_timestamp lt k u = Inr lt'"
  shows "locks lt' = locks lt" "lt_guards lt' = lt_guards lt" "lt_txns lt' v = None \<longleftrightarrow> lt_txns lt v = None"
  using assms by (auto simp: bump_txn_write_timestamp_def rbind_eq_Inr put_txn_def txn_at_def
      split: option.splits if_splits)

text \<open>The bump does not depend on the guards nor on this key's queues.\<close>

lemma bump_upd:
  assumes "locks lt k = Some st" "last_committed_timestamp st' = last_committed_timestamp st"
  shows "bump_txn_write_timestamp (lt\<lparr>lt_guards := G, locks := (locks lt)(k \<mapsto> st')\<rparr>) k u =
    rbind (bump_txn_write_timestamp lt k u) (\<lambda>lt'. Inr (lt'\<lparr>lt_guards := G, locks := (locks lt)(k \<mapsto> st')\<rparr>))"
  using assms
  by (cases "last_committed_timestamp st"; cases "lt_txns lt u";
      cases "next_logical_timestamp (the (last_committed_timestamp st))")
    (auto simp: bump_txn_write_timestamp_def lock_at_def txn_at_def put_txn_def)

lemma claim_reservation_ok:
  assumes "locks lt k = Some st" "lt_guards lt g = Some gd" "wait_done gd = 0"
  shows "claim_reservation lt k g =
    Some (rbind (bump_txn_write_timestamp lt k (guard_txn gd)) (\<lambda>lt'.
      Inr (lt'\<lparr>lt_guards := released (lt_guards lt) [g], locks := (locks lt)(k \<mapsto> st\<lparr>reservation := Some g\<rparr>)\<rparr>)))"
proof (cases "bump_txn_write_timestamp lt k (guard_txn gd)")
  case (Inr lt')
  let ?lt = "lt'\<lparr>locks := (locks lt)(k \<mapsto> st\<lparr>reservation := Some g\<rparr>)\<rparr>"
  note eff = bump_effect[OF Inr]
  have "update_reservation lt' k (Some g) = Inr ?lt"
    using assms(1) eff by (simp add: update_reservation_def upd_lock_def lock_at_def put_lock_def)
  moreover have "done_waiting_at_lock ?lt g = Some (Inr (?lt\<lparr>lt_guards := released (lt_guards lt) [g]\<rparr>))"
    using done_waiting_ok[of ?lt g gd] assms(2,3) eff by simp
  ultimately show ?thesis
    using assms(2) Inr by (simp add: claim_reservation_def guard_at_def)
qed (use assms in \<open>simp add: claim_reservation_def guard_at_def\<close>)

lemma lock_is_free_ok:
  assumes inv: "lock_inv lt" and st: "locks lt k = Some st" "lock_holder st = None" "reservation st = None"
  shows "lock_is_free lt k = Some (case queued_writers st of
      [] \<Rightarrow> Inr (True, lt\<lparr>lt_guards := released (lt_guards lt) (waiting_readers st),
                       locks := (locks lt)(k \<mapsto> st\<lparr>waiting_readers := []\<rparr>)\<rparr>)
    | w # ws \<Rightarrow> rbind (bump_txn_write_timestamp lt k (guard_txn (the (lt_guards lt w)))) (\<lambda>lt'.
        Inr (False, lt'\<lparr>lt_guards := released (lt_guards lt) (waiting_readers st @ [w]),
                        locks := (locks lt)(k \<mapsto> st\<lparr>waiting_readers := [], queued_writers := ws, reservation := Some w\<rparr>)\<rparr>)))"
proof -
  let ?G = "released (lt_guards lt) (waiting_readers st)"
  note q = lock_inv_queue[OF inv st(1)]
  have rel: "release_readers lt (waiting_readers st) = Some (Inr (lt\<lparr>lt_guards := ?G\<rparr>))"
    using q by (intro release_readers_ok) (auto simp: queue_def)
  show ?thesis
  proof (cases "queued_writers st")
    case Nil
    then show ?thesis
      using st rel by (simp add: lock_is_free_def lock_at_def clear_readers_def upd_lock_def put_lock_def
          remove_first_writer_def)
  next
    case (Cons w ws)
    let ?st = "st\<lparr>waiting_readers := [], queued_writers := ws\<rparr>"
    let ?lt = "lt\<lparr>lt_guards := ?G, locks := (locks lt)(k \<mapsto> ?st)\<rparr>"
    obtain gd where gd: "lt_guards lt w = Some gd" "wait_done gd = 0" "w \<notin> set (waiting_readers st)"
      using q(1) q(2)[of w] Cons by (auto simp: queue_def)
    then have "?G w = Some gd" by (simp add: released_def)
    then have c1: "claim_reservation ?lt k w = Some (rbind (bump_txn_write_timestamp ?lt k (guard_txn gd)) (\<lambda>lt'.
        Inr (lt'\<lparr>lt_guards := released ?G [w], locks := (locks ?lt)(k \<mapsto> ?st\<lparr>reservation := Some w\<rparr>)\<rparr>)))"
      using claim_reservation_ok[of ?lt k ?st w gd] gd(2) by simp
    have b1: "bump_txn_write_timestamp ?lt k (guard_txn gd) =
        rbind (bump_txn_write_timestamp lt k (guard_txn gd)) (\<lambda>lt'. Inr (lt'\<lparr>lt_guards := ?G, locks := (locks lt)(k \<mapsto> ?st)\<rparr>))"
      by (rule bump_upd[OF st(1)]) simp
    have claim: "claim_reservation ?lt k w = Some (rbind (bump_txn_write_timestamp lt k (guard_txn gd)) (\<lambda>lt'.
        Inr (lt'\<lparr>lt_guards := released (lt_guards lt) (waiting_readers st @ [w]),
                 locks := (locks lt)(k \<mapsto> ?st\<lparr>reservation := Some w\<rparr>)\<rparr>)))"
      unfolding c1 b1
      by (cases "bump_txn_write_timestamp lt k (guard_txn gd)") (simp_all add: released_released)
    have "lock_is_free lt k = run_bind (claim_reservation ?lt k w) (\<lambda>lt4. Some (Inr (False, lt4)))"
      using st rel Cons by (simp add: lock_is_free_def lock_at_def clear_readers_def upd_lock_def put_lock_def
          remove_first_writer_def)
    then show ?thesis
      unfolding claim using Cons gd(1) by (cases "bump_txn_write_timestamp lt k (guard_txn gd)") simp_all
  qed
qed

subsection \<open>Every operation keeps the invariant\<close>

lemma lock_inv_upd:
  assumes inv: "lock_inv lt" and excl: "reservation st' = None \<or> lock_holder st' = None"
    and locks': "locks lt' = (locks lt)(k \<mapsto> st')"
    and queues: "queues_ok ((queue_at (locks lt))(k := queue st')) (lt_guards lt')"
    and res: "\<And>g. reservation st' = Some g \<Longrightarrow> lt_guards lt g \<noteq> None"
    and dom: "\<And>g. lt_guards lt' g = None \<longleftrightarrow> lt_guards lt g = None"
    and txns: "\<And>g gd'. lt_guards lt' g = Some gd' \<Longrightarrow> \<exists>gd. lt_guards lt g = Some gd \<and> guard_txn gd' = guard_txn gd"
    and txn_dom: "\<And>u. lt_txns lt' u = None \<Longrightarrow> lt_txns lt u = None"
  shows "lock_inv lt'"
proof -
  have "exclusive (locks lt')"
    using inv excl by (auto simp: lock_inv_def exclusive_def locks')
  moreover have "links_ok (locks lt') (lt_guards lt') (lt_txns lt')"
    unfolding links_ok_def
  proof (intro conjI allI impI)
    fix k' st g
    assume "locks lt' k' = Some st" "reservation st = Some g"
    then show "lt_guards lt' g \<noteq> None"
      using inv res dom by (cases "k' = k") (auto simp: lock_inv_def links_ok_def locks')
  next
    fix g gd'
    assume "lt_guards lt' g = Some gd'"
    then show "lt_txns lt' (guard_txn gd') \<noteq> None"
      using inv txns[of g gd'] txn_dom[of "guard_txn gd'"] unfolding lock_inv_def links_ok_def by metis
  qed
  ultimately show ?thesis using queues by (simp add: lock_inv_def locks')
qed

lemma queues_ok_shrink:
  assumes "queues_ok Q G" "distinct q'" "set q' \<subseteq> set (Q k)"
  shows "queues_ok (Q(k := q')) G"
  using assms unfolding queues_ok_def by (auto 0 4)

lemma queues_ok_release:
  assumes "queues_ok Q G" "distinct q'" "set q' \<subseteq> set (Q k)" "set gs \<subseteq> set (Q k)" "set gs \<inter> set q' = {}"
  shows "queues_ok (Q(k := q')) (released G gs)"
proof -
  have "queues_ok (Q(k := q')) G" by (rule queues_ok_shrink[OF assms(1-3)])
  moreover have "released G gs g = G g" if "g \<in> set ((Q(k := q')) k')" for g k'
  proof -
    have "g \<notin> set gs"
    proof (cases "k' = k")
      case False
      then have "set (Q k) \<inter> set (Q k') = {}" using assms(1) by (auto simp: queues_ok_def)
      with that False assms(4) show ?thesis by auto
    qed (use that assms(5) in auto)
    then show ?thesis by (simp add: released_def)
  qed
  ultimately show ?thesis unfolding queues_ok_def by metis
qed

lemma released_facts:
  "released G gs g = None \<longleftrightarrow> G g = None"
  "released G gs g = Some gd' \<Longrightarrow> \<exists>gd. G g = Some gd \<and> guard_txn gd' = guard_txn gd"
  by (auto simp: released_def split: if_splits)

lemma lock_is_free_inv:
  assumes inv: "lock_inv lt" and st: "locks lt k = Some st" "lock_holder st = None" "reservation st = None"
  shows "lock_is_free lt k \<noteq> None" "lock_is_free lt k = Some (Inr (b, lt')) \<Longrightarrow> lock_inv lt'"
proof -
  note free = lock_is_free_ok[OF inv st]
  show "lock_is_free lt k \<noteq> None" by (simp add: free)
  have Q: "queues_ok (queue_at (locks lt)) (lt_guards lt)" "queue_at (locks lt) k = queue st"
    using inv st(1) by (simp_all add: lock_inv_def)
  note dist = lock_inv_queue(1)[OF inv st(1)]
  assume result: "lock_is_free lt k = Some (Inr (b, lt'))"
  show "lock_inv lt'"
  proof (cases "queued_writers st")
    case Nil
    then have lt': "lt' = lt\<lparr>lt_guards := released (lt_guards lt) (waiting_readers st),
        locks := (locks lt)(k \<mapsto> st\<lparr>waiting_readers := []\<rparr>)\<rparr>"
      using result free by simp
    show ?thesis
      by (rule lock_inv_upd[OF inv, of "st\<lparr>waiting_readers := []\<rparr>" _ k])
        (use st Nil Q dist in \<open>auto simp: lt' released_facts queue_def intro: queues_ok_release dest: released_facts(2)\<close>)
  next
    case (Cons w ws)
    then obtain lt1 where bump: "bump_txn_write_timestamp lt k (guard_txn (the (lt_guards lt w))) = Inr lt1"
      and lt': "lt' = lt1\<lparr>lt_guards := released (lt_guards lt) (waiting_readers st @ [w]),
        locks := (locks lt)(k \<mapsto> st\<lparr>waiting_readers := [], queued_writers := ws, reservation := Some w\<rparr>)\<rparr>"
      using result free by (auto simp: rbind_eq_Inr)
    have "lt_guards lt w \<noteq> None"
      using lock_inv_queue(2)[OF inv st(1), of w] Cons by (auto simp: queue_def)
    then show ?thesis
      by (intro lock_inv_upd[OF inv, of "st\<lparr>waiting_readers := [], queued_writers := ws, reservation := Some w\<rparr>" lt' k])
        (use st Cons Q dist in \<open>auto simp: lt' released_facts queue_def bump_effect[OF bump]
           intro!: queues_ok_release dest: released_facts(2)\<close>)
  qed
qed

lemma lock_inv_set_lock:
  assumes inv: "lock_inv lt" and st: "locks lt k = Some st"
    and excl: "reservation st' = None \<or> lock_holder st' = None"
    and sub: "distinct (queue st')" "set (queue st') \<subseteq> set (queue st)"
    and res: "\<And>g. reservation st' = Some g \<Longrightarrow> lt_guards lt g \<noteq> None"
  shows "lock_inv (put_lock lt k st')"
  by (rule lock_inv_upd[OF inv excl])
    (use assms in \<open>auto simp: put_lock_def lock_inv_def intro!: queues_ok_shrink\<close>)

lemma request_done_inv:
  assumes inv: "lock_inv lt" and st: "locks lt k = Some st"
  shows "request_done lt k g \<noteq> None" "request_done lt k g = Some (Inr lt') \<Longrightarrow> lock_inv lt'"
proof -
  let ?free = "if reservation st = Some g then
          run_bind (Some (update_reservation lt k None)) (\<lambda>lt1.
          run_bind (lock_is_free lt1 k) (\<lambda>(_, lt2). Some (Inr lt2)))
        else Some (Inr lt)"
  let ?drop = "\<lambda>st. st\<lparr>queued_writers := filter (\<lambda>h. h \<noteq> g) (queued_writers st),
            waiting_readers := filter (\<lambda>h. h \<noteq> g) (waiting_readers st)\<rparr>"
  have done_eq: "request_done lt k g = run_bind ?free (\<lambda>lt3. Some (upd_lock lt3 k ?drop))"
    using st by (simp add: request_done_def lock_at_def)
  have free: "?free \<noteq> None \<and> (\<forall>lt3. ?free = Some (Inr lt3) \<longrightarrow> lock_inv lt3)"
  proof (cases "reservation st = Some g")
    case True
    then have "lock_holder st = None"
      using inv st by (fastforce simp: lock_inv_def exclusive_def)
    let ?lt1 = "put_lock lt k (st\<lparr>reservation := None\<rparr>)"
    have "lock_inv ?lt1"
      by (rule lock_inv_set_lock[OF inv st]) (use lock_inv_queue(1)[OF inv st] in \<open>auto simp: queue_def\<close>)
    note free = lock_is_free_inv[OF this, of k "st\<lparr>reservation := None\<rparr>"]
    have "update_reservation lt k None = Inr ?lt1"
      using st by (simp add: update_reservation_def upd_lock_def lock_at_def)
    with True free \<open>lock_holder st = None\<close> show ?thesis
      by (cases "lock_is_free ?lt1 k"; cases "the (lock_is_free ?lt1 k)") (auto simp: put_lock_def)
  qed (use inv in simp)
  then show "request_done lt k g \<noteq> None"
    unfolding done_eq by (cases ?free; cases "the ?free") (auto simp del: not_None_eq)
  assume result: "request_done lt k g = Some (Inr lt')"
  then obtain lt3 where lt3: "?free = Some (Inr lt3)" "upd_lock lt3 k ?drop = Inr lt'"
    unfolding done_eq using free by (cases ?free; cases "the ?free") (auto simp del: not_None_eq)
  then have inv3: "lock_inv lt3" using free by blast
  obtain st3 where st3: "locks lt3 k = Some st3" "lt' = put_lock lt3 k (?drop st3)"
    using lt3(2) by (auto simp: upd_lock_def lock_at_def rbind_eq_Inr split: option.splits)
  show "lock_inv lt'"
    unfolding st3(2)
    by (rule lock_inv_set_lock[OF inv3 st3(1)])
      (use inv3 st3 lock_inv_queue(1)[OF inv3 st3(1)] in
        \<open>auto simp: queue_def lock_inv_def exclusive_def links_ok_def\<close>)
qed

lemma dequeue_inv:
  assumes "lock_inv lt"
  shows "dequeue_spans lt g spans \<noteq> None"
    "dequeue_spans lt g spans = Some (Inr lt') \<Longrightarrow> lock_inv lt'"
proof -
  have "dequeue_spans lt g spans \<noteq> None \<and> (dequeue_spans lt g spans = Some (Inr lt') \<longrightarrow> lock_inv lt')"
    using assms
  proof (induction spans arbitrary: lt)
    case (Cons span spans)
    show ?case
    proof (cases "locks lt (range_start span)")
      case None
      with Cons show ?thesis by (simp add: get_lock_state_def)
    next
      case (Some st)
      note req = request_done_inv[OF Cons.prems Some, of g]
      show ?thesis
      proof (cases "request_done lt (range_start span) g")
        case r: (Some r)
        then show ?thesis
          using Cons.IH req(2) Some by (cases r) (auto simp: get_lock_state_def)
      qed (use req(1) in simp)
    qed
  qed auto
  then show "dequeue_spans lt g spans \<noteq> None" "dequeue_spans lt g spans = Some (Inr lt') \<Longrightarrow> lock_inv lt'"
    by auto
qed

lemma acquire_lock_inv:
  assumes inv: "lock_inv lt" and acq: "acquire_lock lt k u = Inr lt'"
  shows "lock_inv lt'"
proof (cases "locks lt k")
  case None
  obtain h where lt': "lt' = put_lock lt k (lock_state_new\<lparr>lock_holder := Some h\<rparr>)"
    using acq None by (auto simp: acquire_lock_def rbind_eq_Inr get_lock_state_def Let_def get_txn_properties_def)
  have "queues_ok ((queue_at (locks lt))(k := [])) (lt_guards lt)"
    using inv by (intro queues_ok_shrink) (auto simp: lock_inv_def)
  then show ?thesis
    by (intro lock_inv_upd[OF inv, of "lock_state_new\<lparr>lock_holder := Some h\<rparr>" lt' k])
      (auto simp: lt' put_lock_def lock_state_new_def queue_def)
next
  case (Some st)
  obtain h where lt': "lt' = put_lock lt k (st\<lparr>reservation := None, lock_holder := Some h\<rparr>)"
    using acq Some
    by (auto simp: acquire_lock_def rbind_eq_Inr get_lock_state_def Let_def get_txn_properties_def
        update_reservation_def update_holder_def upd_lock_def lock_at_def put_lock_def split: if_splits)
  show ?thesis
    unfolding lt'
    by (rule lock_inv_set_lock[OF inv Some]) (use lock_inv_queue(1)[OF inv Some] in \<open>auto simp: queue_def\<close>)
qed

lemma update_locks_inv:
  assumes inv: "lock_inv lt"
  shows "update_locks lt k u \<noteq> None" "update_locks lt k u = Some (Inr (b, lt')) \<Longrightarrow> lock_inv lt'"
proof -
  have "update_locks lt k u \<noteq> None \<and> (update_locks lt k u = Some (Inr (b, lt')) \<longrightarrow> lock_inv lt')"
  proof (cases "locks lt k")
    case None
    then show ?thesis using inv by (auto simp: update_locks_def get_lock_state_def)
  next
    case (Some st)
    define ts where "ts = (case u of CommitLock _ ts \<Rightarrow> Some ts | AbortLock _ \<Rightarrow> last_committed_timestamp st)"
    let ?st = "st\<lparr>lock_holder := None, last_committed_timestamp := ts\<rparr>"
    let ?lt = "put_lock lt k ?st"
    have inv': "lock_inv ?lt"
      by (rule lock_inv_set_lock[OF inv Some])
        (use inv Some lock_inv_queue(1)[OF inv Some] in \<open>auto simp: queue_def lock_inv_def links_ok_def\<close>)
    have upd: "update_locks lt k u =
        (if reservation st = None \<and> lock_holder st = None then Some (Inr (True, lt))
         else if lock_holder st \<noteq> None \<and> get_holder_txn_id st \<noteq> Some (update_lock_txn u) then Some (Inr (False, lt))
         else lock_is_free ?lt k)"
      using Some by (cases u) (auto simp: update_locks_def get_lock_state_def update_holder_def upd_lock_def
          lock_at_def put_lock_def update_last_commit_timestamp_def ts_def)
    show ?thesis
    proof (cases "reservation st = None")
      case True
      then show ?thesis
        using lock_is_free_inv[OF inv', of k ?st] inv upd by (auto simp: put_lock_def)
    next
      case False
      then have "lock_is_free ?lt k = Some (Inl (Explicit ''called lock_is_free with reservation''))"
        by (simp add: lock_is_free_def lock_at_def put_lock_def)
      with upd inv show ?thesis by auto
    qed
  qed
  then show "update_locks lt k u \<noteq> None" "update_locks lt k u = Some (Inr (b, lt')) \<Longrightarrow> lock_inv lt'" by auto
qed

text \<open>A guard that has not been queued anywhere.\<close>

definition idle_guard :: "lock_table \<Rightarrow> uuid \<Rightarrow> bool" where
  "idle_guard lt g \<longleftrightarrow>
     (\<exists>gd. lt_guards lt g = Some gd \<and> wait_done gd = 0) \<and> (\<forall>k. g \<notin> set (queue_at (locks lt) k))"

lemma idle_guardD:
  assumes "lock_inv lt" "idle_guard lt g"
  obtains gd t where "lt_guards lt g = Some gd" "wait_done gd = 0" "lt_txns lt (guard_txn gd) = Some t"
    "guard_at lt g = Inr gd" "txn_at lt (guard_txn gd) = Inr t"
  using assms by (force simp: idle_guard_def lock_inv_def links_ok_def guard_at_def txn_at_def)

lemma put_guard_inv:
  assumes inv: "lock_inv lt" and idle: "\<And>k. g \<notin> set (queue_at (locks lt) k)"
    and txn: "lt_txns lt (guard_txn gd) \<noteq> None"
  shows "lock_inv (put_guard lt g gd)"
proof -
  have "queues_ok (queue_at (locks lt)) ((lt_guards lt)(g \<mapsto> gd))"
    using inv idle by (auto simp: lock_inv_def queues_ok_def)
  moreover have "links_ok (locks lt) ((lt_guards lt)(g \<mapsto> gd)) (lt_txns lt)"
    using inv txn by (auto simp: lock_inv_def links_ok_def)
  ultimately show ?thesis using inv by (simp add: lock_inv_def put_guard_def)
qed

lemma enqueue_inv:
  assumes inv: "lock_inv lt" and idle: "idle_guard lt g" and gd: "lt_guards lt g = Some gd"
    and st: "locks lt k = Some st"
    and st': "reservation st' = reservation st" "lock_holder st' = lock_holder st"
      "distinct (queue st')" "set (queue st') = insert g (set (queue st))"
    and ws: "wait_state gd' = Waiting" "wait_done gd' = 0" "guard_txn gd' = guard_txn gd"
  shows "lock_inv (put_guard (put_lock lt k st') g gd')"
proof (rule lock_inv_upd[OF inv, of st' _ k])
  have Q: "queues_ok (queue_at (locks lt)) (lt_guards lt)" "queue_at (locks lt) k = queue st"
    using inv st by (simp_all add: lock_inv_def)
  have out: "g \<notin> set (queue_at (locks lt) k')" for k'
    using idle by (simp add: idle_guard_def)
  have disj: "set (queue st) \<inter> set (queue_at (locks lt) k') = {}" if "k' \<noteq> k" for k'
    using Q that unfolding queues_ok_def by metis
  show "queues_ok ((queue_at (locks lt))(k := queue st')) (lt_guards (put_guard (put_lock lt k st') g gd'))"
    unfolding queues_ok_def
  proof (intro conjI allI impI)
    show "distinct (((queue_at (locks lt))(k := queue st')) k')" for k'
      using Q(1) st'(3) by (auto simp: queues_ok_def)
    show "set (((queue_at (locks lt))(k := queue st')) k1) \<inter> set (((queue_at (locks lt))(k := queue st')) k2) = {}"
      if "k1 \<noteq> k2" for k1 k2
      using that disj[of k1] disj[of k2] out[of k1] out[of k2] Q(1) st'(4)
      by (cases "k1 = k"; cases "k2 = k") (auto simp: queues_ok_def)
    show "\<exists>gd. lt_guards (put_guard (put_lock lt k st') g gd') h = Some gd \<and> wait_done gd = 0 \<and> wait_state gd = Waiting"
      if "h \<in> set (((queue_at (locks lt))(k := queue st')) k')" for k' h
    proof (cases "h = g")
      case False
      then have "h \<in> set (queue_at (locks lt) k')"
        using that st'(4) Q(2) by (cases "k' = k") auto
      with Q(1) False show ?thesis by (auto simp: queues_ok_def put_guard_def put_lock_def)
    qed (use ws in \<open>simp add: put_guard_def\<close>)
  qed
  show "reservation st' = None \<or> lock_holder st' = None"
    using inv st st' by (auto simp: lock_inv_def exclusive_def)
  show "lt_guards lt h \<noteq> None" if "reservation st' = Some h" for h
    using inv st st' that by (auto simp: lock_inv_def links_ok_def)
qed (use gd ws in \<open>auto simp: put_guard_def put_lock_def split: if_splits\<close>)

lemma enqueue_waiter_inv:
  assumes inv: "lock_inv lt" and idle: "idle_guard lt g" and st: "locks lt k = Some st"
  shows "\<exists>wait lt'. enqueue_waiter lt k g is_ro ts = Inr (wait, lt') \<and> lock_inv lt' \<and>
    (if wait then g \<in> set (queue_at (locks lt') k) else lt' = lt)"
proof -
  obtain gd where gd: "lt_guards lt g = Some gd" "wait_done gd = 0" "guard_at lt g = Inr gd"
    by (rule idle_guardD[OF inv idle])
  have out: "g \<notin> set (queue st)" using idle st by (auto simp: idle_guard_def dest: spec[of _ k])
  note q = lock_inv_queue(1)[OF inv st]
  let ?gd = "gd\<lparr>wait_state := Waiting, should_wait := True\<rparr>"
  let ?r = "st\<lparr>waiting_readers := waiting_readers st @ [g]\<rparr>" and ?w = "st\<lparr>queued_writers := queued_writers st @ [g]\<rparr>"
  have eq: "put_guard (put_lock (put_guard lt g (gd\<lparr>wait_state := Waiting\<rparr>)) k st') g ?gd =
      put_guard (put_lock lt k st') g ?gd" for st'
    by (simp add: put_guard_def put_lock_def)
  have "lock_inv (put_guard (put_lock lt k ?r) g ?gd)" "lock_inv (put_guard (put_lock lt k ?w) g ?gd)"
    using q out gd by (intro enqueue_inv[OF inv idle gd(1) st]; auto simp: queue_def)+
  moreover have "locks (put_guard (put_lock lt k st') g' gd') = (locks lt)(k \<mapsto> st')" for st' g' gd'
    by (simp add: put_guard_def put_lock_def)
  ultimately show ?thesis
    using st gd eq inv
    by (cases "lock_holder st")
      (auto simp: enqueue_waiter_def lock_at_def update_wait_state_def update_should_wait_def upd_lock_def
        guard_at_def queue_def put_guard_def put_lock_def)
qed

lemma bump_panic: "bump_txn_write_timestamp lt k u = Inl e \<Longrightarrow> locks lt k \<noteq> None \<Longrightarrow> lt_txns lt u \<noteq> None \<Longrightarrow> e = Overflow"
  by (auto simp: bump_txn_write_timestamp_def lock_at_def txn_at_def next_logical_timestamp_def checked_add_def
      rbind_def split: option.splits if_splits sum.splits)

lemma claim_inv:
  assumes inv: "lock_inv lt" and idle: "idle_guard lt g" and st: "locks lt k = Some st" "lock_holder st = None"
  shows "claim_reservation lt k g \<noteq> None" "claim_reservation lt k g = Some (Inl e) \<Longrightarrow> e = Overflow"
    "claim_reservation lt k g = Some (Inr lt') \<Longrightarrow> lock_inv lt'"
proof -
  obtain gd t where gd: "lt_guards lt g = Some gd" "wait_done gd = 0" "lt_txns lt (guard_txn gd) = Some t"
    by (rule idle_guardD[OF inv idle])
  note claim = claim_reservation_ok[OF st(1) gd(1,2)]
  show "claim_reservation lt k g \<noteq> None" by (simp add: claim)
  show "claim_reservation lt k g = Some (Inl e) \<Longrightarrow> e = Overflow"
    using claim bump_panic[of lt k "guard_txn gd"] st(1) gd(3)
    by (cases "bump_txn_write_timestamp lt k (guard_txn gd)") auto
  assume "claim_reservation lt k g = Some (Inr lt')"
  then obtain lt1 where bump: "bump_txn_write_timestamp lt k (guard_txn gd) = Inr lt1"
    and lt': "lt' = lt1\<lparr>lt_guards := released (lt_guards lt) [g], locks := (locks lt)(k \<mapsto> st\<lparr>reservation := Some g\<rparr>)\<rparr>"
    using claim by (auto simp: rbind_eq_Inr)
  have Q: "queues_ok ((queue_at (locks lt))(k := queue st)) (lt_guards lt)"
    using inv st(1) by (simp add: lock_inv_def fun_upd_idem)
  have "g \<notin> set (((queue_at (locks lt))(k := queue st)) k')" for k'
    using idle st(1) by (auto simp: idle_guard_def dest: spec[of _ k])
  then have "released (lt_guards lt) [g] h = lt_guards lt h" if "h \<in> set (((queue_at (locks lt))(k := queue st)) k')" for h k'
    using that by (auto simp: released_def)
  with Q have "queues_ok ((queue_at (locks lt))(k := queue st)) (released (lt_guards lt) [g])"
    unfolding queues_ok_def by metis
  then show "lock_inv lt'"
    by (intro lock_inv_upd[OF inv, of "st\<lparr>reservation := Some g\<rparr>" lt' k])
      (use st gd in \<open>auto simp: lt' released_facts queue_def bump_effect[OF bump] dest: released_facts(2)\<close>)
qed

lemma reservation_txn_ok:
  assumes "lock_inv lt" "locks lt k = Some st"
  obtains r where "get_reservation_txn_id lt st = Inr r" "r = None \<longleftrightarrow> reservation st = None"
proof (cases "reservation st")
  case (Some g)
  then obtain gd where "lt_guards lt g = Some gd" "lt_txns lt (guard_txn gd) \<noteq> None"
    using assms by (fastforce simp: lock_inv_def links_ok_def)
  then show ?thesis
    using that Some by (auto simp: get_reservation_txn_id_def guard_txn_id_def guard_at_def txn_at_def)
qed (use that in \<open>simp add: get_reservation_txn_id_def\<close>)

lemma try_active_wait_inv:
  assumes inv: "lock_inv lt" and idle: "idle_guard lt g" and st: "locks lt k = Some st"
  shows "(\<exists>wait lt'. try_active_wait lt k g is_ro = Some (Inr (wait, lt')) \<and> lock_inv lt' \<and>
      (if wait then g \<in> set (queue_at (locks lt') k) else is_ro \<longrightarrow> lt' = lt)) \<or>
    (\<not> is_ro \<and> try_active_wait lt k g is_ro = Some (Inl Overflow))"
proof -
  obtain gd t where gd: "guard_at lt g = Inr gd" "txn_at lt (guard_txn gd) = Inr t"
    by (rule idle_guardD[OF inv idle])
  obtain r where r: "get_reservation_txn_id lt st = Inr r" "r = None \<longleftrightarrow> reservation st = None"
    by (rule reservation_txn_ok[OF inv st])
  have try_eq: "try_active_wait lt k g is_ro =
      (if is_ro \<and> lock_holder st = None \<or> r = Some (txn_id t) then Some (Inr (False, lt))
       else if reservation st = None \<and> lock_holder st = None then
         run_bind (claim_reservation lt k g) (\<lambda>lt'. Some (Inr (False, lt')))
       else if get_holder_txn_id st = Some (txn_id t) then Some (Inr (False, lt))
       else Some (enqueue_waiter lt k g is_ro (read_timestamp t)))"
    using st gd r by (simp add: try_active_wait_def lock_at_def Let_def get_txn_properties_def)
  consider (stay) "try_active_wait lt k g is_ro = Some (Inr (False, lt))"
    | (claim) "lock_holder st = None" "\<not> is_ro"
        "try_active_wait lt k g is_ro = run_bind (claim_reservation lt k g) (\<lambda>lt'. Some (Inr (False, lt')))"
    | (queue) "try_active_wait lt k g is_ro = Some (enqueue_waiter lt k g is_ro (read_timestamp t))"
    using try_eq by (cases "lock_holder st") (auto split: if_splits)
  then show ?thesis
  proof cases
    case claim
    note c = claim_inv[OF inv idle st claim(1)]
    obtain r where r: "claim_reservation lt k g = Some r" using c(1) by auto
    show ?thesis
    proof (cases r)
      case (Inl e)
      with c(2)[of e] claim(2,3) r show ?thesis by simp
    next
      case (Inr lt')
      with c(3)[of lt'] claim(2,3) r show ?thesis by auto
    qed
  next
    case queue
    obtain wait lt' where "enqueue_waiter lt k g is_ro (read_timestamp t) = Inr (wait, lt')" "lock_inv lt'"
      "if wait then g \<in> set (queue_at (locks lt') k) else lt' = lt"
      using enqueue_waiter_inv[OF inv idle st, of is_ro "read_timestamp t"] by (elim exE conjE) rule
    with queue show ?thesis by (intro disjI1 exI[of _ wait] exI[of _ lt']) simp
  qed (use inv in auto)
qed

lemma update_should_wait_inv:
  assumes "lock_inv lt" "lt_guards lt g \<noteq> None"
  obtains lt' where "update_should_wait lt g b = Inr lt'" "lock_inv lt'" "locks lt' = locks lt"
proof -
  obtain gd where gd: "lt_guards lt g = Some gd" using assms(2) by auto
  let ?lt = "put_guard lt g (gd\<lparr>should_wait := b\<rparr>)"
  have old: "queues_ok (queue_at (locks lt)) (lt_guards lt)" using assms(1) by (simp add: lock_inv_def)
  have "queues_ok (queue_at (locks lt)) (lt_guards ?lt)"
    unfolding queues_ok_def
  proof (intro conjI allI impI)
    fix k h
    assume "h \<in> set (queue_at (locks lt) k)"
    with old obtain gd1 where "lt_guards lt h = Some gd1" "wait_done gd1 = 0" "wait_state gd1 = Waiting"
      unfolding queues_ok_def by metis
    then show "\<exists>gd. lt_guards ?lt h = Some gd \<and> wait_done gd = 0 \<and> wait_state gd = Waiting"
      using gd by (auto simp: put_guard_def)
  qed (use old in \<open>simp_all add: queues_ok_def\<close>)
  moreover have "links_ok (locks lt) (lt_guards ?lt) (lt_txns lt)"
    using assms(1) gd by (auto simp: lock_inv_def links_ok_def put_guard_def)
  ultimately have "lock_inv ?lt"
    using assms(1) by (simp add: lock_inv_def put_guard_def)
  then show ?thesis
    using that[of ?lt] gd by (simp add: update_should_wait_def guard_at_def put_guard_def)
qed

lemma queued_guard:
  assumes "lock_inv lt" "g \<in> set (queue_at (locks lt) k)"
  shows "lt_guards lt g \<noteq> None"
  using assms by (fastforce simp: lock_inv_def queues_ok_def)

text \<open>No operation drops a guard.\<close>

lemma guards_kept:
  "done_waiting_at_lock lt g = Some (Inr lt') \<Longrightarrow> lt_guards lt h \<noteq> None \<Longrightarrow> lt_guards lt' h \<noteq> None"
  "claim_reservation lt k g = Some (Inr lt') \<Longrightarrow> lt_guards lt h \<noteq> None \<Longrightarrow> lt_guards lt' h \<noteq> None"
  "enqueue_waiter lt k g is_ro ts = Inr (b, lt') \<Longrightarrow> lt_guards lt h \<noteq> None \<Longrightarrow> lt_guards lt' h \<noteq> None"
proof -
  show 1: "done_waiting_at_lock lt g = Some (Inr lt') \<Longrightarrow> lt_guards lt h \<noteq> None \<Longrightarrow> lt_guards lt' h \<noteq> None" for lt lt'
    by (cases "lt_guards lt g")
      (auto simp: done_waiting_at_lock_def guard_at_def update_wait_state_def put_guard_def split: if_splits)
  show "claim_reservation lt k g = Some (Inr lt') \<Longrightarrow> lt_guards lt h \<noteq> None \<Longrightarrow> lt_guards lt' h \<noteq> None"
  proof -
    assume claim: "claim_reservation lt k g = Some (Inr lt')" and h: "lt_guards lt h \<noteq> None"
    then obtain gd lt1 lt2 where "guard_at lt g = Inr gd"
      and bump: "bump_txn_write_timestamp lt k (guard_txn gd) = Inr lt1"
      and res: "update_reservation lt1 k (Some g) = Inr lt2" and told: "done_waiting_at_lock lt2 g = Some (Inr lt')"
      by (auto simp: claim_reservation_def run_bind_eq_Inr)
    have "lt_guards lt2 h \<noteq> None"
      using res bump_effect(2)[OF bump] h
      by (auto simp: update_reservation_def upd_lock_def lock_at_def put_lock_def split: option.splits)
    then show "lt_guards lt' h \<noteq> None" by (rule 1[OF told])
  qed
  show "enqueue_waiter lt k g is_ro ts = Inr (b, lt') \<Longrightarrow> lt_guards lt h \<noteq> None \<Longrightarrow> lt_guards lt' h \<noteq> None"
    by (auto simp: enqueue_waiter_def rbind_eq_Inr update_wait_state_def update_should_wait_def upd_lock_def
        put_lock_def put_guard_def split: if_splits option.splits)
qed

lemma try_active_wait_keeps:
  "try_active_wait lt k g is_ro = Some (Inr (b, lt')) \<Longrightarrow> lt_guards lt h \<noteq> None \<Longrightarrow> lt_guards lt' h \<noteq> None"
  by (auto simp: try_active_wait_def run_bind_eq_Inr get_txn_properties_def Let_def
      dest: guards_kept(2)[of lt k g lt' h] guards_kept(3)[of lt k g _ _ _ lt' h] split: if_splits)

text \<open>The scan of a request that only reads, or of one span.\<close>

lemma scan_spans_inv:
  assumes inv: "lock_inv lt" and idle: "idle_guard lt g" and spans: "is_ro \<or> length spans \<le> 1"
  shows "(\<exists>wait lt'. scan_spans lt g is_ro spans = Some (Inr (wait, lt')) \<and> lock_inv lt' \<and>
      (wait \<longrightarrow> (\<exists>k. g \<in> set (queue_at (locks lt') k)))) \<or>
    (\<not> is_ro \<and> scan_spans lt g is_ro spans = Some (Inl Overflow))"
  using spans
proof (induction spans)
  case Nil
  obtain lt' where "update_should_wait lt g False = Inr lt'" "lock_inv lt'"
    using update_should_wait_inv[OF inv] idle by (metis idle_guard_def option.discI)
  then show ?case by auto
next
  case (Cons span spans)
  let ?k = "range_start span"
  show ?case
  proof (cases "locks lt ?k")
    case None
    then have eq: "scan_spans lt g is_ro (span # spans) = scan_spans lt g is_ro spans"
      by (simp add: get_lock_state_def)
    have "is_ro \<or> length spans \<le> 1" using Cons.prems by auto
    then show ?thesis unfolding eq by (rule Cons.IH)
  next
    case (Some st)
    have step: "scan_spans lt g is_ro (span # spans) =
        run_bind (try_active_wait lt ?k g is_ro) (\<lambda>(wait, lt').
          if wait then run_bind (Some (update_should_wait lt' g True)) (\<lambda>lt''. Some (Inr (True, lt'')))
          else scan_spans lt' g is_ro spans)"
      using Some by (simp add: get_lock_state_def)
    from try_active_wait_inv[OF inv idle Some, of is_ro] show ?thesis
    proof (elim disjE exE conjE)
      fix wait lt'
      assume try_it: "try_active_wait lt ?k g is_ro = Some (Inr (wait, lt'))" and inv': "lock_inv lt'"
        and what: "if wait then g \<in> set (queue_at (locks lt') ?k) else is_ro \<longrightarrow> lt' = lt"
      show ?thesis
      proof (cases wait)
        case True
        then obtain lt'' where "update_should_wait lt' g True = Inr lt''" "lock_inv lt''" "locks lt'' = locks lt'"
          using update_should_wait_inv[OF inv' queued_guard[OF inv'], of g ?k True] what by auto
        with True step try_it what show ?thesis by auto
      next
        case False
        show ?thesis
        proof (cases is_ro)
          case True
          with False what step try_it Cons show ?thesis by auto
        next
          case rw: False
          then have "spans = []" using Cons.prems by simp
          moreover have "lt_guards lt' g \<noteq> None"
            using try_active_wait_keeps[OF try_it] idle by (auto simp: idle_guard_def)
          then obtain lt'' where "update_should_wait lt' g False = Inr lt''" "lock_inv lt''"
            using update_should_wait_inv[OF inv'] by metis
          ultimately show ?thesis using False step try_it by auto
        qed
      qed
    qed (use step in auto)
  qed
qed

end
