(* ===== verification/Lock_Machine.thy ===== *)
theory Lock_Machine
  imports Lock_Table
begin

text \<open>
  The lock table as a state machine: every call that the concurrency manager, the requests and
  the transactions make on it (\<open>src/src/concurrency/concurrency_manager.rs\<close>,
  \<open>src/src/execute/request.rs\<close>) is an event. Calls of different tasks interleave as whole
  events; the two halves of a wait (\<open>Receive\<close>, \<open>GiveUp\<close>) are events of their own. The
  theory lifts the invariant to runs and shows who owns a key's lock and when it changes hands.
\<close>

datatype lock_event =
    Scan uuid request
  | Receive uuid
  | GiveUp uuid key
  | Dequeue uuid
  | Acquire key uuid
  | Update key update_lock
  | SetTxn uuid txn

definition settle :: "'a run \<Rightarrow> 'a res" where
  "settle r = (case r of None \<Rightarrow> Inl (Explicit ''suspended'') | Some x \<Rightarrow> x)"

lemma settle_simps [simp]: "settle (Some x) = x" "settle None = Inl (Explicit ''suspended'')"
  by (simp_all add: settle_def)

lemma settle_eq_Inr: "settle r = Inr x \<longleftrightarrow> r = Some (Inr x)"
  by (cases r) auto

text \<open>
  A scan uses a fresh guard. \<open>SetTxn\<close> stands for every write to the shared transaction outside
  the lock table; it keeps the identifier.
\<close>

definition lock_step :: "lock_table \<Rightarrow> lock_event \<Rightarrow> lock_table res" where
  "lock_step lt e =
     (case e of
        Scan g req \<Rightarrow>
          if lt_guards lt g \<noteq> None then Inl (Explicit ''guard identifier in use'')
          else rbind (settle (scan_and_enqueue lt g req)) (\<lambda>(_, _, lt'). Inr lt')
      | Receive g \<Rightarrow> rbind (settle (wait_for lt g Received)) (\<lambda>(_, lt'). Inr lt')
      | GiveUp g k \<Rightarrow> rbind (lock_at lt k) (\<lambda>_. settle (request_done lt k g))
      | Dequeue g \<Rightarrow> settle (dequeue lt g)
      | Acquire k u \<Rightarrow> acquire_lock lt k u
      | Update k u \<Rightarrow> rbind (settle (update_locks lt k u)) (\<lambda>(_, lt'). Inr lt')
      | SetTxn u t \<Rightarrow>
          if txn_id t = u then Inr (put_txn lt u t) else Inl (Explicit ''transaction identifier changed''))"

definition txn_ids_ok :: "txn_map \<Rightarrow> bool" where
  "txn_ids_ok T \<longleftrightarrow> (\<forall>u t. T u = Some t \<longrightarrow> txn_id t = u)"

definition table_inv :: "lock_table \<Rightarrow> bool" where
  "table_inv lt \<longleftrightarrow> lock_inv lt \<and> txn_ids_ok (lt_txns lt)"

lemma table_inv_new: "txn_ids_ok T \<Longrightarrow> table_inv (lock_table_new T)"
  using lock_inv_new by (simp add: table_inv_def lock_table_new_def)

subsection \<open>What operations leave alone\<close>

text \<open>
  \<open>extends K lt lt'\<close>: only the locks of the keys \<open>K\<close> changed, guards kept their transactions, and
  transactions their identifiers.
\<close>

definition extends :: "key set \<Rightarrow> lock_table \<Rightarrow> lock_table \<Rightarrow> bool" where
  "extends K lt lt' \<longleftrightarrow>
     (\<forall>k. k \<notin> K \<longrightarrow> locks lt' k = locks lt k) \<and>
     (\<forall>g gd. lt_guards lt g = Some gd \<longrightarrow> (\<exists>gd'. lt_guards lt' g = Some gd' \<and> guard_txn gd' = guard_txn gd)) \<and>
     (txn_ids_ok (lt_txns lt) \<longrightarrow> txn_ids_ok (lt_txns lt'))"

lemma extends_refl [simp]: "extends K lt lt"
  by (simp add: extends_def)

lemma extends_trans: "extends K lt lt1 \<Longrightarrow> extends K' lt1 lt2 \<Longrightarrow> extends (K \<union> K') lt lt2"
  unfolding extends_def by (metis UnCI)

lemma extends_put_lock: "extends {k} lt (put_lock lt k st)"
  by (simp add: extends_def put_lock_def)

lemma extends_upd_lock: "upd_lock lt k f = Inr lt' \<Longrightarrow> extends {k} lt lt'"
  by (auto simp: upd_lock_def rbind_eq_Inr extends_put_lock)

lemma extends_put_guard:
  "lt_guards lt g = None \<or> (\<exists>gd. lt_guards lt g = Some gd \<and> guard_txn gd' = guard_txn gd) \<Longrightarrow>
   extends {} lt (put_guard lt g gd')"
  by (auto simp: extends_def put_guard_def)

lemma extends_update_wait_state: "update_wait_state lt g ws = Inr lt' \<Longrightarrow> extends {} lt lt'"
  by (cases "lt_guards lt g") (auto simp: update_wait_state_def guard_at_def intro!: extends_put_guard)

lemma extends_update_should_wait: "update_should_wait lt g b = Inr lt' \<Longrightarrow> extends {} lt lt'"
  by (cases "lt_guards lt g") (auto simp: update_should_wait_def guard_at_def intro!: extends_put_guard)

lemma extends_bump:
  assumes "bump_txn_write_timestamp lt k u = Inr lt'"
  shows "extends {} lt lt'"
proof -
  have "txn_ids_ok (lt_txns lt')" if "txn_ids_ok (lt_txns lt)"
    using assms that by (auto simp: bump_txn_write_timestamp_def rbind_eq_Inr put_txn_def txn_at_def txn_ids_ok_def
      split: option.splits if_splits)
  then show ?thesis using bump_effect(1,2)[OF assms] by (simp add: extends_def)
qed

lemma extends_done_waiting: "done_waiting_at_lock lt g = Some (Inr lt') \<Longrightarrow> extends {} lt lt'"
proof -
  assume told: "done_waiting_at_lock lt g = Some (Inr lt')"
  then obtain gd where gd: "lt_guards lt g = Some gd"
    and upd: "update_wait_state (put_guard lt g (gd\<lparr>wait_done := 1\<rparr>)) g DoneWaiting = Inr lt'"
    by (cases "lt_guards lt g") (auto simp: done_waiting_at_lock_def guard_at_def split: if_splits)
  from gd have "extends {} lt (put_guard lt g (gd\<lparr>wait_done := 1\<rparr>))" by (intro extends_put_guard) auto
  from extends_trans[OF this extends_update_wait_state[OF upd]] show ?thesis by simp
qed

lemma extends_claim: "claim_reservation lt k g = Some (Inr lt') \<Longrightarrow> extends {k} lt lt'"
proof -
  assume "claim_reservation lt k g = Some (Inr lt')"
  then obtain gd :: lock_guard and lt1 lt2 where bump: "bump_txn_write_timestamp lt k (guard_txn gd) = Inr lt1"
    and res: "update_reservation lt1 k (Some g) = Inr lt2" and told: "done_waiting_at_lock lt2 g = Some (Inr lt')"
    by (auto simp: claim_reservation_def run_bind_eq_Inr)
  from extends_trans[OF extends_bump[OF bump] extends_upd_lock[OF res[unfolded update_reservation_def]]]
  have "extends {k} lt lt2" by simp
  from extends_trans[OF this extends_done_waiting[OF told]] show ?thesis by simp
qed

lemma extends_release_readers: "release_readers lt gs = Some (Inr lt') \<Longrightarrow> extends {} lt lt'"
proof (induction gs arbitrary: lt)
  case (Cons g gs)
  then obtain lt1 where "done_waiting_at_lock lt g = Some (Inr lt1)" "release_readers lt1 gs = Some (Inr lt')"
    by (auto simp: run_bind_eq_Inr)
  with extends_trans[OF extends_done_waiting Cons.IH] show ?case by fastforce
qed simp

lemma extends_lock_is_free: "lock_is_free lt k = Some (Inr (b, lt')) \<Longrightarrow> extends {k} lt lt'"
proof -
  assume "lock_is_free lt k = Some (Inr (b, lt'))"
  then obtain st :: lock_state and lt1 lt2 w lt3 where rel: "release_readers lt (waiting_readers st) = Some (Inr lt1)"
    and clear: "clear_readers lt1 k = Inr lt2" and rm: "remove_first_writer lt2 k = Inr (w, lt3)"
    and last: "lt' = lt3 \<or> (\<exists>g. claim_reservation lt3 k g = Some (Inr lt'))"
    by (auto simp: lock_is_free_def run_bind_eq_Inr split: if_splits option.splits) blast+
  from extends_trans[OF extends_release_readers[OF rel] extends_upd_lock[OF clear[unfolded clear_readers_def]]]
  have "extends {k} lt lt2" by simp
  moreover have "extends {k} lt2 lt3"
    using rm by (cases "locks lt2 k"; cases "queued_writers (the (locks lt2 k))")
      (auto simp: remove_first_writer_def lock_at_def extends_put_lock)
  moreover have "extends {k} lt3 lt'" using last extends_claim by auto
  ultimately show ?thesis using extends_trans[of "{k}" _ _ "{k}"] by (metis Un_absorb)
qed

lemma extends_enqueue_waiter: "enqueue_waiter lt k g is_ro ts = Inr (b, lt') \<Longrightarrow> extends {k} lt lt'"
proof -
  assume enq: "enqueue_waiter lt k g is_ro ts = Inr (b, lt')"
  show ?thesis
  proof (cases "lt' = lt")
    case False
    then obtain lt1 f lt2 where "update_wait_state lt g Waiting = Inr lt1" "upd_lock lt1 k f = Inr lt2"
      "update_should_wait lt2 g True = Inr lt'"
      using enq by (auto simp: enqueue_waiter_def rbind_eq_Inr split: if_splits option.splits)
    then have "extends {} lt lt1" "extends {k} lt1 lt2" "extends {} lt2 lt'"
      by (simp_all add: extends_update_wait_state extends_upd_lock extends_update_should_wait)
    then show ?thesis using extends_trans by (metis Un_empty_left Un_empty_right)
  qed simp
qed

lemma extends_try_active_wait: "try_active_wait lt k g is_ro = Some (Inr (b, lt')) \<Longrightarrow> extends {k} lt lt'"
  by (auto simp: try_active_wait_def run_bind_eq_Inr get_txn_properties_def Let_def
      dest: extends_claim[of lt k g lt'] extends_enqueue_waiter[of lt k g _ _ _ lt'] split: if_splits)

lemma extends_request_done: "request_done lt k g = Some (Inr lt') \<Longrightarrow> extends {k} lt lt'"
proof -
  assume "request_done lt k g = Some (Inr lt')"
  then obtain lt1 f where upd: "upd_lock lt1 k f = Inr lt'"
    and first: "lt1 = lt \<or> (\<exists>lt0 b. update_reservation lt k None = Inr lt0 \<and> lock_is_free lt0 k = Some (Inr (b, lt1)))"
    by (auto simp: request_done_def run_bind_eq_Inr split: if_splits)
  have "extends {k} lt lt1"
    using first
  proof (elim disjE exE conjE)
    fix lt0 b
    assume "update_reservation lt k None = Inr lt0" "lock_is_free lt0 k = Some (Inr (b, lt1))"
    then have "extends {k} lt lt0" "extends {k} lt0 lt1"
      by (auto simp: update_reservation_def intro: extends_upd_lock extends_lock_is_free)
    then show ?thesis using extends_trans by (metis Un_absorb)
  qed simp
  with extends_upd_lock[OF upd] show ?thesis using extends_trans by (metis Un_absorb)
qed

lemma extends_mono: "extends K lt lt' \<Longrightarrow> K \<subseteq> K' \<Longrightarrow> extends K' lt lt'"
  by (auto simp: extends_def)

lemma extends_dequeue_spans:
  "dequeue_spans lt g spans = Some (Inr lt') \<Longrightarrow> extends (range_start ` set spans) lt lt'"
proof (induction spans arbitrary: lt)
  case (Cons span spans)
  show ?case
  proof (cases "locks lt (range_start span)")
    case None
    with Cons have "extends (range_start ` set spans) lt lt'" by (simp add: get_lock_state_def)
    then show ?thesis by (rule extends_mono) auto
  next
    case (Some st)
    with Cons.prems obtain lt1 where "request_done lt (range_start span) g = Some (Inr lt1)"
      "dequeue_spans lt1 g spans = Some (Inr lt')" by (auto simp: get_lock_state_def run_bind_eq_Inr)
    from extends_trans[OF extends_request_done[OF this(1)] Cons.IH[OF this(2)]] show ?thesis by simp
  qed
qed simp

lemma extends_scan_spans:
  "scan_spans lt g is_ro spans = Some (Inr (b, lt')) \<Longrightarrow> extends (range_start ` set spans) lt lt'"
proof (induction spans arbitrary: lt)
  case Nil
  then show ?case by (auto simp: run_bind_eq_Inr intro: extends_update_should_wait)
next
  case (Cons span spans)
  show ?case
  proof (cases "locks lt (range_start span)")
    case None
    with Cons have "extends (range_start ` set spans) lt lt'" by (simp add: get_lock_state_def)
    then show ?thesis by (rule extends_mono) auto
  next
    case (Some st)
    with Cons.prems obtain wait lt1 where try_it: "try_active_wait lt (range_start span) g is_ro = Some (Inr (wait, lt1))"
      and rest: "if wait then update_should_wait lt1 g True = Inr lt' else scan_spans lt1 g is_ro spans = Some (Inr (b, lt'))"
      by (auto simp: get_lock_state_def run_bind_eq_Inr split: if_splits)
    have "extends (range_start ` set spans) lt1 lt'"
      using rest Cons.IH[of lt1] extends_update_should_wait[of lt1 g True lt'] extends_mono[of "{}" lt1 lt']
      by (cases wait) auto
    from extends_trans[OF extends_try_active_wait[OF try_it] this] show ?thesis by simp
  qed
qed

lemma extends_scan:
  assumes "scan_and_enqueue lt g req = Some (Inr (b, g', lt'))" "lt_guards lt g = None"
  shows "\<exists>t. lt_txns lt (request_txn req) = Some t \<and>
    extends (range_start ` set (collect_spans (request_body req) t)) lt lt'"
proof -
  obtain t where t: "lt_txns lt (request_txn req) = Some t"
    and scan: "scan_spans (put_guard lt g (lock_guard_new (request_txn req) (is_read_only (request_body req))
        (collect_spans (request_body req) t))) g (is_read_only (request_body req)) (collect_spans (request_body req) t)
      = Some (Inr (b, lt'))"
    using assms(1) by (cases "lt_txns lt (request_txn req)")
      (auto simp: scan_and_enqueue_def run_bind_eq_Inr txn_at_def Let_def)
  from extends_trans[OF extends_put_guard extends_scan_spans[OF scan]] assms(2) t show ?thesis by auto
qed

lemma extends_acquire: "acquire_lock lt k u = Inr lt' \<Longrightarrow> extends {k} lt lt'"
proof -
  assume "acquire_lock lt k u = Inr lt'"
  then consider st where "lt' = put_lock lt k st"
    | lt1 where "update_reservation lt k None = Inr lt1" "\<exists>h. update_holder lt1 k h = Inr lt'"
    by (cases "get_lock_state lt k") (auto simp: acquire_lock_def rbind_eq_Inr Let_def get_txn_properties_def split: if_splits)
  then show ?thesis
  proof cases
    case 2
    then have "extends {k} lt lt1" "extends {k} lt1 lt'"
      by (auto simp: update_reservation_def update_holder_def intro: extends_upd_lock)
    then show ?thesis using extends_trans by (metis Un_absorb)
  qed (simp add: extends_put_lock)
qed

lemma extends_update_locks: "update_locks lt k u = Some (Inr (b, lt')) \<Longrightarrow> extends {k} lt lt'"
proof -
  assume upd: "update_locks lt k u = Some (Inr (b, lt'))"
  show ?thesis
  proof (cases "lt' = lt")
    case False
    then obtain lt1 lt2 where "update_holder lt k None = Inr lt1" "lock_is_free lt2 k = Some (Inr (b, lt'))"
      "(case u of CommitLock _ ts \<Rightarrow> update_last_commit_timestamp lt1 k ts | AbortLock _ \<Rightarrow> Inr lt1) = Inr lt2"
      using upd by (auto simp: update_locks_def run_bind_eq_Inr split: option.splits if_splits)
    then have "extends {k} lt lt1" "extends {k} lt1 lt2" "extends {k} lt2 lt'"
      by (auto simp: update_holder_def update_last_commit_timestamp_def intro: extends_upd_lock extends_lock_is_free
          split: update_lock.splits)
    then show ?thesis using extends_trans by (metis Un_absorb)
  qed simp
qed

subsection \<open>Runs keep the invariant\<close>

lemma write_spans: "\<not> is_read_only r \<Longrightarrow> length (collect_spans r t) \<le> 1"
  by (cases r) (simp_all add: is_read_only_def collect_spans_def)

lemma scan_inv:
  assumes inv: "lock_inv lt" and fresh: "lt_guards lt g = None" and txn: "lt_txns lt (request_txn req) \<noteq> None"
  shows "(\<exists>wait lt'. scan_and_enqueue lt g req = Some (Inr (wait, g, lt')) \<and> lock_inv lt' \<and>
      (wait \<longrightarrow> (\<exists>k. g \<in> set (queue_at (locks lt') k)))) \<or>
    (\<not> is_read_only (request_body req) \<and> scan_and_enqueue lt g req = Some (Inl Overflow))"
proof -
  obtain t where t: "lt_txns lt (request_txn req) = Some t" using txn by auto
  let ?spans = "collect_spans (request_body req) t" and ?ro = "is_read_only (request_body req)"
  let ?lt = "put_guard lt g (lock_guard_new (request_txn req) ?ro ?spans)"
  have out: "g \<notin> set (queue_at (locks lt) k)" for k
    using inv fresh by (auto simp: lock_inv_def queues_ok_def) (metis option.distinct(1))
  have "lock_inv ?lt" by (rule put_guard_inv[OF inv out]) (simp add: lock_guard_new_def t)
  moreover have "idle_guard ?lt g" using out by (simp add: idle_guard_def put_guard_def lock_guard_new_def)
  ultimately have "(\<exists>wait lt'. scan_spans ?lt g ?ro ?spans = Some (Inr (wait, lt')) \<and> lock_inv lt' \<and>
      (wait \<longrightarrow> (\<exists>k. g \<in> set (queue_at (locks lt') k)))) \<or>
    (\<not> ?ro \<and> scan_spans ?lt g ?ro ?spans = Some (Inl Overflow))"
    using write_spans by (intro scan_spans_inv) auto
  moreover have "scan_and_enqueue lt g req =
      run_bind (scan_spans ?lt g ?ro ?spans) (\<lambda>(wait, lt2). Some (Inr (wait, g, lt2)))"
    using t by (simp add: scan_and_enqueue_def txn_at_def Let_def)
  ultimately show ?thesis by auto
qed

lemma queued_guardD:
  assumes "lock_inv lt" "g \<in> set (queue_at (locks lt) k)" "lt_guards lt g = Some gd"
  shows "wait_done gd = 0" "wait_state gd = Waiting"
proof -
  have "queues_ok (queue_at (locks lt)) (lt_guards lt)" using assms(1) by (simp add: lock_inv_def)
  with assms(2) have "\<exists>gd. lt_guards lt g = Some gd \<and> wait_done gd = 0 \<and> wait_state gd = Waiting"
    unfolding queues_ok_def by blast
  with assms(3) show "wait_done gd = 0" "wait_state gd = Waiting" by auto
qed

lemma receive_inv:
  assumes inv: "lock_inv lt" and got: "wait_for lt g Received = Some (Inr (r, lt'))"
  shows "lock_inv lt'" "extends {} lt lt'"
proof -
  obtain gd where gd: "lt_guards lt g = Some gd" "wait_done gd \<noteq> 0"
    and lt': "lt' = put_guard lt g (gd\<lparr>wait_done := wait_done gd - 1\<rparr>)"
    using got by (cases "lt_guards lt g") (auto simp: wait_for_def guard_at_def split: if_splits)
  have "g \<notin> set (queue_at (locks lt) k)" for k
    using queued_guardD[OF inv _ gd(1), of k] gd(2) by blast
  then show "lock_inv lt'"
    unfolding lt' by (rule put_guard_inv[OF inv]) (use inv gd in \<open>auto simp: lock_inv_def links_ok_def\<close>)
  show "extends {} lt lt'" unfolding lt' using gd by (intro extends_put_guard) auto
qed

lemma put_txn_inv: "lock_inv lt \<Longrightarrow> lock_inv (put_txn lt u t)"
  by (auto simp: lock_inv_def links_ok_def put_txn_def)

definition event_keys :: "lock_table \<Rightarrow> lock_event \<Rightarrow> key set" where
  "event_keys lt e =
     (case e of
        Scan g req \<Rightarrow> (case lt_txns lt (request_txn req) of None \<Rightarrow> {}
                      | Some t \<Rightarrow> range_start ` set (collect_spans (request_body req) t))
      | GiveUp g k \<Rightarrow> {k}
      | Dequeue g \<Rightarrow> (case lt_guards lt g of None \<Rightarrow> {} | Some gd \<Rightarrow> range_start ` set (guard_keys gd))
      | Acquire k u \<Rightarrow> {k}
      | Update k u \<Rightarrow> {k}
      | _ \<Rightarrow> {})"

lemma lock_step_extends:
  assumes "lock_inv lt" "lock_step lt e = Inr lt'"
  shows "extends (event_keys lt e) lt lt'"
proof (cases e)
  case (Scan g req)
  with assms(2) have fresh: "lt_guards lt g = None" by (auto simp: lock_step_def split: if_splits)
  with assms(2) Scan obtain b g' where "scan_and_enqueue lt g req = Some (Inr (b, g', lt'))"
    by (auto simp: lock_step_def rbind_eq_Inr settle_eq_Inr)
  from extends_scan[OF this fresh] Scan show ?thesis by (auto simp: event_keys_def)
next
  case (Receive g)
  with assms(2) obtain r where "wait_for lt g Received = Some (Inr (r, lt'))"
    by (auto simp: lock_step_def rbind_eq_Inr settle_eq_Inr)
  with receive_inv(2)[OF assms(1)] Receive show ?thesis by (simp add: event_keys_def)
next
  case (GiveUp g k)
  with assms(2) extends_request_done[of lt k g lt'] show ?thesis
    by (auto simp: lock_step_def rbind_eq_Inr settle_eq_Inr event_keys_def)
next
  case (Dequeue g)
  with assms(2) obtain gd where "lt_guards lt g = Some gd" "dequeue_spans lt g (guard_keys gd) = Some (Inr lt')"
    by (cases "lt_guards lt g") (auto simp: lock_step_def dequeue_def settle_eq_Inr run_bind_eq_Inr guard_at_def)
  with extends_dequeue_spans Dequeue show ?thesis by (simp add: event_keys_def)
next
  case (Acquire k u)
  with assms(2) extends_acquire[of lt k u lt'] show ?thesis by (simp add: lock_step_def event_keys_def)
next
  case (Update k u)
  with assms(2) obtain b where "update_locks lt k u = Some (Inr (b, lt'))"
    by (auto simp: lock_step_def rbind_eq_Inr settle_eq_Inr)
  with extends_update_locks Update show ?thesis by (simp add: event_keys_def)
next
  case (SetTxn u t)
  with assms(2) show ?thesis
    by (auto simp: lock_step_def extends_def put_txn_def txn_ids_ok_def split: if_splits)
qed

lemma lock_step_inv:
  assumes "lock_inv lt" "lock_step lt e = Inr lt'"
  shows "lock_inv lt'"
proof (cases e)
  case (Scan g req)
  with assms(2) have fresh: "lt_guards lt g = None" by (auto simp: lock_step_def split: if_splits)
  with assms(2) Scan obtain b g' where scan: "scan_and_enqueue lt g req = Some (Inr (b, g', lt'))"
    by (auto simp: lock_step_def rbind_eq_Inr settle_eq_Inr)
  moreover from extends_scan[OF this fresh] have "lt_txns lt (request_txn req) \<noteq> None" by auto
  ultimately show ?thesis using scan_inv[OF assms(1) fresh, of req] by auto
next
  case (Receive g)
  with assms(2) obtain r where "wait_for lt g Received = Some (Inr (r, lt'))"
    by (auto simp: lock_step_def rbind_eq_Inr settle_eq_Inr)
  with receive_inv(1)[OF assms(1)] show ?thesis by simp
next
  case (GiveUp g k)
  with assms(2) obtain st where "locks lt k = Some st" "request_done lt k g = Some (Inr lt')"
    by (cases "locks lt k") (auto simp: lock_step_def rbind_eq_Inr settle_eq_Inr lock_at_def)
  with request_done_inv(2)[OF assms(1)] show ?thesis by blast
next
  case (Dequeue g)
  with assms(2) obtain gd :: lock_guard where "dequeue_spans lt g (guard_keys gd) = Some (Inr lt')"
    by (auto simp: lock_step_def dequeue_def settle_eq_Inr run_bind_eq_Inr)
  with dequeue_inv(2)[OF assms(1)] show ?thesis by blast
next
  case (Acquire k u)
  with assms acquire_lock_inv show ?thesis by (auto simp: lock_step_def)
next
  case (Update k u)
  with assms(2) obtain b where "update_locks lt k u = Some (Inr (b, lt'))"
    by (auto simp: lock_step_def rbind_eq_Inr settle_eq_Inr)
  with update_locks_inv(2)[OF assms(1)] show ?thesis by blast
next
  case (SetTxn u t)
  with assms put_txn_inv show ?thesis by (auto simp: lock_step_def split: if_splits)
qed

interpretation lock_machine: step_invariant lock_step table_inv
proof
  fix lt e lt'
  assume "table_inv lt" "lock_step lt e = Inr lt'"
  then show "table_inv lt'"
    using lock_step_inv lock_step_extends unfolding table_inv_def extends_def by blast
qed

subsection \<open>Owners\<close>

text \<open>The transaction that holds or has reserved the lock of a key.\<close>

definition owner :: "lock_table \<Rightarrow> key \<Rightarrow> uuid option" where
  "owner lt k =
     (case locks lt k of
        None \<Rightarrow> None
      | Some st \<Rightarrow>
          (case lock_holder st of
             Some m \<Rightarrow> Some (meta_txn_id m)
           | None \<Rightarrow> Option.bind (reservation st) (\<lambda>g. map_option guard_txn (lt_guards lt g))))"

definition reserved_by :: "lock_table \<Rightarrow> key \<Rightarrow> uuid \<Rightarrow> bool" where
  "reserved_by lt k g \<longleftrightarrow> (\<exists>st. locks lt k = Some st \<and> reservation st = Some g)"

lemma owner_kept:
  assumes "extends K lt lt'" "owner lt k = Some u" "locks lt k = Some st" "locks lt' k = Some st'"
    "lock_holder st' = lock_holder st" "reservation st' = reservation st"
  shows "owner lt' k = Some u"
proof (cases "lock_holder st")
  case None
  with assms(2,3) obtain g gd where "reservation st = Some g" "lt_guards lt g = Some gd" "guard_txn gd = u"
    by (auto simp: owner_def bind_eq_Some_conv)
  with assms None show ?thesis by (auto simp: owner_def extends_def)
qed (use assms in \<open>simp add: owner_def\<close>)

lemma owner_frame:
  assumes "extends K lt lt'" "owner lt k = Some u" "k \<notin> K"
  shows "owner lt' k = Some u" "reserved_by lt' k g \<longleftrightarrow> reserved_by lt k g"
proof -
  obtain st where "locks lt k = Some st" using assms(2) by (cases "locks lt k") (auto simp: owner_def)
  moreover have "locks lt' k = locks lt k" using assms(1,3) by (simp add: extends_def)
  ultimately show "owner lt' k = Some u" "reserved_by lt' k g \<longleftrightarrow> reserved_by lt k g"
    using owner_kept[OF assms(1,2)] by (auto simp: reserved_by_def)
qed

lemma enqueue_waiter_lock:
  assumes "enqueue_waiter lt k g is_ro ts = Inr (b, lt')"
  obtains st st' where "locks lt k = Some st" "locks lt' k = Some st'"
    "lock_holder st' = lock_holder st" "reservation st' = reservation st"
proof (cases "locks lt k")
  case (Some st)
  with assms show ?thesis
    by (intro that[of st "the (locks lt' k)"]; cases "lt_guards lt g")
      (auto simp: enqueue_waiter_def lock_at_def rbind_eq_Inr update_wait_state_def update_should_wait_def upd_lock_def
        guard_at_def put_guard_def put_lock_def split: if_splits option.splits)
qed (use assms in \<open>simp add: enqueue_waiter_def lock_at_def\<close>)

lemma owner_try_active_wait:
  assumes try_it: "try_active_wait lt k' g is_ro = Some (Inr (b, lt'))" and own: "owner lt k = Some u"
  shows "owner lt' k = Some u"
proof (cases "k' = k")
  case False
  with owner_frame(1)[OF extends_try_active_wait[OF try_it] own] show ?thesis by simp
next
  case True
  obtain st where st: "locks lt k = Some st" using own by (cases "locks lt k") (auto simp: owner_def)
  have "reservation st \<noteq> None \<or> lock_holder st \<noteq> None" using own st by (auto simp: owner_def bind_eq_Some_conv)
  then have "lt' = lt \<or> (\<exists>ts. enqueue_waiter lt k g is_ro ts = Inr (b, lt'))"
    using try_it st True
    by (auto simp: try_active_wait_def run_bind_eq_Inr lock_at_def get_txn_properties_def Let_def split: if_splits)
  then show ?thesis
    using own owner_kept[OF extends_enqueue_waiter own] enqueue_waiter_lock by metis
qed

lemma owner_scan_spans:
  "scan_spans lt g is_ro spans = Some (Inr (b, lt')) \<Longrightarrow> owner lt k = Some u \<Longrightarrow> owner lt' k = Some u"
proof (induction spans arbitrary: lt)
  case Nil
  then have "extends {} lt lt'" by (auto simp: run_bind_eq_Inr intro: extends_update_should_wait)
  with Nil owner_frame(1) show ?case by blast
next
  case (Cons span spans)
  show ?case
  proof (cases "locks lt (range_start span)")
    case None
    with Cons show ?thesis by (simp add: get_lock_state_def)
  next
    case (Some st)
    with Cons.prems(1) obtain wait lt1 where try_it: "try_active_wait lt (range_start span) g is_ro = Some (Inr (wait, lt1))"
      and rest: "if wait then update_should_wait lt1 g True = Inr lt' else scan_spans lt1 g is_ro spans = Some (Inr (b, lt'))"
      by (auto simp: get_lock_state_def run_bind_eq_Inr split: if_splits)
    note own = owner_try_active_wait[OF try_it Cons.prems(2)]
    show ?thesis
    proof (cases wait)
      case True
      with rest have "extends {} lt1 lt'" by (simp add: extends_update_should_wait)
      with own owner_frame(1) show ?thesis by blast
    qed (use rest own Cons.IH in simp)
  qed
qed

lemma owner_request_done:
  assumes req: "request_done lt k' g = Some (Inr lt')" and own: "owner lt k = Some u"
    and other: "k' = k \<Longrightarrow> \<not> reserved_by lt k g"
  shows "owner lt' k = Some u" "reserved_by lt' k h \<longleftrightarrow> reserved_by lt k h"
proof -
  have "owner lt' k = Some u \<and> (reserved_by lt' k h \<longleftrightarrow> reserved_by lt k h)"
  proof (cases "k' = k")
    case False
    with owner_frame[OF extends_request_done[OF req] own] show ?thesis by simp
  next
    case True
    obtain st where st: "locks lt k = Some st" using own by (cases "locks lt k") (auto simp: owner_def)
    with other True req have "\<exists>st'. locks lt' k = Some st' \<and> lock_holder st' = lock_holder st \<and> reservation st' = reservation st"
      by (auto simp: reserved_by_def request_done_def lock_at_def upd_lock_def put_lock_def)
    then show ?thesis
      using owner_kept[OF extends_request_done[OF req] own st] st by (auto simp: reserved_by_def)
  qed
  then show "owner lt' k = Some u" "reserved_by lt' k h \<longleftrightarrow> reserved_by lt k h" by blast+
qed

lemma owner_dequeue_spans:
  "dequeue_spans lt g spans = Some (Inr lt') \<Longrightarrow> owner lt k = Some u \<Longrightarrow> \<not> reserved_by lt k g \<Longrightarrow> owner lt' k = Some u"
proof (induction spans arbitrary: lt)
  case (Cons span spans)
  show ?case
  proof (cases "locks lt (range_start span)")
    case None
    with Cons show ?thesis by (simp add: get_lock_state_def)
  next
    case (Some st)
    with Cons.prems(1) obtain lt1 where req: "request_done lt (range_start span) g = Some (Inr lt1)"
      and "dequeue_spans lt1 g spans = Some (Inr lt')" by (auto simp: get_lock_state_def run_bind_eq_Inr)
    with Cons.IH[of lt1] Cons.prems owner_request_done[OF req Cons.prems(2)] show ?thesis by blast
  qed
qed simp

lemma owner_acquire:
  assumes acq: "acquire_lock lt k' v = Inr lt'" and own: "owner lt k = Some u" and ids: "txn_ids_ok (lt_txns lt)"
  shows "owner lt' k = Some u"
proof (cases "k' = k")
  case False
  with owner_frame(1)[OF extends_acquire[OF acq] own] show ?thesis by simp
next
  case True
  obtain st where st: "locks lt k = Some st" using own by (cases "locks lt k") (auto simp: owner_def)
  obtain t r where t: "txn_at lt v = Inr t" and r: "get_reservation_txn_id lt st = Inr r"
    and allowed: "get_holder_txn_id st \<in> {None, Some (txn_id t)}" "r \<in> {None, Some (txn_id t)}"
    and lt': "locks lt' = (locks lt)(k \<mapsto> st\<lparr>reservation := None, lock_holder := Some (TxnMetadata (txn_id t) (write_timestamp t))\<rparr>)"
    using acq st True
    by (auto simp: acquire_lock_def rbind_eq_Inr get_lock_state_def get_txn_properties_def update_reservation_def
        update_holder_def upd_lock_def lock_at_def put_lock_def split: if_splits)
  have "txn_id t = u"
  proof (cases "lock_holder st")
    case None
    with own st obtain g gd where "reservation st = Some g" "lt_guards lt g = Some gd" "guard_txn gd = u"
      by (auto simp: owner_def bind_eq_Some_conv)
    with r allowed(2) ids show ?thesis
      by (auto simp: get_reservation_txn_id_def guard_txn_id_def guard_at_def txn_at_def rbind_eq_Inr txn_ids_ok_def
          split: option.splits)
  qed (use own st allowed(1) in \<open>auto simp: owner_def get_holder_txn_id_def\<close>)
  then show ?thesis by (simp add: owner_def lt')
qed

lemma owner_update_locks:
  assumes upd: "update_locks lt k' ul = Some (Inr (b, lt'))" and own: "owner lt k = Some u"
    and other: "k' = k \<Longrightarrow> update_lock_txn ul \<noteq> u"
  shows "owner lt' k = Some u"
proof (cases "k' = k")
  case False
  with owner_frame(1)[OF extends_update_locks[OF upd] own] show ?thesis by simp
next
  case True
  obtain st where st: "locks lt k = Some st" using own by (cases "locks lt k") (auto simp: owner_def)
  have "lt' = lt"
  proof (cases "lock_holder st")
    case None
    with own st have "reservation st \<noteq> None" by (auto simp: owner_def bind_eq_Some_conv)
    with upd st None True show ?thesis
      by (auto simp: update_locks_def get_lock_state_def run_bind_eq_Inr update_holder_def upd_lock_def lock_at_def
          put_lock_def update_last_commit_timestamp_def lock_is_free_def split: update_lock.splits)
  qed (use upd own st other True in \<open>auto simp: update_locks_def get_lock_state_def owner_def get_holder_txn_id_def\<close>)
  with own show ?thesis by simp
qed

text \<open>An owner keeps the lock until its transaction or its request lets it go.\<close>

lemma lock_step_owner:
  assumes inv: "table_inv lt" and step: "lock_step lt e = Inr lt'" and own: "owner lt k = Some u"
    and upd: "\<And>ul. e = Update k ul \<Longrightarrow> update_lock_txn ul \<noteq> u"
    and req: "\<And>g. e = Dequeue g \<or> e = GiveUp g k \<Longrightarrow> \<not> reserved_by lt k g"
  shows "owner lt' k = Some u"
proof (cases e)
  case (Scan g req)
  let ?lt = "\<lambda>t. put_guard lt g (lock_guard_new (request_txn req) (is_read_only (request_body req))
        (collect_spans (request_body req) t))"
  from Scan step have fresh: "lt_guards lt g = None" by (auto simp: lock_step_def split: if_splits)
  from Scan step obtain t :: txn and b where
    "scan_spans (?lt t) g (is_read_only (request_body req)) (collect_spans (request_body req) t) = Some (Inr (b, lt'))"
    by (auto simp: lock_step_def rbind_eq_Inr settle_eq_Inr scan_and_enqueue_def run_bind_eq_Inr Let_def split: if_splits)
  moreover have "owner (?lt t) k = Some u"
    by (rule owner_frame(1)[OF extends_put_guard[OF disjI1[OF fresh]] own]) simp
  ultimately show ?thesis by (rule owner_scan_spans)
next
  case (GiveUp g k')
  with step have "request_done lt k' g = Some (Inr lt')" by (auto simp: lock_step_def rbind_eq_Inr settle_eq_Inr)
  then show ?thesis by (rule owner_request_done(1)[OF _ own]) (use GiveUp req in auto)
next
  case (Dequeue g)
  with step obtain gd :: lock_guard where "dequeue_spans lt g (guard_keys gd) = Some (Inr lt')"
    by (auto simp: lock_step_def dequeue_def settle_eq_Inr run_bind_eq_Inr)
  then show ?thesis by (rule owner_dequeue_spans[OF _ own]) (use Dequeue req in auto)
next
  case (Acquire k' v)
  with step inv owner_acquire[OF _ own] show ?thesis by (auto simp: lock_step_def table_inv_def)
next
  case (Update k' ul)
  with step obtain b where "update_locks lt k' ul = Some (Inr (b, lt'))"
    by (auto simp: lock_step_def rbind_eq_Inr settle_eq_Inr)
  then show ?thesis by (rule owner_update_locks[OF _ own]) (use Update upd in auto)
qed (use lock_step_extends[OF _ step] owner_frame(1)[OF _ own, of "{}"] inv in \<open>auto simp: table_inv_def event_keys_def\<close>)

subsection \<open>Passing the lock on\<close>

text \<open>The bump of the next owner's timestamp does not overflow.\<close>

definition commit_ok :: "timestamp option \<Rightarrow> bool" where
  "commit_ok c \<longleftrightarrow> (\<forall>ts. c = Some ts \<longrightarrow> (\<exists>ts'. next_logical_timestamp ts = Inr ts'))"

lemma bump_returns:
  assumes "locks lt k = Some st" "lt_txns lt u \<noteq> None" "commit_ok (last_committed_timestamp st)"
  obtains lt' where "bump_txn_write_timestamp lt k u = Inr lt'"
  using assms by (cases "last_committed_timestamp st")
    (auto simp: bump_txn_write_timestamp_def lock_at_def txn_at_def commit_ok_def)

lemma lock_is_free_passes:
  assumes inv: "lock_inv lt" and st: "locks lt k = Some st" "lock_holder st = None" "reservation st = None"
    and ts: "commit_ok (last_committed_timestamp st)"
  obtains lt' st' where "lock_is_free lt k = Some (Inr (queued_writers st = [], lt'))" "lock_inv lt'"
    "locks lt' k = Some st'" "lock_holder st' = None" "waiting_readers st' = []"
    "reservation st' = (case queued_writers st of [] \<Rightarrow> None | w # ws \<Rightarrow> Some w)"
    "queued_writers st' = tl (queued_writers st)" "last_committed_timestamp st' = last_committed_timestamp st"
    "lt_guards lt' = released (lt_guards lt) (waiting_readers st @ take 1 (queued_writers st))"
    "\<forall>w ts. queued_writers st = w # tl (queued_writers st) \<longrightarrow> last_committed_timestamp st = Some ts \<longrightarrow>
      (\<exists>t. lt_txns lt' (guard_txn (the (lt_guards lt w))) = Some t \<and> next_logical_timestamp ts = Inr (write_timestamp t))"
proof (cases "queued_writers st")
  case Nil
  let ?st = "st\<lparr>waiting_readers := []\<rparr>"
  let ?lt = "lt\<lparr>lt_guards := released (lt_guards lt) (waiting_readers st), locks := (locks lt)(k \<mapsto> ?st)\<rparr>"
  have free: "lock_is_free lt k = Some (Inr (queued_writers st = [], ?lt))"
    using lock_is_free_ok[OF inv st] Nil by simp
  show ?thesis
    by (rule that[OF free lock_is_free_inv(2)[OF inv st free], of ?st]) (use Nil st in simp_all)
next
  case (Cons w ws)
  let ?u = "guard_txn (the (lt_guards lt w))"
  have "w \<in> set (queue_at (locks lt) k)" using st(1) Cons by (simp add: queue_def)
  then obtain gd where "lt_guards lt w = Some gd" using queued_guard[OF inv] by blast
  then have "lt_txns lt ?u \<noteq> None" using inv by (auto simp: lock_inv_def links_ok_def)
  then obtain lt1 where bump: "bump_txn_write_timestamp lt k ?u = Inr lt1"
    using bump_returns[OF st(1) _ ts] by blast
  have ts': "\<exists>t. lt_txns lt1 ?u = Some t \<and> next_logical_timestamp ts = Inr (write_timestamp t)"
    if "last_committed_timestamp st = Some ts" for ts
    using bump st(1) that by (auto simp: bump_txn_write_timestamp_def lock_at_def rbind_eq_Inr put_txn_def)
  let ?st = "st\<lparr>waiting_readers := [], queued_writers := ws, reservation := Some w\<rparr>"
  let ?lt = "lt1\<lparr>lt_guards := released (lt_guards lt) (waiting_readers st @ [w]), locks := (locks lt)(k \<mapsto> ?st)\<rparr>"
  have free: "lock_is_free lt k = Some (Inr (queued_writers st = [], ?lt))"
    using lock_is_free_ok[OF inv st] Cons bump by simp
  show ?thesis
    by (rule that[OF free lock_is_free_inv(2)[OF inv st free], of ?st]) (use Cons st ts' in simp_all)
qed

definition commit_of :: "lock_state \<Rightarrow> update_lock \<Rightarrow> timestamp option" where
  "commit_of st ul = (case ul of CommitLock _ ts \<Rightarrow> Some ts | AbortLock _ \<Rightarrow> last_committed_timestamp st)"

lemma update_locks_by_holder:
  assumes inv: "lock_inv lt" and st: "locks lt k = Some st" "get_holder_txn_id st = Some (update_lock_txn ul)"
  shows "\<exists>lt1. update_locks lt k ul = lock_is_free lt1 k \<and> lock_inv lt1 \<and> lt_guards lt1 = lt_guards lt \<and>
    locks lt1 k = Some (st\<lparr>lock_holder := None, last_committed_timestamp := commit_of st ul\<rparr>) \<and>
    reservation st = None"
proof -
  let ?st = "st\<lparr>lock_holder := None, last_committed_timestamp := commit_of st ul\<rparr>"
  have holder: "lock_holder st \<noteq> None" using st(2) by (auto simp: get_holder_txn_id_def)
  have inv1: "lock_inv (put_lock lt k ?st)"
    by (rule lock_inv_set_lock[OF inv st(1)])
      (use lock_inv_queue(1)[OF inv st(1)] inv st(1) in \<open>auto simp: queue_def lock_inv_def links_ok_def\<close>)
  have "update_locks lt k ul = lock_is_free (put_lock lt k ?st) k"
    using st holder by (cases ul)
      (auto simp: update_locks_def get_lock_state_def update_holder_def update_last_commit_timestamp_def upd_lock_def
        lock_at_def put_lock_def commit_of_def)
  moreover have "reservation st = None"
    using inv st(1) holder by (fastforce simp: lock_inv_def exclusive_def)
  ultimately show ?thesis using inv1 by (intro exI[of _ "put_lock lt k ?st"]) (simp add: put_lock_def)
qed

lemma request_done_passes:
  assumes inv: "lock_inv lt" and st: "locks lt k = Some st" "reservation st = Some r" "r \<notin> set (queued_writers st)"
    and ts: "commit_ok (last_committed_timestamp st)"
  obtains lt' st' where "request_done lt k r = Some (Inr lt')" "lock_inv lt'"
    "locks lt' k = Some st'" "lock_holder st' = None" "waiting_readers st' = []"
    "reservation st' = (case queued_writers st of [] \<Rightarrow> None | w # ws \<Rightarrow> Some w)"
    "queued_writers st' = tl (queued_writers st)" "last_committed_timestamp st' = last_committed_timestamp st"
proof -
  let ?st1 = "st\<lparr>reservation := None\<rparr>"
  let ?lt1 = "put_lock lt k ?st1"
  have holder: "lock_holder st = None" using inv st by (fastforce simp: lock_inv_def exclusive_def)
  have inv1: "lock_inv ?lt1"
    by (rule lock_inv_set_lock[OF inv st(1)]) (use lock_inv_queue(1)[OF inv st(1)] in \<open>auto simp: queue_def\<close>)
  obtain lt2 st2 where free: "lock_is_free ?lt1 k = Some (Inr (queued_writers st = [], lt2))" "locks lt2 k = Some st2"
    "lock_holder st2 = None" "waiting_readers st2 = []"
    "reservation st2 = (case queued_writers st of [] \<Rightarrow> None | w # ws \<Rightarrow> Some w)"
    "queued_writers st2 = tl (queued_writers st)" "last_committed_timestamp st2 = last_committed_timestamp st"
    by (rule lock_is_free_passes[OF inv1, of k ?st1]) (use holder ts in \<open>auto simp: put_lock_def\<close>)
  have keep: "filter (\<lambda>h. h \<noteq> r) (tl (queued_writers st)) = tl (queued_writers st)"
    using st(3) by (cases "queued_writers st") (auto intro: filter_True)
  let ?st3 = "st2\<lparr>queued_writers := tl (queued_writers st), waiting_readers := []\<rparr>"
  have req: "request_done lt k r = Some (Inr (put_lock lt2 k ?st3))"
    using st free keep by (simp add: request_done_def lock_at_def update_reservation_def upd_lock_def)
  show ?thesis
    by (rule that[OF req request_done_inv(2)[OF inv st(1) req], of ?st3]) (use free in \<open>simp_all add: put_lock_def\<close>)
qed

lemma GiveUp_fifo:
  assumes "lock_inv lt" "locks lt k = Some st" "reservation st = Some r" "queued_writers st = ws"
    "distinct (r # ws)" "commit_ok (last_committed_timestamp st)" "i < length ws"
  shows "\<exists>lt' st'. run_steps lock_step lt (map (\<lambda>g. GiveUp g k) (r # take i ws)) = Inr lt' \<and>
    locks lt' k = Some st' \<and> reservation st' = Some (ws ! i) \<and> queued_writers st' = drop (Suc i) ws"
  using assms
proof (induction i arbitrary: lt st r ws)
  case 0
  obtain lt' st' where "request_done lt k r = Some (Inr lt')" "locks lt' k = Some st'"
    "reservation st' = (case ws of [] \<Rightarrow> None | w # ws \<Rightarrow> Some w)" "queued_writers st' = tl ws"
    by (rule request_done_passes[OF 0(1-3) _ 0(6)]) (use 0(4,5) in auto)
  then show ?case using 0(2,7) by (cases ws) (auto simp: lock_step_def lock_at_def)
next
  case (Suc i)
  then obtain w ws' where ws: "ws = w # ws'" by (cases ws) auto
  obtain lt1 st1 where one: "request_done lt k r = Some (Inr lt1)" "lock_inv lt1" "locks lt1 k = Some st1"
      "reservation st1 = Some w" "queued_writers st1 = ws'" "last_committed_timestamp st1 = last_committed_timestamp st"
    by (rule request_done_passes[OF Suc.prems(1-3) _ Suc.prems(6)]) (use Suc.prems(4,5) ws in auto)
  have "run_steps lock_step lt (map (\<lambda>g. GiveUp g k) (r # take (Suc i) ws)) =
      run_steps lock_step lt1 (map (\<lambda>g. GiveUp g k) (w # take i ws'))"
    using Suc.prems(2) one(1) ws by (simp add: lock_step_def lock_at_def)
  with Suc.IH[OF one(2-5)] Suc.prems(5-7) one(6) ws show ?case by simp
qed

subsection \<open>Which requests wait\<close>

lemma reservation_txn_id:
  assumes inv: "table_inv lt" and st: "locks lt k = Some st"
  shows "get_reservation_txn_id lt st = Inr (Option.bind (reservation st) (\<lambda>h. map_option guard_txn (lt_guards lt h)))"
    "reservation st = Some h \<Longrightarrow> lt_guards lt h \<noteq> None"
proof -
  show guard: "reservation st = Some h \<Longrightarrow> lt_guards lt h \<noteq> None" for h
    using inv st by (auto simp: table_inv_def lock_inv_def links_ok_def)
  show "get_reservation_txn_id lt st = Inr (Option.bind (reservation st) (\<lambda>h. map_option guard_txn (lt_guards lt h)))"
  proof (cases "reservation st")
    case (Some h)
    then obtain gd where gd: "lt_guards lt h = Some gd" using guard by auto
    then obtain t where "lt_txns lt (guard_txn gd) = Some t" "txn_id t = guard_txn gd"
      using inv by (fastforce simp: table_inv_def lock_inv_def links_ok_def txn_ids_ok_def)
    with Some gd show ?thesis by (simp add: get_reservation_txn_id_def guard_txn_id_def guard_at_def txn_at_def)
  qed (simp add: get_reservation_txn_id_def)
qed

lemma fresh_guard_inv:
  assumes inv: "table_inv lt" and fresh: "lt_guards lt g = None" and txn: "lt_txns lt (guard_txn gd) \<noteq> None"
  shows "table_inv (put_guard lt g gd)" "owner (put_guard lt g gd) k = owner lt k"
proof -
  have out: "g \<notin> set (queue_at (locks lt) k)" for k
    using inv fresh queued_guard[of lt g k] by (auto simp: table_inv_def)
  have "lock_inv (put_guard lt g gd)"
    by (rule put_guard_inv[OF _ out txn]) (use inv in \<open>simp add: table_inv_def\<close>)
  then show "table_inv (put_guard lt g gd)" using inv by (simp add: table_inv_def put_guard_def)
  show "owner (put_guard lt g gd) k = owner lt k"
    using fresh by (auto simp: owner_def put_guard_def dest: reservation_txn_id(2)[OF inv] split: option.splits Option.bind_split)
qed

lemma try_active_wait_write:
  assumes inv: "table_inv lt" and gd: "lt_guards lt g = Some gd" and st: "locks lt k = Some st"
  shows "try_active_wait lt k g False =
    (case owner lt k of
       None \<Rightarrow> run_bind (claim_reservation lt k g) (\<lambda>lt'. Some (Inr (False, lt')))
     | Some u \<Rightarrow> if u = guard_txn gd then Some (Inr (False, lt))
                 else Some (enqueue_waiter lt k g False (read_timestamp (the (lt_txns lt (guard_txn gd))))))"
proof -
  obtain t where t: "lt_txns lt (guard_txn gd) = Some t" "txn_id t = guard_txn gd"
    using inv gd by (fastforce simp: table_inv_def lock_inv_def links_ok_def txn_ids_ok_def)
  note r = reservation_txn_id[OF inv st]
  have excl: "reservation st = None \<or> lock_holder st = None"
    using inv st by (auto simp: table_inv_def lock_inv_def exclusive_def)
  show ?thesis
  proof (cases "reservation st")
    case None
    then show ?thesis
      using st gd t r(1) by (cases "lock_holder st")
        (auto simp: try_active_wait_def lock_at_def guard_at_def txn_at_def get_txn_properties_def owner_def get_holder_txn_id_def)
  next
    case (Some h)
    then obtain gh where "lt_guards lt h = Some gh" using r(2) by blast
    with Some excl st gd t r(1) show ?thesis
      by (auto simp: try_active_wait_def lock_at_def guard_at_def txn_at_def get_txn_properties_def owner_def get_holder_txn_id_def)
  qed
qed

lemma try_active_wait_read:
  assumes inv: "table_inv lt" and gd: "lt_guards lt g = Some gd" "lt_txns lt (guard_txn gd) = Some t" and st: "locks lt k = Some st"
  shows "try_active_wait lt k g True =
    (case lock_holder st of
       None \<Rightarrow> Some (Inr (False, lt))
     | Some m \<Rightarrow> if meta_txn_id m = guard_txn gd then Some (Inr (False, lt))
                 else Some (enqueue_waiter lt k g True (read_timestamp t)))"
proof (cases "lock_holder st")
  case (Some m)
  then have "reservation st = None"
    using inv st by (fastforce simp: table_inv_def lock_inv_def exclusive_def)
  moreover have "txn_id t = guard_txn gd"
    using inv gd by (auto simp: table_inv_def txn_ids_ok_def)
  ultimately show ?thesis
    using Some st gd reservation_txn_id(1)[OF inv st]
    by (auto simp: try_active_wait_def lock_at_def guard_at_def txn_at_def get_txn_properties_def get_holder_txn_id_def)
qed (use st in \<open>simp add: try_active_wait_def lock_at_def\<close>)

lemma enqueue_waiter_result:
  assumes "enqueue_waiter lt k g is_ro ts = Inr (b, lt')"
  shows "b \<longleftrightarrow> \<not> is_ro \<or> (\<exists>st m. locks lt k = Some st \<and> lock_holder st = Some m \<and> meta_write_timestamp m \<le> ts)"
  using assms by (cases "locks lt k")
    (auto simp: enqueue_waiter_def lock_at_def rbind_eq_Inr not_less split: if_splits option.splits)

lemma claim_owner:
  assumes claim: "claim_reservation lt k g = Some (Inr lt')" and gd: "lt_guards lt g = Some gd" "wait_done gd = 0"
    and st: "locks lt k = Some st" "lock_holder st = None"
  shows "owner lt' k = Some (guard_txn gd)"
  using claim claim_reservation_ok[OF st(1) gd] gd(1) st(2)
  by (auto simp: rbind_eq_Inr owner_def released_def)

lemma scan_one_key:
  assumes t: "lt_txns lt (request_txn req) = Some t" and k: "collect_spans (request_body req) t = [point_span k]"
  shows "scan_and_enqueue lt g req =
    (let ro = is_read_only (request_body req);
         lt1 = put_guard lt g (lock_guard_new (request_txn req) ro [point_span k])
     in case locks lt k of
          None \<Rightarrow> run_bind (Some (update_should_wait lt1 g False)) (\<lambda>lt2. Some (Inr (False, g, lt2)))
        | Some _ \<Rightarrow> run_bind (try_active_wait lt1 k g ro) (\<lambda>(wait, lt2).
            run_bind (Some (update_should_wait lt2 g wait)) (\<lambda>lt3. Some (Inr (wait, g, lt3)))))"
proof (cases "locks lt k")
  case None
  with t k show ?thesis
    by (simp add: scan_and_enqueue_def txn_at_def point_span_def get_lock_state_def put_guard_def update_should_wait_def
        guard_at_def)
next
  case (Some st)
  let ?lt1 = "put_guard lt g (lock_guard_new (request_txn req) (is_read_only (request_body req)) [point_span k])"
  let ?tr = "try_active_wait ?lt1 k g (is_read_only (request_body req))"
  have "locks ?lt1 k = Some st" using Some by (simp add: put_guard_def)
  with Some t k show ?thesis
    by (cases ?tr; cases "the ?tr"; cases "fst (projr (the ?tr))"; cases "update_should_wait (snd (projr (the ?tr))) g (fst (projr (the ?tr)))")
      (auto simp: scan_and_enqueue_def txn_at_def point_span_def get_lock_state_def Let_def)
qed

lemma scan_one_key_result:
  assumes "lt_txns lt (request_txn req) = Some t" "collect_spans (request_body req) t = [point_span k]"
    "scan_and_enqueue lt g req = Some (Inr (wait, g', lt'))"
    "lt1 = put_guard lt g (lock_guard_new (request_txn req) (is_read_only (request_body req)) [point_span k])"
  shows "g' = g \<and> (case locks lt k of
      None \<Rightarrow> \<not> wait \<and> update_should_wait lt1 g False = Inr lt'
    | Some _ \<Rightarrow> \<exists>lt2. try_active_wait lt1 k g (is_read_only (request_body req)) = Some (Inr (wait, lt2)) \<and>
                update_should_wait lt2 g wait = Inr lt')"
  using assms(3) unfolding scan_one_key[OF assms(1,2)] Let_def assms(4)[symmetric]
  by (cases "locks lt k") (auto simp: run_bind_eq_Inr)

lemma reachable_scan_guard:
  assumes "table_inv lt" "lt_guards lt g = None" "lt_txns lt u = Some t"
  shows "table_inv (put_guard lt g (lock_guard_new u b spans))"
    "owner (put_guard lt g (lock_guard_new u b spans)) k = owner lt k"
  using fresh_guard_inv[OF assms(1,2), of "lock_guard_new u b spans"] assms(3) by (simp_all add: lock_guard_new_def)

lemma update_should_wait_owner:
  "update_should_wait lt g b = Inr lt' \<Longrightarrow> owner lt k = Some u \<Longrightarrow> owner lt' k = Some u"
  by (rule owner_frame(1)[OF extends_update_should_wait]) auto

text \<open>What the scan of a write finds, and who owns the lock afterwards.\<close>

lemma write_scan_result:
  assumes "table_inv lt" "lt_guards lt g = None"
    "scan_and_enqueue lt g \<lparr>request_txn = u, request_body = Put k v\<rparr> = Some (Inr (wait, g', lt'))"
  shows "(wait \<longleftrightarrow> (\<exists>w. owner lt k = Some w \<and> w \<noteq> u)) \<and> (locks lt k \<noteq> None \<longrightarrow> \<not> wait \<longrightarrow> owner lt' k = Some u) \<and>
    (locks lt k = None \<longrightarrow> \<not> wait \<and> locks lt' = locks lt)"
proof -
  let ?lt1 = "put_guard lt g (lock_guard_new u False [point_span k])"
  obtain t where t: "lt_txns lt u = Some t"
    using assms(3) by (cases "lt_txns lt u") (auto simp: scan_and_enqueue_def txn_at_def)
  have scan: "case locks lt k of None \<Rightarrow> \<not> wait \<and> update_should_wait ?lt1 g False = Inr lt'
    | Some _ \<Rightarrow> \<exists>lt2. try_active_wait ?lt1 k g False = Some (Inr (wait, lt2)) \<and> update_should_wait lt2 g wait = Inr lt'"
    using scan_one_key_result[OF _ _ assms(3), of t k ?lt1] t
    by (cases "locks lt k") (auto simp: is_read_only_def collect_spans_def)
  note g1 = reachable_scan_guard[OF assms(1) assms(2) t]
  have gd1: "lt_guards ?lt1 g = Some (lock_guard_new u False [point_span k])" by (simp add: put_guard_def)
  show ?thesis
  proof (cases "locks lt k")
    case None
    then have "owner lt k = None" by (simp add: owner_def)
    moreover have "locks lt' = locks lt"
      using scan None by (auto simp: update_should_wait_def rbind_eq_Inr put_guard_def)
    ultimately show ?thesis using scan None by simp
  next
    case (Some st)
    then have st1: "locks ?lt1 k = Some st" by (simp add: put_guard_def)
    obtain lt2 where try_it: "try_active_wait ?lt1 k g False = Some (Inr (wait, lt2))"
      and upd: "update_should_wait lt2 g wait = Inr lt'"
      using scan Some by auto
    note try_eq = try_active_wait_write[OF g1(1) gd1 st1]
    show ?thesis
    proof (cases "owner lt k")
      case None
      then have claim: "claim_reservation ?lt1 k g = Some (Inr lt2)" "\<not> wait"
        using try_it try_eq g1(2) by (auto simp: run_bind_eq_Inr)
      have "lock_holder st = None" using None Some by (cases "lock_holder st") (auto simp: owner_def)
      from claim_owner[OF claim(1) gd1 _ st1 this] have "owner lt2 k = Some u" by (simp add: lock_guard_new_def)
      with update_should_wait_owner[OF upd] claim(2) None Some show ?thesis by simp
    next
      case own: (Some w)
      show ?thesis
      proof (cases "w = u")
        case True
        then have "lt2 = ?lt1" "\<not> wait" using try_it try_eq g1(2) own by (auto simp: lock_guard_new_def)
        with True own Some g1(2) update_should_wait_owner[OF upd] show ?thesis by simp
      next
        case False
        then have "enqueue_waiter ?lt1 k g False (read_timestamp t) = Inr (wait, lt2)"
          using try_it try_eq g1(2) own t by (simp add: lock_guard_new_def put_guard_def)
        with enqueue_waiter_result False own Some show ?thesis by fastforce
      qed
    qed
  qed
qed

end
