(* ===== verification/Lock_Properties.thy ===== *)
theory Lock_Properties
  imports Lock_Machine
begin

text \<open>
  The properties of the lock table, stated on the runs of its state machine from an empty table.
  The witnesses use two transactions, \<open>1\<close> and \<open>2\<close>, that write the same key.
\<close>

definition two_txns :: txn_map where
  "two_txns = [1 \<mapsto> txn_new 1 (Timestamp 5 0), 2 \<mapsto> txn_new 2 (Timestamp 9 0)]"

definition put_by :: "uuid \<Rightarrow> key \<Rightarrow> request" where
  "put_by u k = \<lparr>request_txn = u, request_body = Put k [7]\<rparr>"

definition contended :: "lock_event list" where
  "contended = [Acquire [0] 1, Scan 11 (put_by 2 [0])]"

definition contended_table :: lock_table where
  "contended_table = projr (run_steps lock_step (lock_table_new two_txns) contended)"

lemma two_txns_ok: "txn_ids_ok two_txns"
  by (auto simp: txn_ids_ok_def two_txns_def txn_new_def)

lemma contended_run: "run_steps lock_step (lock_table_new two_txns) contended = Inr contended_table"
proof -
  have "isl (run_steps lock_step (lock_table_new two_txns) contended) = False" by code_simp
  then show ?thesis by (simp add: contended_table_def)
qed

lemma contended_lock:
  "locks contended_table [0] =
     Some \<lparr>reservation = None, lock_holder = Some (TxnMetadata 1 (Timestamp 5 0)), queued_writers = [11],
       waiting_readers = [], last_committed_timestamp = None\<rparr>"
  by code_simp

lemma reachable_inv:
  assumes "txn_ids_ok T" "run_steps lock_step (lock_table_new T) es = Inr lt"
  shows "table_inv lt"
  by (rule lock_machine.run_inv[OF table_inv_new[OF assms(1)] assms(2)])

text \<open>
  C13: in every table a run of calls can reach, no lock has both a holder and a reservation, and a
  guard waits at most once, in the queue of at most one key, without a message in its channel.
\<close>

theorem lock_table_consistent:
  assumes "txn_ids_ok T" "run_steps lock_step (lock_table_new T) es = Inr lt"
  shows "(\<forall>k st. locks lt k = Some st \<longrightarrow>
      (reservation st = None \<or> lock_holder st = None) \<and> distinct (queued_writers st @ waiting_readers st) \<and>
      (\<forall>g \<in> set (queued_writers st @ waiting_readers st).
        (\<exists>gd. lt_guards lt g = Some gd \<and> wait_done gd = 0 \<and> wait_state gd = Waiting) \<and>
        (\<forall>k' st'. k' \<noteq> k \<longrightarrow> locks lt k' = Some st' \<longrightarrow> g \<notin> set (queued_writers st' @ waiting_readers st'))))"
proof (intro allI impI conjI ballI)
  have inv: "lock_inv lt" using reachable_inv[OF assms] by (simp add: table_inv_def)
  fix k st assume st: "locks lt k = Some st"
  show "reservation st = None \<or> lock_holder st = None" using inv st by (auto simp: lock_inv_def exclusive_def)
  show "distinct (queued_writers st @ waiting_readers st)" using lock_inv_queue(1)[OF inv st] by (simp add: queue_def)
  fix g assume g: "g \<in> set (queued_writers st @ waiting_readers st)"
  then show "\<exists>gd. lt_guards lt g = Some gd \<and> wait_done gd = 0 \<and> wait_state gd = Waiting"
    using lock_inv_queue(2)[OF inv st] by (simp add: queue_def)
  fix k' st' assume other: "k' \<noteq> k" "locks lt k' = Some st'"
  have "set (queue_at (locks lt) k) \<inter> set (queue_at (locks lt) k') = {}"
    using inv other(1) unfolding lock_inv_def queues_ok_def by metis
  with st other g show "g \<notin> set (queued_writers st' @ waiting_readers st')" by (auto simp: queue_def)
qed

theorem lock_table_consistent_witness:
  "\<exists>st. locks contended_table [0] = Some st \<and> (reservation st = None \<or> lock_holder st = None)"
  using lock_table_consistent[OF two_txns_ok contended_run] contended_lock by blast

text \<open>
  C14: a transaction that holds or has reserved the lock of a key keeps it through every call of
  every task, until its own commit or abort updates the lock, or the request whose guard holds
  the reservation is dequeued or gives up waiting.
\<close>

theorem lock_kept_by_owner:
  assumes "txn_ids_ok T" "run_steps lock_step (lock_table_new T) es = Inr lt"
    "lock_step lt e = Inr lt'" "owner lt k = Some u"
  shows "owner lt' k = Some u \<or> (\<exists>ul. e = Update k ul \<and> update_lock_txn ul = u) \<or>
    (\<exists>g. (e = Dequeue g \<or> e = GiveUp g k) \<and> reserved_by lt k g)"
  using lock_step_owner[OF reachable_inv[OF assms(1,2)] assms(3,4)] by blast

theorem lock_kept_by_owner_witness:
  "\<exists>lt'. lock_step contended_table (Scan 12 (put_by 2 [0])) = Inr lt' \<and> owner lt' [0] = Some 1"
proof -
  have "isl (lock_step contended_table (Scan 12 (put_by 2 [0]))) = False" by code_simp
  then obtain lt' where step: "lock_step contended_table (Scan 12 (put_by 2 [0])) = Inr lt'"
    by (cases "lock_step contended_table (Scan 12 (put_by 2 [0]))") auto
  have "owner contended_table [0] = Some 1" by (simp add: owner_def contended_lock)
  with lock_kept_by_owner[OF two_txns_ok contended_run step] step show ?thesis by auto
qed

text \<open>
  C15: when the transaction that holds a lock commits or aborts, the update returns without
  suspending: every waiting reader and the first queued writer are told to stop waiting, that
  writer gets the reservation, and the other writers keep their order. The update reports that the lock
  can be collected exactly when no writer was queued.
\<close>

theorem lock_handed_to_first_writer:
  assumes "txn_ids_ok T" "run_steps lock_step (lock_table_new T) es = Inr lt"
    "locks lt k = Some st" "get_holder_txn_id st = Some (update_lock_txn ul)" "commit_ok (commit_of st ul)"
  shows "\<exists>lt' st'. update_locks lt k ul = Some (Inr (queued_writers st = [], lt')) \<and> locks lt' k = Some st' \<and>
    lock_holder st' = None \<and> waiting_readers st' = [] \<and> queued_writers st' = tl (queued_writers st) \<and>
    reservation st' = (case queued_writers st of [] \<Rightarrow> None | w # ws \<Rightarrow> Some w) \<and>
    (\<forall>g \<in> set (waiting_readers st @ take 1 (queued_writers st)).
      \<exists>gd. lt_guards lt' g = Some gd \<and> wait_done gd = 1 \<and> wait_state gd = DoneWaiting)"
proof -
  have inv: "lock_inv lt" using reachable_inv[OF assms(1,2)] by (simp add: table_inv_def)
  let ?st = "st\<lparr>lock_holder := None, last_committed_timestamp := commit_of st ul\<rparr>"
  obtain lt1 where lt1: "update_locks lt k ul = lock_is_free lt1 k" "lock_inv lt1" "lt_guards lt1 = lt_guards lt"
    "locks lt1 k = Some ?st" "reservation st = None"
    using update_locks_by_holder[OF inv assms(3,4)] by blast
  obtain lt' st' where free: "lock_is_free lt1 k = Some (Inr (queued_writers st = [], lt'))" "locks lt' k = Some st'"
    "lock_holder st' = None" "waiting_readers st' = []" "queued_writers st' = tl (queued_writers st)"
    "reservation st' = (case queued_writers st of [] \<Rightarrow> None | w # ws \<Rightarrow> Some w)"
    "lt_guards lt' = released (lt_guards lt) (waiting_readers st @ take 1 (queued_writers st))"
    by (rule lock_is_free_passes[OF lt1(2,4)]) (use lt1(3,5) assms(5) in auto)
  have "\<exists>gd. lt_guards lt' g = Some gd \<and> wait_done gd = 1 \<and> wait_state gd = DoneWaiting"
    if "g \<in> set (waiting_readers st @ take 1 (queued_writers st))" for g
  proof -
    have "g \<in> set (queue st)" using that by (auto simp: queue_def dest: in_set_takeD)
    then obtain gd where "lt_guards lt g = Some gd" using lock_inv_queue(2)[OF inv assms(3)] by blast
    with that show ?thesis by (simp add: free(7) released_def)
  qed
  with lt1(1) free(1-6) show ?thesis by auto
qed

theorem lock_handed_to_first_writer_witness:
  "\<exists>lt' st'. update_locks contended_table [0] (AbortLock 1) = Some (Inr (False, lt')) \<and>
    locks lt' [0] = Some st' \<and> reservation st' = Some 11 \<and> lock_holder st' = None"
  using lock_handed_to_first_writer[OF two_txns_ok contended_run contended_lock, of "AbortLock 1"]
  by (auto simp: get_holder_txn_id_def update_lock_txn_def commit_ok_def commit_of_def)

text \<open>
  C16: queued writers get the lock in the order in which they queued. Once the holder's update
  and the requests of the writers ahead have run, the writer at position \<open>i\<close> has the
  reservation.
\<close>

theorem queued_writer_gets_lock:
  assumes "txn_ids_ok T" "run_steps lock_step (lock_table_new T) es = Inr lt"
    "locks lt k = Some st" "get_holder_txn_id st = Some (update_lock_txn ul)" "commit_ok (commit_of st ul)"
    "i < length (queued_writers st)"
  shows "\<exists>lt'. run_steps lock_step lt (Update k ul # map (\<lambda>g. GiveUp g k) (take i (queued_writers st))) = Inr lt' \<and>
    reserved_by lt' k (queued_writers st ! i)"
proof -
  have inv: "lock_inv lt" using reachable_inv[OF assms(1,2)] by (simp add: table_inv_def)
  obtain w ws where ws: "queued_writers st = w # ws" using assms(6) by (cases "queued_writers st") auto
  have dist: "distinct (w # ws)" using lock_inv_queue(1)[OF inv assms(3)] ws by (simp add: queue_def)
  let ?st = "st\<lparr>lock_holder := None, last_committed_timestamp := commit_of st ul\<rparr>"
  obtain lt1 where lt1: "update_locks lt k ul = lock_is_free lt1 k" "lock_inv lt1" "locks lt1 k = Some ?st" "reservation st = None"
    using update_locks_by_holder[OF inv assms(3,4)] by blast
  obtain lt2 st2 where free: "lock_is_free lt1 k = Some (Inr (False, lt2))" "lock_inv lt2" "locks lt2 k = Some st2"
    "reservation st2 = Some w" "queued_writers st2 = ws" "last_committed_timestamp st2 = commit_of st ul"
    by (rule lock_is_free_passes[OF lt1(2,3)]) (use lt1(4) assms(5) ws in auto)
  have upd: "run_steps lock_step lt (Update k ul # gs) = run_steps lock_step lt2 gs" for gs
    using lt1(1) free(1) by (simp add: lock_step_def)
  show ?thesis
    unfolding upd
  proof (cases i)
    case 0
    with free ws show "\<exists>lt'. run_steps lock_step lt2 (map (\<lambda>g. GiveUp g k) (take i (queued_writers st))) = Inr lt' \<and>
      reserved_by lt' k (queued_writers st ! i)" by (simp add: reserved_by_def)
  next
    case (Suc j)
    with GiveUp_fifo[OF free(2-5) dist, of j] assms(5,6) free(6) ws
    show "\<exists>lt'. run_steps lock_step lt2 (map (\<lambda>g. GiveUp g k) (take i (queued_writers st))) = Inr lt' \<and>
      reserved_by lt' k (queued_writers st ! i)" by (auto simp: reserved_by_def)
  qed
qed

theorem queued_writer_gets_lock_witness:
  "\<exists>lt'. run_steps lock_step contended_table [Update [0] (CommitLock 1 (Timestamp 5 0))] = Inr lt' \<and> reserved_by lt' [0] 11"
proof -
  have "next_logical_timestamp (Timestamp 5 0) = Inr (Timestamp 5 1)" by code_simp
  then show ?thesis
    using queued_writer_gets_lock[OF two_txns_ok contended_run contended_lock, of "CommitLock 1 (Timestamp 5 0)" 0]
    by (auto simp: get_holder_txn_id_def update_lock_txn_def commit_ok_def commit_of_def)
qed

text \<open>
  C17: a write request waits exactly when another transaction holds or has reserved the lock of
  its key. When it does not wait and the key has a lock state, its transaction owns the lock afterwards; a key that has no lock state gets
  none, and no lock changes.
\<close>

theorem writer_waits_iff_owned:
  assumes "txn_ids_ok T" "run_steps lock_step (lock_table_new T) es = Inr lt" "lt_guards lt g = None"
    "scan_and_enqueue lt g \<lparr>request_txn = u, request_body = Put k v\<rparr> = Some (Inr (wait, g', lt'))"
  shows "(wait \<longleftrightarrow> (\<exists>w. owner lt k = Some w \<and> w \<noteq> u)) \<and> (locks lt k \<noteq> None \<longrightarrow> \<not> wait \<longrightarrow> owner lt' k = Some u) \<and>
    (locks lt k = None \<longrightarrow> \<not> wait \<and> locks lt' = locks lt)"
  by (rule write_scan_result[OF reachable_inv[OF assms(1,2)] assms(3,4)])

text \<open>
  C18: a read waits exactly when another transaction holds the lock of its key with a write
  timestamp at or below the read timestamp. The book says that a read only waits when the intent's timestamp is less
  than the read's; the code waits at equality too. Reads never wait for a reservation, and a read that
  does not wait leaves every lock as it was.
\<close>

theorem reader_waits_iff_held_below:
  assumes "txn_ids_ok T" "run_steps lock_step (lock_table_new T) es = Inr lt" "lt_guards lt g = None"
    "lt_txns lt u = Some t"
    "scan_and_enqueue lt g \<lparr>request_txn = u, request_body = Get k\<rparr> = Some (Inr (wait, g', lt'))"
  shows "(wait \<longleftrightarrow> (\<exists>st m. locks lt k = Some st \<and> lock_holder st = Some m \<and> meta_txn_id m \<noteq> u \<and>
      meta_write_timestamp m \<le> read_timestamp t)) \<and> (\<not> wait \<longrightarrow> locks lt' = locks lt)"
proof -
  let ?lt1 = "put_guard lt g (lock_guard_new u True [point_span k])"
  have inv: "table_inv lt" by (rule reachable_inv[OF assms(1,2)])
  have scan: "case locks lt k of None \<Rightarrow> \<not> wait \<and> update_should_wait ?lt1 g False = Inr lt'
    | Some _ \<Rightarrow> \<exists>lt2. try_active_wait ?lt1 k g True = Some (Inr (wait, lt2)) \<and> update_should_wait lt2 g wait = Inr lt'"
    using scan_one_key_result[OF _ _ assms(5), of t k ?lt1] assms(4)
    by (cases "locks lt k") (auto simp: is_read_only_def collect_spans_def)
  note g1 = reachable_scan_guard(1)[OF inv assms(3,4)]
  have gd1: "lt_guards ?lt1 g = Some (lock_guard_new u True [point_span k])" by (simp add: put_guard_def)
  have t1: "lt_txns ?lt1 (guard_txn (lock_guard_new u True [point_span k])) = Some t"
    using assms(4) by (simp add: lock_guard_new_def put_guard_def)
  have upd_locks: "update_should_wait x g b = Inr y \<Longrightarrow> locks y = locks x" for x y b
    by (auto simp: update_should_wait_def rbind_eq_Inr put_guard_def)
  show ?thesis
  proof (cases "locks lt k")
    case None
    with scan upd_locks[of ?lt1 False lt'] show ?thesis by (simp add: put_guard_def)
  next
    case (Some st)
    then have st1: "locks ?lt1 k = Some st" by (simp add: put_guard_def)
    obtain lt2 where try_it: "try_active_wait ?lt1 k g True = Some (Inr (wait, lt2))"
      and upd: "update_should_wait lt2 g wait = Inr lt'"
      using scan Some by auto
    note try_eq = try_active_wait_read[OF g1 gd1 t1 st1]
    have locks1: "locks ?lt1 = locks lt" by (simp add: put_guard_def)
    show ?thesis
    proof (cases "lock_holder st = None \<or> get_holder_txn_id st = Some u")
      case True
      then have "lt2 = ?lt1" "\<not> wait"
        using try_it try_eq by (auto simp: lock_guard_new_def get_holder_txn_id_def)
      with True Some upd_locks[OF upd] locks1 show ?thesis by (auto simp: get_holder_txn_id_def)
    next
      case False
      then obtain m where m: "lock_holder st = Some m" "meta_txn_id m \<noteq> u" by (auto simp: get_holder_txn_id_def)
      then have enq: "enqueue_waiter ?lt1 k g True (read_timestamp t) = Inr (wait, lt2)"
        using try_it try_eq by (simp add: lock_guard_new_def)
      moreover have "\<not> wait \<Longrightarrow> lt2 = ?lt1"
        using enq st1 m(1) by (auto simp: enqueue_waiter_def lock_at_def rbind_eq_Inr split: if_splits)
      ultimately show ?thesis
        using enqueue_waiter_result[OF enq] Some st1 m upd_locks[OF upd] locks1 by auto
    qed
  qed
qed

definition scan_result :: "lock_table \<Rightarrow> uuid \<Rightarrow> request \<Rightarrow> bool option" where
  "scan_result lt g req =
     (case scan_and_enqueue lt g req of Some (Inr (wait, _, _)) \<Rightarrow> Some wait | _ \<Rightarrow> None)"

lemma scan_resultD:
  "scan_result lt g req = Some wait \<Longrightarrow> \<exists>g' lt'. scan_and_enqueue lt g req = Some (Inr (wait, g', lt'))"
  by (auto simp: scan_result_def split: option.splits sum.splits)

theorem writer_waits_iff_owned_witness:
  "scan_result contended_table 12 \<lparr>request_txn = 2, request_body = Put [0] [7]\<rparr> = Some True \<and>
   scan_result contended_table 12 \<lparr>request_txn = 1, request_body = Put [0] [7]\<rparr> = Some False"
proof -
  have fresh: "lt_guards contended_table 12 = None" by code_simp
  have own: "owner contended_table [0] = Some 1" by (simp add: owner_def contended_lock)
  have "scan_result contended_table 12 \<lparr>request_txn = u, request_body = Put [0] [7]\<rparr> = Some (u = 2)" if "u \<in> {1, 2}" for u
  proof -
    have "scan_result contended_table 12 \<lparr>request_txn = 1, request_body = Put [0] [7]\<rparr> \<noteq> None"
      "scan_result contended_table 12 \<lparr>request_txn = 2, request_body = Put [0] [7]\<rparr> \<noteq> None" by code_simp+
    with that obtain wait where w: "scan_result contended_table 12 \<lparr>request_txn = u, request_body = Put [0] [7]\<rparr> = Some wait"
      by auto
    with scan_resultD writer_waits_iff_owned[OF two_txns_ok contended_run fresh] have "wait \<longleftrightarrow> 1 \<noteq> u" using own by fastforce
    with w that show ?thesis by auto
  qed
  from this[of 1] this[of 2] show ?thesis by simp
qed

theorem reader_waits_iff_held_below_witness:
  "scan_result contended_table 12 \<lparr>request_txn = 2, request_body = Get [0]\<rparr> = Some True"
proof -
  have fresh: "lt_guards contended_table 12 = None" by code_simp
  have t: "lt_txns contended_table 2 = Some (txn_new 2 (Timestamp 9 0))" by code_simp
  have "scan_result contended_table 12 \<lparr>request_txn = 2, request_body = Get [0]\<rparr> \<noteq> None" by code_simp
  then obtain wait where w: "scan_result contended_table 12 \<lparr>request_txn = 2, request_body = Get [0]\<rparr> = Some wait" by auto
  have "Timestamp 5 0 \<le> Timestamp 9 0" by code_simp
  moreover obtain g' lt' where "scan_and_enqueue contended_table 12 \<lparr>request_txn = 2, request_body = Get [0]\<rparr> = Some (Inr (wait, g', lt'))"
    using scan_resultD[OF w] by blast
  ultimately have wait
    using reader_waits_iff_held_below[OF two_txns_ok contended_run fresh t, of "[0]" wait g' lt'] contended_lock
    by (simp add: txn_new_def)
  with w show ?thesis by simp
qed

text \<open>
  Acquiring the lock of a key that another transaction holds or has reserved panics; the
  table keeps its owner.
\<close>

lemma acquire_foreign_lock_panics:
  assumes "txn_ids_ok T" "run_steps lock_step (lock_table_new T) es = Inr lt"
    "lt_txns lt u \<noteq> None" "owner lt k = Some w" "w \<noteq> u"
  shows "acquire_lock lt k u =
    Inl (Explicit (if \<exists>g. reserved_by lt k g
                   then ''trying to acquire lock reserved by another transaction''
                   else ''trying to acquire lock held by another transaction''))"
proof -
  have inv: "table_inv lt" by (rule reachable_inv[OF assms(1,2)])
  obtain t where t: "lt_txns lt u = Some t" "txn_id t = u"
    using assms(3) inv by (auto simp: table_inv_def txn_ids_ok_def)
  obtain st where st: "locks lt k = Some st" using assms(4) by (cases "locks lt k") (auto simp: owner_def)
  have "reservation st = None \<or> lock_holder st = None"
    using inv st by (auto simp: table_inv_def lock_inv_def exclusive_def)
  with reservation_txn_id[OF inv st] t st assms(4,5) show ?thesis
    by (cases "reservation st") (auto simp: acquire_lock_def txn_at_def get_lock_state_def get_txn_properties_def get_holder_txn_id_def owner_def
        reserved_by_def split: option.splits)
qed

text \<open>
  C38: updating a lock that is reserved panics, whichever transaction the update is for. This
  happens when a transaction that was aborted by a pusher tries to commit after its lock passed to
  the next writer: the commit updates the lock once more.
\<close>

theorem update_of_reserved_lock_panics:
  assumes "txn_ids_ok T" "run_steps lock_step (lock_table_new T) es = Inr lt" "reserved_by lt k g"
  shows "update_locks lt k ul = Some (Inl (Explicit ''called lock_is_free with reservation''))"
proof -
  obtain st where st: "locks lt k = Some st" "reservation st = Some g" using assms(3) by (auto simp: reserved_by_def)
  moreover have "lock_holder st = None"
    using reachable_inv[OF assms(1,2)] st by (fastforce simp: table_inv_def lock_inv_def exclusive_def)
  ultimately show ?thesis
    by (cases ul) (simp_all add: update_locks_def get_lock_state_def update_holder_def upd_lock_def lock_at_def put_lock_def
        update_last_commit_timestamp_def lock_is_free_def)
qed

definition passed_table :: lock_table where
  "passed_table = projr (run_steps lock_step (lock_table_new two_txns) (contended @ [Update [0] (AbortLock 1)]))"

lemma passed_run:
  "run_steps lock_step (lock_table_new two_txns) (contended @ [Update [0] (AbortLock 1)]) = Inr passed_table"
proof -
  have "isl (run_steps lock_step (lock_table_new two_txns) (contended @ [Update [0] (AbortLock 1)])) = False" by code_simp
  then show ?thesis by (simp add: passed_table_def)
qed

lemma passed_lock:
  "locks passed_table [0] =
     Some \<lparr>reservation = Some 11, lock_holder = None, queued_writers = [], waiting_readers = [],
       last_committed_timestamp = None\<rparr>"
  by code_simp

theorem update_of_reserved_lock_panics_witness:
  "update_locks passed_table [0] (AbortLock 1) = Some (Inl (Explicit ''called lock_is_free with reservation''))"
  by (rule update_of_reserved_lock_panics[OF two_txns_ok passed_run]) (simp add: reserved_by_def passed_lock)

text \<open>
  When a committed lock passes to a queued writer, the writer's timestamp becomes the
  successor of the commit timestamp. It is overwritten, so it moves back when it was already
  later, as the witness shows: from 9 to 5.
\<close>

lemma next_writer_timestamp_overwritten:
  assumes "txn_ids_ok T" "run_steps lock_step (lock_table_new T) es = Inr lt"
    "locks lt k = Some st" "get_holder_txn_id st = Some u" "queued_writers st = w # ws"
    "next_logical_timestamp ts = Inr ts'" "lt_guards lt w = Some gd"
  shows "\<exists>lt' t'. update_locks lt k (CommitLock u ts) = Some (Inr (False, lt')) \<and>
    lt_txns lt' (guard_txn gd) = Some t' \<and> write_timestamp t' = ts'"
proof -
  have inv: "lock_inv lt" using reachable_inv[OF assms(1,2)] by (simp add: table_inv_def)
  let ?st = "st\<lparr>lock_holder := None, last_committed_timestamp := commit_of st (CommitLock u ts)\<rparr>"
  obtain lt1 where lt1: "update_locks lt k (CommitLock u ts) = lock_is_free lt1 k" "lock_inv lt1" "lt_guards lt1 = lt_guards lt"
    "locks lt1 k = Some ?st" "reservation st = None"
    using update_locks_by_holder[OF inv assms(3), of "CommitLock u ts"] assms(4) by (auto simp: update_lock_txn_def)
  obtain lt' where "lock_is_free lt1 k = Some (Inr (False, lt'))"
    "\<exists>t. lt_txns lt' (guard_txn gd) = Some t \<and> next_logical_timestamp ts = Inr (write_timestamp t)"
    by (rule lock_is_free_passes[OF lt1(2,4)]) (use lt1 assms(5-7) in \<open>auto simp: commit_of_def commit_ok_def\<close>)
  with lt1(1) assms(6) show ?thesis by auto
qed

end
