(* ===== verification/Txn_Wait_Queue.thy ===== *)
theory Txn_Wait_Queue
  imports Txn
begin

text \<open>
  The queue of transactions that wait for another transaction to finish
  (\<open>src/src/txn_wait/txn_wait_queue.rs\<close>), with its deadlock detection. A \<open>WaitingPush\<close> link is an
  index into a store that only grows; its one-message channel is the number of messages in
  it. A \<open>HashSet\<close> is a set, and so is the vector of dependents built from it, whose order the
  standard library leaves open and nothing looks at.
\<close>

record waiting_push =
  push_dependents :: "uuid set"
  push_txn :: uuid
  push_messages :: nat

type_synonym pending_txn = "nat list"

record txn_wait_queue =
  pushees :: "uuid \<rightharpoonup> pending_txn"
  waiting_pushes :: "waiting_push list"

datatype wait_for_push_error = PushTxnAborted | PushTxnCommitted

definition pending_txn_new :: pending_txn where
  "pending_txn_new = []"

definition waiting_push_new :: "uuid \<Rightarrow> waiting_push" where
  "waiting_push_new tid = \<lparr>push_dependents = {}, push_txn = tid, push_messages = 0\<rparr>"

definition push_at :: "txn_wait_queue \<Rightarrow> nat \<Rightarrow> waiting_push res" where
  "push_at q i = (if i < length (waiting_pushes q) then Inr (waiting_pushes q ! i) else Inl UnreachableCode)"

definition put_push :: "txn_wait_queue \<Rightarrow> nat \<Rightarrow> waiting_push \<Rightarrow> txn_wait_queue" where
  "put_push q i p = q\<lparr>waiting_pushes := (waiting_pushes q)[i := p]\<rparr>"

definition get_dependents :: "waiting_push \<Rightarrow> uuid set" where
  "get_dependents p = push_dependents p"

definition release_push :: "txn_wait_queue \<Rightarrow> nat \<Rightarrow> txn_wait_queue run" where
  "release_push q i =
     run_bind (Some (push_at q i)) (\<lambda>p.
       if push_messages p = 0 then Some (Inr (put_push q i (p\<lparr>push_messages := 1\<rparr>))) else None)"

definition txn_wait_queue_new :: txn_wait_queue where
  "txn_wait_queue_new = \<lparr>pushees = Map.empty, waiting_pushes = []\<rparr>"

definition enqueue_and_push :: "txn_wait_queue \<Rightarrow> uuid \<Rightarrow> uuid \<Rightarrow> nat \<times> txn_wait_queue" where
  "enqueue_and_push q pusher pushee =
     (let i = length (waiting_pushes q);
          q1 = q\<lparr>waiting_pushes := waiting_pushes q @ [waiting_push_new pusher]\<rparr>
      in (i, case pushees q pushee of
               Some pending \<Rightarrow> q1\<lparr>pushees := (pushees q)(pushee \<mapsto> pending @ [i])\<rparr>
             | None \<Rightarrow> q1\<lparr>pushees := (pushees q)(pushee \<mapsto> pending_txn_new @ [i])\<rparr>))"

definition get_pending_txn :: "txn_wait_queue \<Rightarrow> uuid \<Rightarrow> pending_txn option" where
  "get_pending_txn q tid = pushees q tid"

definition remove_pushee :: "txn_wait_queue \<Rightarrow> uuid \<Rightarrow> txn_wait_queue" where
  "remove_pushee q pushee = q\<lparr>pushees := (pushees q)(pushee := None)\<rparr>"

fun release_pushes :: "txn_wait_queue \<Rightarrow> nat list \<Rightarrow> txn_wait_queue run" where
  "release_pushes q [] = Some (Inr q)"
| "release_pushes q (i # is) = run_bind (release_push q i) (\<lambda>q'. release_pushes q' is)"

definition finalize_txn :: "txn_wait_queue \<Rightarrow> uuid \<Rightarrow> txn_wait_queue run" where
  "finalize_txn q tid =
     (case get_pending_txn q tid of
        Some pushes \<Rightarrow> run_bind (release_pushes q pushes) (\<lambda>q'. Some (Inr (remove_pushee q' tid)))
      | None \<Rightarrow> Some (Inr q))"

text \<open>\<open>dequeue\<close> is \<open>todo!()\<close>.\<close>

definition dequeue_push :: "txn_wait_queue \<Rightarrow> nat \<Rightarrow> uuid \<Rightarrow> txn_wait_queue res" where
  "dequeue_push q i pushee = Inl NotImplemented"

definition get_transitive_dependents :: "txn_wait_queue \<Rightarrow> uuid \<Rightarrow> uuid set" where
  "get_transitive_dependents q tid =
     (case pushees q tid of
        Some pending \<Rightarrow>
          \<Union> (set (map (\<lambda>i. get_dependents (waiting_pushes q ! i) \<union> {push_txn (waiting_pushes q ! i)}) pending))
      | None \<Rightarrow> {})"

text \<open>
  One turn of the task started by \<open>start_query_pusher_txn_dependents\<close>: the dependents of the
  pusher are read, added to its waiting push, and sent with the status of its record.
\<close>

definition query_pusher_txn_dependents ::
  "(uuid \<Rightarrow> txn_record option) \<Rightarrow> txn_wait_queue \<Rightarrow> uuid \<Rightarrow> nat \<Rightarrow>
   ((uuid set \<times> transaction_status) \<times> txn_wait_queue) res" where
  "query_pusher_txn_dependents records q tid i =
     (let deps = get_transitive_dependents q tid in
      rbind (unwrap (records tid)) (\<lambda>r.
      rbind (push_at q i) (\<lambda>p.
        Inr ((deps, rec_status r), put_push q i (p\<lparr>push_dependents := push_dependents p \<union> deps\<rparr>)))))"

text \<open>
  The loop of \<open>wait_for_push\<close>. Each turn waits for one of two messages; \<open>None\<close> is a wait
  for a message that has not come. The result says whether the pushee has to be aborted first,
  which the caller asks the task queue for.
\<close>

datatype push_message = DependentsMsg "uuid set" transaction_status | FinalizedMsg

datatype push_response = PusheeFinalized | AbortPushee

fun push_loop :: "uuid \<Rightarrow> nat \<Rightarrow> push_message list \<Rightarrow> (wait_for_push_error + push_response) run" where
  "push_loop pushee loop_count msgs =
     (let loop_count = loop_count + 1 in
      if loop_count > 25 then Some (Inl (Explicit ''Exceeded count waiting for push''))
      else case msgs of
             [] \<Rightarrow> None
           | DependentsMsg dependents status # msgs \<Rightarrow>
               (case status of
                  COMMITTED \<Rightarrow> Some (Inr (Inl PushTxnCommitted))
                | ABORTED \<Rightarrow> Some (Inr (Inl PushTxnAborted))
                | PENDING \<Rightarrow>
                    if pushee \<in> dependents then Some (Inr (Inr AbortPushee))
                    else push_loop pushee loop_count msgs)
           | FinalizedMsg # msgs \<Rightarrow> Some (Inr (Inr PusheeFinalized)))"

declare push_loop.simps [simp del]

definition wait_for_push ::
  "txn_wait_queue \<Rightarrow> uuid \<Rightarrow> uuid \<Rightarrow> push_message list \<Rightarrow> txn_wait_queue \<times> (wait_for_push_error + push_response) run" where
  "wait_for_push q pusher pushee msgs =
     (let (i, q') = enqueue_and_push q pusher pushee in (q', push_loop pushee 0 msgs))"

subsection \<open>The loop ends\<close>

definition decisive :: "uuid \<Rightarrow> push_message \<Rightarrow> bool" where
  "decisive pushee m =
     (case m of FinalizedMsg \<Rightarrow> True | DependentsMsg deps st \<Rightarrow> st \<noteq> PENDING \<or> pushee \<in> deps)"

definition verdict :: "uuid \<Rightarrow> push_message \<Rightarrow> wait_for_push_error + push_response" where
  "verdict pushee m =
     (case m of
        FinalizedMsg \<Rightarrow> Inr PusheeFinalized
      | DependentsMsg _ COMMITTED \<Rightarrow> Inl PushTxnCommitted
      | DependentsMsg _ ABORTED \<Rightarrow> Inl PushTxnAborted
      | DependentsMsg _ PENDING \<Rightarrow> Inr AbortPushee)"

lemma push_loop_result:
  assumes "n \<le> 25"
  shows "push_loop pushee n msgs =
    (case dropWhile (\<lambda>m. \<not> decisive pushee m) (take (25 - n) msgs) of
       m # _ \<Rightarrow> Some (Inr (verdict pushee m))
     | [] \<Rightarrow> if 25 - n \<le> length msgs then Some (Inl (Explicit ''Exceeded count waiting for push'')) else None)"
  using assms
proof (induction msgs arbitrary: n)
  case Nil
  then show ?case by (simp add: push_loop.simps Let_def)
next
  case (Cons m msgs)
  show ?case
  proof (cases "n = 25")
    case False
    then have n: "Suc n \<le> 25" "25 - n = Suc (25 - Suc n)" using Cons.prems by auto
    show ?thesis
    proof (cases "decisive pushee m")
      case True
      with n show ?thesis
        by (subst push_loop.simps) (auto simp: decisive_def verdict_def split: push_message.splits transaction_status.splits)
    next
      case False
      then have "push_loop pushee n (m # msgs) = push_loop pushee (Suc n) msgs"
        using n by (subst push_loop.simps) (auto simp: decisive_def split: push_message.splits)
      with Cons.IH[OF n(1)] n False show ?thesis by simp
    qed
  qed (simp add: push_loop.simps Let_def)
qed

subsection \<open>The queue as a state machine\<close>

text \<open>
  A task that pushes, a turn of the task that looks for dependents, and the end of a
  transaction. The records are the transaction records at the time of the turn.
\<close>

datatype wait_event = Push uuid uuid | Query "uuid \<Rightarrow> txn_record option" nat | FinalizeTxn uuid

definition wait_step :: "txn_wait_queue \<Rightarrow> wait_event \<Rightarrow> txn_wait_queue res" where
  "wait_step q e =
     (case e of
        Push pusher pushee \<Rightarrow> Inr (snd (enqueue_and_push q pusher pushee))
      | Query records i \<Rightarrow>
          rbind (push_at q i) (\<lambda>p.
            rbind (query_pusher_txn_dependents records q (push_txn p) i) (\<lambda>(_, q'). Inr q'))
      | FinalizeTxn u \<Rightarrow>
          (case finalize_txn q u of None \<Rightarrow> Inl (Explicit ''suspended'') | Some r \<Rightarrow> r))"

text \<open>A pending push is in one list, once, and its channel is empty.\<close>

definition pending_ids :: "txn_wait_queue \<Rightarrow> uuid \<Rightarrow> nat list" where
  "pending_ids q u = (case pushees q u of None \<Rightarrow> [] | Some is \<Rightarrow> is)"

definition wait_inv :: "txn_wait_queue \<Rightarrow> bool" where
  "wait_inv q \<longleftrightarrow>
     (\<forall>u. distinct (pending_ids q u)) \<and>
     (\<forall>u v. u \<noteq> v \<longrightarrow> set (pending_ids q u) \<inter> set (pending_ids q v) = {}) \<and>
     (\<forall>u i. i \<in> set (pending_ids q u) \<longrightarrow> i < length (waiting_pushes q) \<and> push_messages (waiting_pushes q ! i) = 0)"

lemma wait_inv_new: "wait_inv txn_wait_queue_new"
  by (simp add: wait_inv_def txn_wait_queue_new_def pending_ids_def)

lemma enqueue_and_push_eq:
  "snd (enqueue_and_push q pusher pushee) =
     q\<lparr>pushees := (pushees q)(pushee \<mapsto> pending_ids q pushee @ [length (waiting_pushes q)]),
       waiting_pushes := waiting_pushes q @ [waiting_push_new pusher]\<rparr>"
  by (cases "pushees q pushee") (simp_all add: enqueue_and_push_def pending_ids_def pending_txn_new_def Let_def)

lemma push_new:
  "pending_ids (snd (enqueue_and_push q pusher pushee)) u =
     (if u = pushee then pending_ids q u @ [length (waiting_pushes q)] else pending_ids q u)"
  "waiting_pushes (snd (enqueue_and_push q pusher pushee)) = waiting_pushes q @ [waiting_push_new pusher]"
  by (simp_all add: enqueue_and_push_eq pending_ids_def)

lemma wait_invD:
  assumes "wait_inv q" "i \<in> set (pending_ids q u)"
  shows "i < length (waiting_pushes q)" "push_messages (waiting_pushes q ! i) = 0"
  using assms by (auto simp: wait_inv_def)

lemma wait_inv_push:
  assumes inv: "wait_inv q"
  shows "wait_inv (snd (enqueue_and_push q pusher pushee))"
proof -
  let ?q = "snd (enqueue_and_push q pusher pushee)" and ?n = "length (waiting_pushes q)"
  have new: "?n \<notin> set (pending_ids q u)" for u using wait_invD(1)[OF inv] by blast
  have "i < length (waiting_pushes ?q) \<and> push_messages (waiting_pushes ?q ! i) = 0" if "i \<in> set (pending_ids ?q u)" for u i
  proof (cases "i = ?n")
    case False
    with that have "i \<in> set (pending_ids q u)" by (auto simp: push_new split: if_splits)
    from wait_invD[OF inv this] show ?thesis by (simp add: push_new nth_append)
  qed (simp add: push_new waiting_push_new_def)
  moreover have "distinct (pending_ids ?q u)" for u using inv new by (simp add: push_new wait_inv_def)
  moreover have "set (pending_ids ?q u) \<inter> set (pending_ids ?q v) = {}" if "u \<noteq> v" for u v
  proof -
    have "set (pending_ids q u) \<inter> set (pending_ids q v) = {}" using inv that by (simp add: wait_inv_def)
    with that new show ?thesis by (auto simp: push_new)
  qed
  ultimately show ?thesis unfolding wait_inv_def by blast
qed

lemma query_effect:
  assumes "query_pusher_txn_dependents records q tid i = Inr (m, q')"
  shows "pushees q' = pushees q" "length (waiting_pushes q') = length (waiting_pushes q)" "i < length (waiting_pushes q)"
    "push_txn (waiting_pushes q' ! j) = push_txn (waiting_pushes q ! j)"
    "push_messages (waiting_pushes q' ! j) = push_messages (waiting_pushes q ! j)"
    "push_dependents (waiting_pushes q' ! j) =
      push_dependents (waiting_pushes q ! j) \<union> (if j = i then get_transitive_dependents q tid else {})"
    "fst m = get_transitive_dependents q tid"
  using assms by (auto simp: query_pusher_txn_dependents_def Let_def rbind_eq_Inr push_at_def put_push_def nth_list_update
      split: if_splits)

lemma wait_inv_query:
  assumes "wait_inv q" "query_pusher_txn_dependents records q tid i = Inr (m, q')"
  shows "wait_inv q'"
  using assms(1) query_effect[OF assms(2)] by (simp add: wait_inv_def pending_ids_def)

lemma release_pushes_ok:
  assumes "distinct is" "\<And>i. i \<in> set is \<Longrightarrow> i < length (waiting_pushes q) \<and> push_messages (waiting_pushes q ! i) = 0"
  obtains q' where "release_pushes q is = Some (Inr q')" "pushees q' = pushees q"
    "length (waiting_pushes q') = length (waiting_pushes q)"
    "\<And>j. waiting_pushes q' ! j =
      (if j \<in> set is then (waiting_pushes q ! j)\<lparr>push_messages := 1\<rparr> else waiting_pushes q ! j)"
  using assms
proof (induction "is" arbitrary: q thesis)
  case (Cons i "is")
  let ?q = "put_push q i ((waiting_pushes q ! i)\<lparr>push_messages := 1\<rparr>)"
  have i: "i < length (waiting_pushes q)" "push_messages (waiting_pushes q ! i) = 0" using Cons.prems(3) by auto
  obtain q' where q': "release_pushes ?q is = Some (Inr q')" "pushees q' = pushees ?q"
    "length (waiting_pushes q') = length (waiting_pushes ?q)"
    "\<And>j. waiting_pushes q' ! j =
      (if j \<in> set is then (waiting_pushes ?q ! j)\<lparr>push_messages := 1\<rparr> else waiting_pushes ?q ! j)"
    by (rule Cons.IH[of ?q]) (use Cons.prems in \<open>auto simp: put_push_def nth_list_update\<close>)
  show ?case
  proof (rule Cons.prems(1))
    show "release_pushes q (i # is) = Some (Inr q')" using i q'(1) by (simp add: release_push_def push_at_def)
    show "pushees q' = pushees q" "length (waiting_pushes q') = length (waiting_pushes q)"
      using q'(2,3) by (simp_all add: put_push_def)
    show "waiting_pushes q' ! j =
        (if j \<in> set (i # is) then (waiting_pushes q ! j)\<lparr>push_messages := 1\<rparr> else waiting_pushes q ! j)" for j
      using i q'(4)[of j] Cons.prems(2) by (auto simp: put_push_def nth_list_update)
  qed
qed simp

text \<open>The end of a transaction: every waiter gets its message, nobody else does.\<close>

lemma finalize_txn_ok:
  assumes inv: "wait_inv q"
  obtains q' where "finalize_txn q u = Some (Inr q')" "wait_inv q'" "pushees q' = (pushees q)(u := None)"
    "length (waiting_pushes q') = length (waiting_pushes q)"
    "\<And>j. waiting_pushes q' ! j =
      (if j \<in> set (pending_ids q u) then (waiting_pushes q ! j)\<lparr>push_messages := 1\<rparr> else waiting_pushes q ! j)"
proof (cases "pushees q u")
  case None
  then have "(pushees q)(u := None) = pushees q" by auto
  with None inv show ?thesis by (intro that[of q]) (simp_all add: finalize_txn_def get_pending_txn_def pending_ids_def)
next
  case (Some "is")
  then have ids: "pending_ids q u = is" by (simp add: pending_ids_def)
  obtain q' where q': "release_pushes q is = Some (Inr q')" "pushees q' = pushees q"
    "length (waiting_pushes q') = length (waiting_pushes q)"
    "\<And>j. waiting_pushes q' ! j = (if j \<in> set is then (waiting_pushes q ! j)\<lparr>push_messages := 1\<rparr> else waiting_pushes q ! j)"
    by (rule release_pushes_ok[of "is" q]) (use inv ids in \<open>auto simp: wait_inv_def\<close>)
  let ?q = "remove_pushee q' u"
  have ids': "pending_ids ?q v = (if v = u then [] else pending_ids q v)" for v
    using q'(2) by (simp add: pending_ids_def remove_pushee_def)
  have "wait_inv ?q"
    unfolding wait_inv_def
  proof (intro conjI allI impI)
    show "distinct (pending_ids ?q v)" for v using inv by (simp add: ids' wait_inv_def)
    show "set (pending_ids ?q v) \<inter> set (pending_ids ?q w) = {}" if "v \<noteq> w" for v w
      using inv that by (simp add: ids' wait_inv_def)
    fix v i assume i: "i \<in> set (pending_ids ?q v)"
    then have v: "v \<noteq> u" "i \<in> set (pending_ids q v)" by (auto simp: ids' split: if_splits)
    then have "i \<notin> set is" using inv ids unfolding wait_inv_def by blast
    with inv v q'(3,4) show "i < length (waiting_pushes ?q)" "push_messages (waiting_pushes ?q ! i) = 0"
      by (auto simp: wait_inv_def remove_pushee_def)
  qed
  with q' Some ids show ?thesis
    by (intro that[of ?q]) (simp_all add: finalize_txn_def get_pending_txn_def remove_pushee_def)
qed

interpretation wait_machine: step_invariant wait_step wait_inv
proof
  fix q e q'
  assume inv: "wait_inv q" and step: "wait_step q e = Inr q'"
  show "wait_inv q'"
  proof (cases e)
    case (Query records i)
    with step obtain p :: waiting_push and m where "query_pusher_txn_dependents records q (push_txn p) i = Inr (m, q')"
      by (auto simp: wait_step_def rbind_eq_Inr)
    with inv wait_inv_query show ?thesis by blast
  next
    case (FinalizeTxn u)
    obtain q1 where "finalize_txn q u = Some (Inr q1)" "wait_inv q1" by (rule finalize_txn_ok[OF inv])
    with FinalizeTxn step show ?thesis by (simp add: wait_step_def)
  qed (use inv step wait_inv_push in \<open>auto simp: wait_step_def\<close>)
qed

subsection \<open>Deadlock detection\<close>

text \<open>Who waits for whom: the pusher of a pending push waits for its pushee.\<close>

definition waits :: "txn_wait_queue \<Rightarrow> (uuid \<times> uuid) set" where
  "waits q = {(a, b). \<exists>i \<in> set (pending_ids q b). push_txn (waiting_pushes q ! i) = a}"

lemma in_dependents_iff:
  "d \<in> get_transitive_dependents q u \<longleftrightarrow>
     (\<exists>i \<in> set (pending_ids q u). d \<in> push_dependents (waiting_pushes q ! i) \<or> d = push_txn (waiting_pushes q ! i))"
  by (auto simp: get_transitive_dependents_def pending_ids_def get_dependents_def split: option.splits)

text \<open>Recorded dependents do wait, directly or through others.\<close>

definition deps_sound :: "txn_wait_queue \<Rightarrow> bool" where
  "deps_sound q \<longleftrightarrow>
     (\<forall>u. \<forall>i \<in> set (pending_ids q u). \<forall>d \<in> push_dependents (waiting_pushes q ! i).
       (d, push_txn (waiting_pushes q ! i)) \<in> (waits q)\<^sup>+)"

lemma dependents_wait:
  assumes "deps_sound q" "d \<in> get_transitive_dependents q u"
  shows "(d, u) \<in> (waits q)\<^sup>+"
proof -
  obtain i where i: "i \<in> set (pending_ids q u)"
    and d: "d \<in> push_dependents (waiting_pushes q ! i) \<or> d = push_txn (waiting_pushes q ! i)"
    using assms(2) by (auto simp: in_dependents_iff)
  have edge: "(push_txn (waiting_pushes q ! i), u) \<in> waits q" using i by (auto simp: waits_def)
  from d show ?thesis
  proof
    assume "d \<in> push_dependents (waiting_pushes q ! i)"
    with assms(1) i have "(d, push_txn (waiting_pushes q ! i)) \<in> (waits q)\<^sup>+" by (auto simp: deps_sound_def)
    from trancl_into_trancl[OF this edge] show ?thesis .
  qed (use edge in auto)
qed

lemma waits_push:
  assumes "wait_inv q"
  shows "waits q \<subseteq> waits (snd (enqueue_and_push q pusher pushee))"
proof
  fix e assume "e \<in> waits q"
  then obtain a b i where e: "e = (a, b)" "i \<in> set (pending_ids q b)" "push_txn (waiting_pushes q ! i) = a"
    by (auto simp: waits_def)
  then show "e \<in> waits (snd (enqueue_and_push q pusher pushee))"
    using wait_invD(1)[OF assms e(2)] by (auto simp: waits_def push_new nth_append)
qed

lemma deps_sound_push:
  assumes inv: "wait_inv q" and snd: "deps_sound q"
  shows "deps_sound (snd (enqueue_and_push q pusher pushee))"
  unfolding deps_sound_def
proof (intro allI ballI)
  let ?q = "snd (enqueue_and_push q pusher pushee)"
  fix u i d
  assume i: "i \<in> set (pending_ids ?q u)" and d: "d \<in> push_dependents (waiting_pushes ?q ! i)"
  have "i \<noteq> length (waiting_pushes q)" using d by (auto simp: push_new waiting_push_new_def)
  with i have old: "i \<in> set (pending_ids q u)" by (auto simp: push_new split: if_splits)
  have same: "waiting_pushes ?q ! i = waiting_pushes q ! i"
    using wait_invD(1)[OF inv old] by (simp add: push_new nth_append)
  with snd d old have "(d, push_txn (waiting_pushes q ! i)) \<in> (waits q)\<^sup>+" by (auto simp: deps_sound_def)
  with waits_push[OF inv] show "(d, push_txn (waiting_pushes ?q ! i)) \<in> (waits ?q)\<^sup>+"
    unfolding same using trancl_mono by metis
qed

lemma query_waits:
  assumes "query_pusher_txn_dependents records q tid i = Inr (m, q')"
  shows "waits q' = waits q" "pending_ids q' = pending_ids q"
  using query_effect[OF assms] by (simp_all add: waits_def pending_ids_def fun_eq_iff)

lemma deps_sound_query:
  assumes snd: "deps_sound q" and query: "query_pusher_txn_dependents records q (push_txn (waiting_pushes q ! i)) i = Inr (m, q')"
  shows "deps_sound q'"
  unfolding deps_sound_def query_waits[OF query] query_effect(4)[OF query]
proof (intro allI ballI)
  fix u j d
  assume j: "j \<in> set (pending_ids q u)" and d: "d \<in> push_dependents (waiting_pushes q' ! j)"
  then consider "d \<in> push_dependents (waiting_pushes q ! j)"
    | "j = i" "d \<in> get_transitive_dependents q (push_txn (waiting_pushes q ! i))"
    using query_effect(6)[OF query, of j] by (auto split: if_splits)
  then show "(d, push_txn (waiting_pushes q ! j)) \<in> (waits q)\<^sup>+"
  proof cases
    case 1
    with snd j show ?thesis by (auto simp: deps_sound_def)
  next
    case 2
    with dependents_wait[OF snd] show ?thesis by blast
  qed
qed

text \<open>A chain of pending pushes from a transaction to another.\<close>

fun wait_chain :: "txn_wait_queue \<Rightarrow> uuid \<Rightarrow> nat list \<Rightarrow> uuid \<Rightarrow> bool" where
  "wait_chain q x [] y \<longleftrightarrow> x = y"
| "wait_chain q x (i # is) y \<longleftrightarrow>
     push_txn (waiting_pushes q ! i) = x \<and> (\<exists>z. i \<in> set (pending_ids q z) \<and> wait_chain q z is y)"

lemma wait_chain_cong:
  assumes "pending_ids q' = pending_ids q" "\<And>j. push_txn (waiting_pushes q' ! j) = push_txn (waiting_pushes q ! j)"
  shows "wait_chain q' x is y = wait_chain q x is y"
  using assms by (induction "is" arbitrary: x) auto

lemma query_returns:
  assumes "i < length (waiting_pushes q)" "records tid \<noteq> None"
  obtains m q' where "query_pusher_txn_dependents records q tid i = Inr (m, q')"
  using assms by (auto simp: query_pusher_txn_dependents_def push_at_def Let_def)

text \<open>
  Once the pushes along a chain have been queried in order, the start of the chain is among the
  dependents of its end.
\<close>

lemma chain_queried:
  assumes "wait_inv q" "wait_chain q x is y" "is \<noteq> []" "d = x \<or> d \<in> get_transitive_dependents q x"
    "\<forall>i \<in> set is. records (push_txn (waiting_pushes q ! i)) \<noteq> None"
  shows "\<exists>q'. run_steps wait_step q (map (Query records) is) = Inr q' \<and> d \<in> get_transitive_dependents q' y \<and>
    wait_inv q' \<and> waits q' = waits q"
  using assms
proof (induction "is" arbitrary: q x)
  case (Cons i "is")
  then obtain z where x: "push_txn (waiting_pushes q ! i) = x" and z: "i \<in> set (pending_ids q z)" "wait_chain q z is y"
    by auto
  have i: "i < length (waiting_pushes q)" using Cons.prems(1) z(1) by (simp add: wait_inv_def)
  obtain m q1 where query: "query_pusher_txn_dependents records q x i = Inr (m, q1)"
    by (rule query_returns[OF i]) (use Cons.prems(5) x in auto)
  note eff = query_effect[OF query] and same = query_waits[OF query]
  have step: "wait_step q (Query records i) = Inr q1"
    using i x query by (simp add: wait_step_def push_at_def)
  have d: "d \<in> get_transitive_dependents q1 z"
  proof -
    have "d \<in> push_dependents (waiting_pushes q1 ! i) \<or> d = push_txn (waiting_pushes q1 ! i)"
      using Cons.prems(4) eff(4)[of i] eff(6)[of i] x by auto
    then show ?thesis using z(1) unfolding in_dependents_iff same(2) by blast
  qed
  have inv1: "wait_inv q1" by (rule wait_inv_query[OF Cons.prems(1) query])
  show ?case
  proof (cases "is = []")
    case True
    with step d z(2) inv1 same(1) show ?thesis by simp
  next
    case False
    have "wait_chain q1 z is y" using z(2) wait_chain_cong[OF same(2) eff(4)] by simp
    moreover have "\<forall>j \<in> set is. records (push_txn (waiting_pushes q1 ! j)) \<noteq> None" using Cons.prems(5) eff(4) by simp
    ultimately show ?thesis
      using Cons.IH[OF inv1 _ False _ ] d step same(1) by simp
  qed
qed simp

end
