(* ===== verification/Wait_Properties.thy ===== *)
theory Wait_Properties
  imports Txn_Wait_Queue
begin

text \<open>The properties of the transaction wait queue: deadlocks are found, and waiting ends.\<close>

lemma reachable_wait_inv:
  "run_steps wait_step txn_wait_queue_new es = Inr q \<Longrightarrow> wait_inv q"
  by (rule wait_machine.run_inv[OF wait_inv_new])

definition pending_records :: "uuid \<Rightarrow> txn_record option" where
  "pending_records u = Some (TxnRecord PENDING (TxnMetadata u (Timestamp 1 0)))"

text \<open>
  C21: a deadlock is found. When transaction \<open>p\<close> pushes \<open>e\<close> while a chain of pending pushes leads
  from \<open>e\<close> back to \<open>p\<close>, then after one query of each push along the chain the next query for \<open>p\<close>
  makes its \<open>wait_for_push\<close> abort \<open>e\<close>.
\<close>

theorem deadlock_found:
  assumes "run_steps wait_step txn_wait_queue_new es = Inr q"
    "wait_chain q e is p" "is \<noteq> []" "i \<in> set (pending_ids q e)" "push_txn (waiting_pushes q ! i) = p"
    "\<forall>j \<in> set is. records (push_txn (waiting_pushes q ! j)) \<noteq> None" "records p = Some (TxnRecord PENDING md)"
  shows "\<exists>q1 deps q2. run_steps wait_step q (map (Query records) is) = Inr q1 \<and>
    query_pusher_txn_dependents records q1 p i = Inr ((deps, PENDING), q2) \<and>
    push_loop e 0 (DependentsMsg deps PENDING # msgs) = Some (Inr (Inr AbortPushee))"
proof -
  have inv: "wait_inv q" by (rule reachable_wait_inv[OF assms(1)])
  obtain q1 where q1: "run_steps wait_step q (map (Query records) is) = Inr q1"
    "e \<in> get_transitive_dependents q1 p" "waits q1 = waits q"
    using chain_queried[OF inv assms(2,3) _ assms(6), of e] by auto
  have "length (waiting_pushes q1) = length (waiting_pushes q)"
    using q1(1)
  proof (induction "is" arbitrary: q)
    case (Cons j js)
    then obtain q' where "wait_step q (Query records j) = Inr q'" and rest: "run_steps wait_step q' (map (Query records) js) = Inr q1"
      by (auto simp: rbind_eq_Inr)
    then have "length (waiting_pushes q') = length (waiting_pushes q)"
      by (auto simp: wait_step_def rbind_eq_Inr query_effect(2))
    with Cons.IH[OF rest] show ?case by simp
  qed simp
  then have "i < length (waiting_pushes q1)" using wait_invD(1)[OF inv assms(4)] by simp
  then obtain q2 where "query_pusher_txn_dependents records q1 p i = Inr ((get_transitive_dependents q1 p, PENDING), q2)"
    using assms(7) by (auto simp: query_pusher_txn_dependents_def push_at_def Let_def)
  moreover have "push_loop e 0 (DependentsMsg (get_transitive_dependents q1 p) PENDING # msgs) = Some (Inr (Inr AbortPushee))"
    using q1(2) by (subst push_loop.simps) simp
  ultimately show ?thesis using q1(1) by blast
qed

text \<open>Transaction 1 pushes 2, which pushes 3, which pushes 1.\<close>

definition three_pushes :: "wait_event list" where
  "three_pushes = [Push 1 2, Push 2 3, Push 3 1]"

definition three_queue :: txn_wait_queue where
  "three_queue = projr (run_steps wait_step txn_wait_queue_new three_pushes)"

lemma three_run: "run_steps wait_step txn_wait_queue_new three_pushes = Inr three_queue"
  by (simp add: three_queue_def three_pushes_def wait_step_def)

lemma three_queue_facts:
  "pending_ids three_queue 1 = [2]" "pending_ids three_queue 2 = [0]" "pending_ids three_queue 3 = [1]"
  "map push_txn (waiting_pushes three_queue) = [1, 2, 3]"
  by code_simp+

lemma three_txns:
  "push_txn (waiting_pushes three_queue ! 0) = 1" "push_txn (waiting_pushes three_queue ! Suc 0) = 2"
  "push_txn (waiting_pushes three_queue ! 2) = 3"
  by code_simp+

theorem deadlock_found_witness:
  "\<exists>q1 deps q2. run_steps wait_step three_queue (map (Query pending_records) [0, 1]) = Inr q1 \<and>
    query_pusher_txn_dependents pending_records q1 3 2 = Inr ((deps, PENDING), q2) \<and>
    push_loop 1 0 [DependentsMsg deps PENDING] = Some (Inr (Inr AbortPushee))"
proof (rule deadlock_found[OF three_run])
  have "0 \<in> set (pending_ids three_queue 2)" "Suc 0 \<in> set (pending_ids three_queue 3)"
    by (simp_all add: three_queue_facts)
  then show "wait_chain three_queue 1 [0, 1] 3" by (auto simp: three_txns)
qed (simp_all add: three_queue_facts three_txns pending_records_def)

text \<open>
  C22: while no transaction ends, only real waiters are counted: whatever the query reports as a
  dependent of a transaction waits for it, directly or through others, so the aborted pushee of a
  pusher is on a cycle with it.
\<close>

theorem dependents_are_waiters:
  assumes "run_steps wait_step txn_wait_queue_new es = Inr q" "\<forall>u. FinalizeTxn u \<notin> set es"
    "d \<in> get_transitive_dependents q u"
  shows "(d, u) \<in> (waits q)\<^sup>+"
proof -
  have "deps_sound q'" if "wait_inv q0" "deps_sound q0" "run_steps wait_step q0 es = Inr q'" for q0 q'
    using that assms(2)
  proof (induction es arbitrary: q0)
    case (Cons ev es)
    then obtain q1 where step: "wait_step q0 ev = Inr q1" and rest: "run_steps wait_step q1 es = Inr q'"
      by (auto simp: rbind_eq_Inr)
    have inv1: "wait_inv q1" by (rule wait_machine.step_inv[OF Cons.prems(1) step])
    have "deps_sound q1"
    proof (cases ev)
      case (Push a b)
      with step deps_sound_push[OF Cons.prems(1,2), of a b] show ?thesis by (simp add: wait_step_def)
    next
      case (Query records i)
      with step obtain m where "query_pusher_txn_dependents records q0 (push_txn (waiting_pushes q0 ! i)) i = Inr (m, q1)"
        by (auto simp: wait_step_def rbind_eq_Inr push_at_def split: if_splits)
      with deps_sound_query[OF Cons.prems(2)] show ?thesis by blast
    qed (use Cons.prems(4) in auto)
    with Cons.IH[OF inv1 _ rest] Cons.prems(4) show ?case by auto
  qed simp
  moreover have "deps_sound txn_wait_queue_new"
    by (simp add: deps_sound_def txn_wait_queue_new_def pending_ids_def)
  ultimately have "deps_sound q" using assms(1) wait_inv_new by blast
  then show ?thesis using assms(3) by (rule dependents_wait)
qed

theorem dependents_are_waiters_witness: "(1, 2) \<in> (waits three_queue)\<^sup>+"
proof (rule dependents_are_waiters[OF three_run])
  show "1 \<in> get_transitive_dependents three_queue 2"
    unfolding in_dependents_iff by (simp add: three_queue_facts three_txns)
qed (simp add: three_pushes_def)

text \<open>
  C37: dependents are never removed. After 1 pushed 2, 2 pushed 3 and was queried, and 2 ended,
  transaction 1 waits for nobody; still, when 3 pushes 1, the query reports 1 as a dependent of 3,
  and \<open>wait_for_push\<close> aborts 1 for a deadlock that does not exist.
\<close>

theorem stale_dependents_abort:
  "\<exists>q. run_steps wait_step txn_wait_queue_new [Push 1 2, Push 2 3, Query pending_records 1, FinalizeTxn 2, Push 3 1] = Inr q \<and>
    (\<forall>u. (1, u) \<notin> waits q) \<and>
    push_loop 1 0 [DependentsMsg (get_transitive_dependents q 3) PENDING] = Some (Inr (Inr AbortPushee))"
proof -
  let ?r = "run_steps wait_step txn_wait_queue_new [Push 1 2, Push 2 3, Query pending_records 1, FinalizeTxn 2, Push 3 1]"
  have "\<not> isl ?r" by code_simp
  then obtain q where q: "?r = Inr q" by (cases ?r) auto
  have "q = projr ?r" using q by simp
  then have facts: "pushees q = [1 \<mapsto> [2], 3 \<mapsto> [1]]" "map push_txn (waiting_pushes q) = [1, 2, 3]"
    "1 \<in> push_dependents (waiting_pushes q ! 1)"
    by (simp_all add: wait_step_def enqueue_and_push_def txn_wait_queue_new_def query_pusher_txn_dependents_def
        pending_records_def waiting_push_new_def push_at_def put_push_def get_transitive_dependents_def get_dependents_def
        finalize_txn_def get_pending_txn_def release_push_def remove_pushee_def pending_txn_new_def fun_eq_iff Let_def)
  have "push_txn (waiting_pushes q ! i) \<noteq> 1" if "i \<in> {1, 2}" for i
  proof -
    have "length (waiting_pushes q) = 3" using arg_cong[OF facts(2), of length] by simp
    then have "push_txn (waiting_pushes q ! i) = [1, 2, 3] ! i" using that facts(2) by (metis nth_map insertE less_Suc_eq numeral_3_eq_3 One_nat_def numeral_2_eq_2 singletonD zero_less_Suc)
    with that show ?thesis by auto
  qed
  then have "(1, u) \<notin> waits q" for u
    by (auto simp: waits_def pending_ids_def facts(1) split: option.splits if_splits)
  moreover have "1 \<in> get_transitive_dependents q 3"
    using facts(1,3) by (simp add: get_transitive_dependents_def get_dependents_def)
  then have "push_loop 1 0 [DependentsMsg (get_transitive_dependents q 3) PENDING] = Some (Inr (Inr AbortPushee))"
    by (subst push_loop.simps) simp
  ultimately show ?thesis using q by blast
qed

text \<open>
  C23: \<open>wait_for_push\<close> comes to an end: it handles at most 25 messages. The first decisive one (the
  pushee ended, the pusher ended, or a cycle) gives the result; without one among the first
  25 it panics, so no push outlasts 25 polls of its dependents.
\<close>

theorem wait_for_push_terminates:
  assumes "25 \<le> length msgs"
  shows "snd (wait_for_push q pusher pushee msgs) = Some
    (case dropWhile (\<lambda>m. \<not> decisive pushee m) (take 25 msgs) of
       m # _ \<Rightarrow> Inr (verdict pushee m)
     | [] \<Rightarrow> Inl (Explicit ''Exceeded count waiting for push''))"
  using push_loop_result[of 0 pushee msgs] assms
  by (cases "dropWhile (\<lambda>m. \<not> decisive pushee m) (take 25 msgs)")
    (simp_all add: wait_for_push_def enqueue_and_push_def Let_def del: dropWhile_eq_Nil_conv)

theorem wait_for_push_terminates_witness:
  "snd (wait_for_push three_queue 1 2 (replicate 25 (DependentsMsg {3} PENDING))) =
     Some (Inl (Explicit ''Exceeded count waiting for push''))"
  using wait_for_push_terminates[of "replicate 25 (DependentsMsg {3} PENDING)" three_queue 1 2]
  by (simp add: decisive_def)

end
