(* ===== verification/Executor.thy ===== *)
theory Executor
  imports Mvcc Oracle Lock_Machine Txn_Wait_Queue
begin

text \<open>
  The execution of requests: the \<open>execute\<close> methods of \<open>src/src/execute/request.rs\<close>, the executor
  (\<open>src/src/execute/executor.rs\<close>) and the parts of the concurrency manager
  (\<open>src/src/concurrency/concurrency_manager.rs\<close>) around them. The state joins the store, the
  lock table with the shared transactions, the timestamp oracle and the wait queue. Each
  \<open>execute\<close> is one step; where the source suspends on a full channel or a held lock, the value
  is \<open>None\<close>.
\<close>

record 'db exec =
  ex_store :: 'db
  ex_table :: lock_table
  ex_oracle :: timestamp_oracle
  ex_waitq :: txn_wait_queue

datatype response_error = WriteIntentErr txn_intent | ReadRefreshError | TxnAbortedError

datatype response_union =
  BeginTxnResponse | CommitTxnResponse timestamp | AbortTxnResponse | GetResponse "(mvcc_key \<times> val) option" | PutResponse

type_synonym response_result = "response_error + response_union"

datatype execute_error = ReadRefreshFailure | ExecTxnCommitted | ExecTxnAborted

definition put_store :: "'db exec \<Rightarrow> 'db \<Rightarrow> 'db exec" where
  "put_store ex d = ex\<lparr>ex_store := d\<rparr>"

definition exec_txn :: "'db exec \<Rightarrow> uuid \<Rightarrow> txn res" where
  "exec_txn ex u = txn_at (ex_table ex) u"

definition upd_txn :: "'db exec \<Rightarrow> uuid \<Rightarrow> (txn \<Rightarrow> txn) \<Rightarrow> 'db exec res" where
  "upd_txn ex u f = rbind (exec_txn ex u) (\<lambda>t. Inr (ex\<lparr>ex_table := put_txn (ex_table ex) u (f t)\<rparr>))"

subsection \<open>Releasing the locks of a transaction\<close>

definition get_txn_lock_spans :: "lock_table \<Rightarrow> uuid \<Rightarrow> key list res" where
  "get_txn_lock_spans lt u = rbind (txn_at lt u) (\<lambda>t. Inr (lock_spans t))"

fun update_keys :: "lock_table \<Rightarrow> key list \<Rightarrow> update_lock \<Rightarrow> lock_table run" where
  "update_keys lt [] ul = Some (Inr lt)"
| "update_keys lt (k # ks) ul = run_bind (update_locks lt k ul) (\<lambda>(_, lt'). update_keys lt' ks ul)"

definition update_txn_locks :: "lock_table \<Rightarrow> uuid \<Rightarrow> update_lock \<Rightarrow> lock_table run" where
  "update_txn_locks lt u ul = run_bind (Some (get_txn_lock_spans lt u)) (\<lambda>keys. update_keys lt keys ul)"

subsection \<open>The executor's helpers\<close>

fun resolve_keys :: "'db env \<Rightarrow> 'db \<Rightarrow> timestamp \<Rightarrow> uuid \<Rightarrow> key list \<Rightarrow> 'db res" where
  "resolve_keys env d ts tid [] = Inr d"
| "resolve_keys env d ts tid (k # ks) =
     rbind (mvcc_resolve_intent env d k ts tid) (\<lambda>d'. resolve_keys env d' ts tid ks)"

definition resolve_intents_for_txn :: "'db env \<Rightarrow> 'db exec \<Rightarrow> uuid \<Rightarrow> 'db exec res" where
  "resolve_intents_for_txn env ex u =
     rbind (exec_txn ex u) (\<lambda>t.
     rbind (resolve_keys env (ex_store ex) (write_timestamp t) (txn_id t) (lock_spans t)) (\<lambda>d.
       Inr (put_store ex d)))"

fun refresh_keys ::
  "'db env \<Rightarrow> 'db \<Rightarrow> uuid \<Rightarrow> uuid \<Rightarrow> timestamp \<Rightarrow> timestamp \<Rightarrow> key list \<Rightarrow> bool res" where
  "refresh_keys env d u tid from_timestamp to_timestamp [] = Inr True"
| "refresh_keys env d u tid from_timestamp to_timestamp (k # ks) =
     rbind (mvcc_get env d k to_timestamp (Some u)) (\<lambda>r.
       if (case get_value r of Some (mk, _) \<Rightarrow> mtimestamp mk < from_timestamp | None \<Rightarrow> False) then Inr False
       else if (case get_intent r of
                  Some (intent, _) \<Rightarrow>
                    meta_txn_id (txn_meta intent) \<noteq> tid \<and> meta_write_timestamp (txn_meta intent) < to_timestamp
                | None \<Rightarrow> False) then Inr False
       else refresh_keys env d u tid from_timestamp to_timestamp ks)"

definition refresh_read_timestamp :: "'db env \<Rightarrow> 'db exec \<Rightarrow> uuid \<Rightarrow> (bool \<times> 'db exec) res" where
  "refresh_read_timestamp env ex u =
     rbind (exec_txn ex u) (\<lambda>t.
       let to_timestamp = write_timestamp t; from_timestamp = read_timestamp t in
       rbind (refresh_keys env (ex_store ex) u (txn_id t) from_timestamp to_timestamp (read_set t)) (\<lambda>ok.
         if ok then rbind (upd_txn ex u (\<lambda>t. t\<lparr>write_timestamp := to_timestamp\<rparr>)) (\<lambda>ex'. Inr (True, ex'))
         else Inr (False, ex)))"

definition handle_write_intent_error :: "'db env \<Rightarrow> 'db exec \<Rightarrow> txn_intent \<Rightarrow> 'db exec res" where
  "handle_write_intent_error env ex intent =
     rbind (get_transaction_record env (ex_store ex) (meta_txn_id (txn_meta intent))) (\<lambda>r.
       case r of
         Some txn_record \<Rightarrow>
           (case rec_status txn_record of
              ABORTED \<Rightarrow> rbind (mvcc_delete env (ex_store ex) (create_intent_key (intent_key intent))) (\<lambda>d. Inr (put_store ex d))
            | _ \<Rightarrow> Inr ex)
       | None \<Rightarrow> Inr ex)"

subsection \<open>Commands\<close>

definition begin_execute :: "'db env \<Rightarrow> 'db exec \<Rightarrow> uuid \<Rightarrow> uuid \<Rightarrow> (response_result \<times> 'db exec) res" where
  "begin_execute env ex u tid =
     rbind (exec_txn ex u) (\<lambda>t.
     rbind (create_pending_transaction_record env (ex_store ex) tid (write_timestamp t)) (\<lambda>d.
       Inr (Inr BeginTxnResponse, put_store ex d)))"

fun delete_intents :: "'db env \<Rightarrow> 'db \<Rightarrow> key list \<Rightarrow> 'db res" where
  "delete_intents env d [] = Inr d"
| "delete_intents env d (k # ks) = rbind (mvcc_delete env d (create_intent_key k)) (\<lambda>d'. delete_intents env d' ks)"

definition is_status :: "txn_record option \<Rightarrow> transaction_status \<Rightarrow> bool" where
  "is_status r st = (case r of Some rec \<Rightarrow> rec_status rec = st | None \<Rightarrow> False)"

definition abort_execute :: "'db env \<Rightarrow> 'db exec \<Rightarrow> uuid \<Rightarrow> (response_result \<times> 'db exec) run" where
  "abort_execute env ex u =
     run_bind (Some (exec_txn ex u)) (\<lambda>t.
     run_bind (Some (get_transaction_record env (ex_store ex) (txn_id t))) (\<lambda>r.
       if is_status r COMMITTED then Some (Inr (Inr AbortTxnResponse, ex))
       else
         run_bind (Some (update_transaction_record_to_abort env (ex_store ex) (txn_id t) (write_timestamp t))) (\<lambda>d1.
         run_bind (Some (delete_intents env d1 (lock_spans t))) (\<lambda>d2.
         run_bind (update_txn_locks (ex_table ex) u (AbortLock (txn_id t))) (\<lambda>lt.
         run_bind (finalize_txn (ex_waitq ex) (txn_id t)) (\<lambda>q.
           Some (Inr (Inr AbortTxnResponse, ex\<lparr>ex_store := d2, ex_table := lt, ex_waitq := q\<rparr>))))))))"

definition commit_execute :: "'db env \<Rightarrow> 'db exec \<Rightarrow> uuid \<Rightarrow> (response_result \<times> 'db exec) run" where
  "commit_execute env ex u =
     run_bind (Some (exec_txn ex u)) (\<lambda>t.
     run_bind (Some (get_transaction_record env (ex_store ex) (txn_id t))) (\<lambda>r.
       if is_status r ABORTED then
         run_bind (update_txn_locks (ex_table ex) u (AbortLock (txn_id t))) (\<lambda>lt.
           Some (Inr (Inl TxnAbortedError, ex\<lparr>ex_table := lt\<rparr>)))
       else
         run_bind (Some (refresh_read_timestamp env ex u)) (\<lambda>(did_refresh, ex1).
           if \<not> did_refresh then Some (Inr (Inl ReadRefreshError, ex1))
           else
             run_bind (Some (commit_transaction_record env (ex_store ex1) (txn_id t) (write_timestamp t))) (\<lambda>d.
             run_bind (Some (resolve_intents_for_txn env (put_store ex1 d) u)) (\<lambda>ex2.
             run_bind (update_txn_locks (ex_table ex2) u (CommitLock (txn_id t) (write_timestamp t))) (\<lambda>lt.
             run_bind (finalize_txn (ex_waitq ex2) (txn_id t)) (\<lambda>q.
               Some (Inr (Inr (CommitTxnResponse (write_timestamp t)), ex2\<lparr>ex_table := lt, ex_waitq := q\<rparr>)))))))))"

definition get_execute :: "'db env \<Rightarrow> 'db exec \<Rightarrow> uuid \<Rightarrow> key \<Rightarrow> (response_result \<times> 'db exec) res" where
  "get_execute env ex u k =
     rbind (exec_txn ex u) (\<lambda>t.
     rbind (mvcc_get env (ex_store ex) k (read_timestamp t) (Some u)) (\<lambda>r.
       let respond = (\<lambda>value. rbind (upd_txn ex u (\<lambda>t. append_read_sets t k)) (\<lambda>ex'. Inr (Inr (GetResponse value), ex'))) in
       case get_intent r of
         Some (intent, v) \<Rightarrow>
           if txn_id t = meta_txn_id (txn_meta intent) then respond (Some (create_intent_key k, v))
           else if meta_write_timestamp (txn_meta intent) \<le> read_timestamp t then Inr (Inl (WriteIntentErr intent), ex)
           else respond (get_value r)
       | None \<Rightarrow> respond (get_value r)))"

definition put_execute :: "'db env \<Rightarrow> 'db exec \<Rightarrow> uuid \<Rightarrow> key \<Rightarrow> val \<Rightarrow> (response_result \<times> 'db exec) res" where
  "put_execute env ex u k v =
     rbind (exec_txn ex u) (\<lambda>t.
     rbind (mvcc_put_raw env (ex_store ex) k None (Some t) v) (\<lambda>r.
       case r of
         Inr (_, d) \<Rightarrow>
           rbind (acquire_lock (ex_table ex) k u) (\<lambda>lt.
           rbind (upd_txn (ex\<lparr>ex_store := d, ex_table := lt\<rparr>) u (\<lambda>t. append_lock_span t k)) (\<lambda>ex'.
             Inr (Inr PutResponse, ex')))
       | Inl err \<Rightarrow> Inr (Inl (WriteIntentErr (err_intent err)), ex)))"

definition execute :: "'db env \<Rightarrow> 'db exec \<Rightarrow> request \<Rightarrow> (response_result \<times> 'db exec) run" where
  "execute env ex req =
     (case request_body req of
        BeginTxn tid \<Rightarrow> Some (begin_execute env ex (request_txn req) tid)
      | CommitTxn \<Rightarrow> commit_execute env ex (request_txn req)
      | AbortTxn \<Rightarrow> abort_execute env ex (request_txn req)
      | Get k \<Rightarrow> Some (get_execute env ex (request_txn req) k)
      | Put k v \<Rightarrow> Some (put_execute env ex (request_txn req) k v))"

subsection \<open>One attempt at a request\<close>

fun span_timestamps :: "timestamp_oracle \<Rightarrow> span_set \<Rightarrow> timestamp list run" where
  "span_timestamps g [] = Some (Inr [])"
| "span_timestamps g (sp # spans) =
     run_bind (get_max_timestamp g (range_start sp) (range_end sp)) (\<lambda>r.
     run_bind (span_timestamps g spans) (\<lambda>ts.
       Some (Inr (case r of Some (t, _) \<Rightarrow> t # ts | None \<Rightarrow> ts))))"

definition execute_write_request :: "'db env \<Rightarrow> 'db exec \<Rightarrow> request \<Rightarrow> (response_result \<times> 'db exec) run" where
  "execute_write_request env ex req =
     run_bind (Some (exec_txn ex (request_txn req))) (\<lambda>t.
     run_bind (span_timestamps (ex_oracle ex) (collect_spans (request_body req) t)) (\<lambda>timestamps.
     run_bind (Some (if timestamps = [] then Inr ex
       else let max_timestamp = Max (set timestamps) in
         if write_timestamp t < max_timestamp
         then upd_txn ex (request_txn req) (\<lambda>t. t\<lparr>write_timestamp := max_timestamp\<rparr>) else Inr ex)) (\<lambda>ex'.
       execute env ex' req)))"

definition execute_read_only_request :: "'db env \<Rightarrow> 'db exec \<Rightarrow> request \<Rightarrow> (response_result \<times> 'db exec) run" where
  "execute_read_only_request env ex req =
     run_bind (execute env ex req) (\<lambda>(r, ex').
     run_bind (update_cache (lt_txns (ex_table ex')) (ex_oracle ex') req) (\<lambda>g.
       Some (Inr (r, ex'\<lparr>ex_oracle := g\<rparr>))))"

subsection \<open>Sequencing and retries\<close>

text \<open>
  \<open>sequence_req\<close>: scan, and wait as long as the scan says so. Waiting suspends the task while
  others run: for each turn of the loop the argument gives the identifier of its guard, and the
  result of its \<open>wait_for\<close> with the state when it returned. The latches that the task holds around the
  scan are in the theory \<open>Concurrency\<close>.
\<close>

datatype sequence_req_error = SeqTxnAborted | SeqTxnCommitted

type_synonym 'db wait_turn = "uuid \<times> (wait_for_guard_error + unit) \<times> 'db exec"

fun sequence_req :: "'db exec \<Rightarrow> 'db wait_turn list \<Rightarrow> request \<Rightarrow> ((sequence_req_error + uuid) \<times> 'db exec) run" where
  "sequence_req ex [] req = None"
| "sequence_req ex ((g, wait_res, ex_after) # turns) req =
     run_bind (scan_and_enqueue (ex_table ex) g req) (\<lambda>(should_wait, guard, lt).
       if should_wait then
         (case wait_res of
            Inl TxnAborted \<Rightarrow> Some (Inr (Inl SeqTxnAborted, ex_after))
          | Inl TxnCommitted \<Rightarrow> Some (Inr (Inl SeqTxnCommitted, ex_after))
          | Inr _ \<Rightarrow> sequence_req ex_after turns req)
       else Some (Inr (Inr guard, ex\<lparr>ex_table := lt\<rparr>)))"

definition finish_req :: "'db exec \<Rightarrow> uuid \<Rightarrow> 'db exec run" where
  "finish_req ex g = run_bind (dequeue (ex_table ex) g) (\<lambda>lt. Some (Inr (ex\<lparr>ex_table := lt\<rparr>)))"

text \<open>The loop of \<open>execute_request_with_concurrency_retries\<close>, with the waits of each of its turns.\<close>

fun execute_request_with_concurrency_retries ::
  "'db env \<Rightarrow> 'db exec \<Rightarrow> 'db wait_turn list list \<Rightarrow> request \<Rightarrow> ((execute_error + response_union) \<times> 'db exec) run" where
  "execute_request_with_concurrency_retries env ex [] req = None"
| "execute_request_with_concurrency_retries env ex (turns # retries) req =
     run_bind (sequence_req ex turns req) (\<lambda>(guard_res, ex1).
       case guard_res of
         Inl SeqTxnAborted \<Rightarrow> Some (Inr (Inl ExecTxnAborted, ex1))
       | Inl SeqTxnCommitted \<Rightarrow> Some (Inr (Inl ExecTxnCommitted, ex1))
       | Inr guard \<Rightarrow>
           run_bind (if is_read_only (request_body req) then execute_read_only_request env ex1 req
                     else execute_write_request env ex1 req) (\<lambda>(result, ex2).
           run_bind (finish_req ex2 guard) (\<lambda>ex3.
             case result of
               Inr resp \<Rightarrow> Some (Inr (Inr resp, ex3))
             | Inl (WriteIntentErr intent) \<Rightarrow>
                 run_bind (Some (handle_write_intent_error env ex3 intent)) (\<lambda>ex4.
                   execute_request_with_concurrency_retries env ex4 retries req)
             | Inl ReadRefreshError \<Rightarrow> Some (Inr (Inl ReadRefreshFailure, ex3))
             | Inl TxnAbortedError \<Rightarrow> Some (Inr (Inl ExecTxnAborted, ex3)))))"

end
