(* ===== verification/Executor_Effects.thy ===== *)
theory Executor_Effects
  imports Executor
begin

text \<open>
  What the loops of the executor do to the store, the lock table and the wait queue: removing and
  resolving the intents of a transaction, and releasing its locks.
\<close>

subsection \<open>The store\<close>

lemma delete_intents_ok:
  assumes "platform_ok env live contents" "db_is env live contents d vm rm" "\<forall>k \<in> set ks. valid_utf8 k"
  shows "\<exists>d'. delete_intents env d ks = Inr d' \<and>
    db_is env live contents d' (\<lambda>m. if m \<in> create_intent_key ` set ks then None else vm m) rm"
  using assms(2,3)
proof (induction ks arbitrary: d vm)
  case (Cons k ks)
  obtain d1 where d1: "delete_mvcc env d (create_intent_key k) = Inr d1"
    "db_is env live contents d1 (vm(create_intent_key k := None)) rm"
    by (rule delete_mvcc_ok[OF assms(1) Cons.prems(1) intent_to_string]) (use Cons.prems(2) in auto)
  obtain d2 where d2: "delete_intents env d1 ks = Inr d2"
    "db_is env live contents d2 (\<lambda>m. if m \<in> create_intent_key ` set ks then None else (vm(create_intent_key k := None)) m) rm"
    using Cons.IH[OF d1(2)] Cons.prems(2) by auto
  have "(\<lambda>m. if m \<in> create_intent_key ` set ks then None else (vm(create_intent_key k := None)) m) =
      (\<lambda>m. if m \<in> create_intent_key ` set (k # ks) then None else vm m)" by auto
  with d1(1) d2 show ?case by (simp add: mvcc_delete_def)
qed simp

text \<open>The intents of a transaction: the value it wrote to each of the keys.\<close>

definition own_intents ::
  "'db env \<Rightarrow> (mvcc_key \<rightharpoonup> bytes) \<Rightarrow> uuid \<Rightarrow> key list \<Rightarrow> (key \<Rightarrow> val) \<Rightarrow> bool" where
  "own_intents env vm tid ks val \<longleftrightarrow>
     (\<forall>k \<in> set ks. \<exists>b md. vm (create_intent_key k) = Some b \<and>
        de_uncommitted env b = Inr (UncommittedValue (val k) md) \<and> meta_txn_id md = tid)"

definition resolved :: "(mvcc_key \<rightharpoonup> bytes) \<Rightarrow> timestamp \<Rightarrow> key list \<Rightarrow> (key \<Rightarrow> val) \<Rightarrow> mvcc_key \<rightharpoonup> bytes" where
  "resolved vm c ks val m =
     (if mkey m \<in> set ks \<and> mtimestamp m = c then Some (val (mkey m))
      else if mkey m \<in> set ks \<and> is_intent_key m then None else vm m)"

lemma create_intent_key_inj [simp]: "create_intent_key k = create_intent_key k' \<longleftrightarrow> k = k'"
  by (simp add: create_intent_key_def)

lemma resolve_keys_ok:
  assumes "platform_ok env live contents" "db_is env live contents d vm rm"
    "\<forall>k \<in> set ks. valid_utf8 k" "valid_utf8 (encode_timestamp c)" "\<not> is_intent_timestamp c" "distinct ks"
    "own_intents env vm tid ks val"
  shows "\<exists>d'. resolve_keys env d c tid ks = Inr d' \<and> db_is env live contents d' (resolved vm c ks val) rm"
  using assms(2,3,6,7)
proof (induction ks arbitrary: d vm)
  case Nil
  then show ?case by (simp add: resolved_def[abs_def])
next
  case (Cons k ks)
  obtain b md where b: "vm (create_intent_key k) = Some b" "de_uncommitted env b = Inr (UncommittedValue (val k) md)"
    and tid: "meta_txn_id md = tid" using Cons.prems(4) by (auto simp: own_intents_def)
  let ?vm = "vm(create_intent_key k := None, MVCCKey k c \<mapsto> val k)"
  obtain d1 where d1: "mvcc_resolve_intent env d k c tid = Inr d1" "db_is env live contents d1 ?vm rm"
    using resolve_intent_own[OF assms(1) Cons.prems(1) _ assms(4) b] Cons.prems(2) tid by auto
  have "own_intents env ?vm tid ks val"
    using Cons.prems(3,4) assms(5)
    by (auto simp: own_intents_def create_intent_key_def is_intent_timestamp_iff)
  note own = this
  have "\<forall>k \<in> set ks. valid_utf8 k" "distinct ks" using Cons.prems(2,3) by auto
  from Cons.IH[OF d1(2) this own]
  have "\<exists>d2. resolve_keys env d1 c tid ks = Inr d2 \<and> db_is env live contents d2 (resolved ?vm c ks val) rm" .
  then obtain d2 where d2: "resolve_keys env d1 c tid ks = Inr d2" "db_is env live contents d2 (resolved ?vm c ks val) rm"
    by blast
  have "resolved ?vm c ks val m = resolved vm c (k # ks) val m" for m
    using Cons.prems(3) assms(5)
    by (cases m) (auto simp: resolved_def create_intent_key_def is_intent_key_def is_intent_timestamp_iff)
  then have "resolved ?vm c ks val = resolved vm c (k # ks) val" by (rule ext)
  with d1(1) d2 show ?case by simp
qed

subsection \<open>The locks\<close>

text \<open>Every key's lock is held by the transaction that is about to release it.\<close>

definition holds_locks :: "lock_table \<Rightarrow> update_lock \<Rightarrow> key list \<Rightarrow> bool" where
  "holds_locks lt ul ks \<longleftrightarrow>
     (\<forall>k \<in> set ks. \<exists>st. locks lt k = Some st \<and> get_holder_txn_id st = Some (update_lock_txn ul) \<and> commit_ok (commit_of st ul))"

lemma update_locks_returns:
  assumes inv: "lock_inv lt" and st: "locks lt k = Some st" "get_holder_txn_id st = Some (update_lock_txn ul)"
    and ts: "commit_ok (commit_of st ul)"
  obtains b lt' st' where "update_locks lt k ul = Some (Inr (b, lt'))" "lock_inv lt'" "locks lt' k = Some st'" "lock_holder st' = None"
proof -
  let ?st = "st\<lparr>lock_holder := None, last_committed_timestamp := commit_of st ul\<rparr>"
  obtain lt1 where lt1: "update_locks lt k ul = lock_is_free lt1 k" "lock_inv lt1" "locks lt1 k = Some ?st" "reservation st = None"
    using update_locks_by_holder[OF inv st] by blast
  obtain lt' st' where "lock_is_free lt1 k = Some (Inr (queued_writers st = [], lt'))" "lock_inv lt'"
    "locks lt' k = Some st'" "lock_holder st' = None"
    by (rule lock_is_free_passes[OF lt1(2,3)]) (use lt1(4) ts in auto)
  with lt1(1) show ?thesis using that by simp
qed

lemma update_keys_ok:
  assumes "lock_inv lt" "distinct ks" "holds_locks lt ul ks"
  shows "\<exists>lt'. update_keys lt ks ul = Some (Inr lt') \<and> lock_inv lt' \<and> extends (set ks) lt lt' \<and>
    (\<forall>k \<in> set ks. \<exists>st. locks lt' k = Some st \<and> lock_holder st = None)"
  using assms
proof (induction ks arbitrary: lt)
  case (Cons k ks)
  then obtain st where st: "locks lt k = Some st" "get_holder_txn_id st = Some (update_lock_txn ul)" "commit_ok (commit_of st ul)"
    by (auto simp: holds_locks_def)
  obtain b lt1 st1 where upd: "update_locks lt k ul = Some (Inr (b, lt1))" and lt1: "lock_inv lt1" "locks lt1 k = Some st1" "lock_holder st1 = None"
    by (rule update_locks_returns[OF Cons.prems(1) st])
  have ext: "extends {k} lt lt1" by (rule extends_update_locks[OF upd])
  then have "holds_locks lt1 ul ks"
    using Cons.prems(2,3) by (auto simp: holds_locks_def extends_def)
  then obtain lt2 where lt2: "update_keys lt1 ks ul = Some (Inr lt2)" "lock_inv lt2" "extends (set ks) lt1 lt2"
    "\<forall>k \<in> set ks. \<exists>st. locks lt2 k = Some st \<and> lock_holder st = None"
    using Cons.IH[OF lt1(1)] Cons.prems(2) by auto
  have "locks lt2 k = Some st1" using lt2(3) lt1(2) Cons.prems(2) by (auto simp: extends_def)
  with upd lt1 lt2 extends_trans[OF ext lt2(3)] show ?case by auto
qed simp

text \<open>What a released lock becomes for those who waited at it.\<close>

definition told :: "lock_table \<Rightarrow> uuid \<Rightarrow> bool" where
  "told lt g \<longleftrightarrow> (\<exists>gd. lt_guards lt g = Some gd \<and> wait_done gd = 1 \<and> wait_state gd = DoneWaiting)"

definition handed_over :: "lock_state \<Rightarrow> lock_table \<Rightarrow> key \<Rightarrow> bool" where
  "handed_over st lt' k \<longleftrightarrow>
     (\<exists>st'. locks lt' k = Some st' \<and> lock_holder st' = None \<and> waiting_readers st' = [] \<and>
        queued_writers st' = tl (queued_writers st) \<and>
        reservation st' = (case queued_writers st of [] \<Rightarrow> None | w # _ \<Rightarrow> Some w)) \<and>
     (\<forall>g \<in> set (waiting_readers st @ take 1 (queued_writers st)). told lt' g)"

lemma update_locks_hands:
  assumes inv: "lock_inv lt" and st: "locks lt k = Some st" "get_holder_txn_id st = Some (update_lock_txn ul)"
    and ts: "commit_ok (commit_of st ul)" and upd: "update_locks lt k ul = Some (Inr (b, lt'))"
  shows "handed_over st lt' k" "told lt g \<Longrightarrow> told lt' g"
proof -
  let ?st = "st\<lparr>lock_holder := None, last_committed_timestamp := commit_of st ul\<rparr>"
  obtain lt1 where lt1: "update_locks lt k ul = lock_is_free lt1 k" "lock_inv lt1" "lt_guards lt1 = lt_guards lt" "locks lt1 k = Some ?st"
    "reservation st = None"
    using update_locks_by_holder[OF inv st] by blast
  obtain lt2 st' where free: "lock_is_free lt1 k = Some (Inr (queued_writers ?st = [], lt2))"
    "locks lt2 k = Some st'" "lock_holder st' = None" "waiting_readers st' = []"
    "reservation st' = (case queued_writers ?st of [] \<Rightarrow> None | w # ws \<Rightarrow> Some w)" "queued_writers st' = tl (queued_writers ?st)"
    "lt_guards lt2 = released (lt_guards lt1) (waiting_readers ?st @ take 1 (queued_writers ?st))"
    by (rule lock_is_free_passes[OF lt1(2,4)]) (use lt1(5) ts in auto)
  have lt2: "lt2 = lt'" using free(1) lt1(1) upd by simp
  have "told lt' g" if g: "g \<in> set (waiting_readers st @ take 1 (queued_writers st))" for g
  proof -
    have "g \<in> set (queue st)" using g by (auto simp: queue_def dest: in_set_takeD)
    then obtain gd where "lt_guards lt g = Some gd" using lock_inv_queue(2)[OF inv st(1)] by blast
    with g free(7) lt1(3) lt2 show ?thesis by (simp add: told_def released_def)
  qed
  with free lt2 show "handed_over st lt' k" by (auto simp: handed_over_def)
  show "told lt' g" if "told lt g" using that free(7) lt1(3) lt2 by (auto simp: told_def released_def)
qed

lemma update_keys_hands:
  assumes "lock_inv lt" "distinct ks" "holds_locks lt ul ks" "update_keys lt ks ul = Some (Inr lt')"
  shows "(\<forall>k \<in> set ks. \<forall>st. locks lt k = Some st \<longrightarrow> handed_over st lt' k) \<and> (\<forall>g. told lt g \<longrightarrow> told lt' g)"
  using assms
proof (induction ks arbitrary: lt)
  case (Cons k ks)
  then obtain st where st: "locks lt k = Some st" "get_holder_txn_id st = Some (update_lock_txn ul)" "commit_ok (commit_of st ul)"
    by (auto simp: holds_locks_def)
  obtain b lt1 where lt1: "update_locks lt k ul = Some (Inr (b, lt1))" "update_keys lt1 ks ul = Some (Inr lt')"
    using Cons.prems(4) by (auto simp: run_bind_eq_Inr)
  note hands = update_locks_hands[OF Cons.prems(1) st lt1(1)]
  have ext: "extends {k} lt lt1" by (rule extends_update_locks[OF lt1(1)])
  then have hold: "holds_locks lt1 ul ks" using Cons.prems(2,3) by (auto simp: holds_locks_def extends_def)
  have inv1: "lock_inv lt1" using update_locks_inv(2)[OF Cons.prems(1) lt1(1)] .
  have dist: "distinct ks" "k \<notin> set ks" using Cons.prems(2) by simp_all
  have ih: "\<forall>k \<in> set ks. \<forall>st. locks lt1 k = Some st \<longrightarrow> handed_over st lt' k" "\<forall>g. told lt1 g \<longrightarrow> told lt' g"
    using Cons.IH[OF inv1 dist(1) hold lt1(2)] by blast+
  have "extends (set ks) lt1 lt'" using update_keys_ok[OF inv1 dist(1) hold] lt1(2) by auto
  then have "locks lt' k = locks lt1 k" using dist(2) by (simp add: extends_def)
  with hands(1) ih(2) have "handed_over st lt' k" by (auto simp: handed_over_def)
  moreover have "locks lt1 k' = locks lt k'" if "k' \<in> set ks" for k' using ext that dist(2) by (auto simp: extends_def)
  ultimately show ?case using ih hands(2) st(1) by auto
qed simp

subsection \<open>A transaction in flight\<close>

text \<open>
  The link between the components that the executor maintains for a running transaction: on
  every key of its lock spans it has an intent in the store and holds the lock in the table.
\<close>

definition in_flight ::
  "'db env \<Rightarrow> ('db \<Rightarrow> bool) \<Rightarrow> ('db \<Rightarrow> string \<Rightarrow> (bytes \<times> bytes) list) \<Rightarrow> 'db exec \<Rightarrow>
   (mvcc_key \<rightharpoonup> bytes) \<Rightarrow> (uuid \<rightharpoonup> bytes) \<Rightarrow> uuid \<Rightarrow> txn \<Rightarrow> (key \<Rightarrow> val) \<Rightarrow> bool" where
  "in_flight env live contents ex vm rm u t val \<longleftrightarrow>
     db_is env live contents (ex_store ex) vm rm \<and> records_decode env rm \<and>
     table_inv (ex_table ex) \<and> wait_inv (ex_waitq ex) \<and> lt_txns (ex_table ex) u = Some t \<and>
     distinct (lock_spans t) \<and> (\<forall>k \<in> set (lock_spans t). valid_utf8 k) \<and> own_intents env vm u (lock_spans t) val \<and>
     (\<forall>k \<in> set (lock_spans t). \<exists>st. locks (ex_table ex) k = Some st \<and> get_holder_txn_id st = Some u)"

lemma in_flightD:
  assumes "in_flight env live contents ex vm rm u t val"
  shows "db_is env live contents (ex_store ex) vm rm" "records_decode env rm" "table_inv (ex_table ex)"
    "lock_inv (ex_table ex)" "wait_inv (ex_waitq ex)" "lt_txns (ex_table ex) u = Some t" "txn_id t = u"
    "exec_txn ex u = Inr t" "distinct (lock_spans t)" "\<forall>k \<in> set (lock_spans t). valid_utf8 k"
    "own_intents env vm u (lock_spans t) val"
  using assms by (simp_all add: in_flight_def table_inv_def txn_ids_ok_def exec_txn_def txn_at_def)

lemma in_flight_holds_locks:
  assumes "in_flight env live contents ex vm rm u t val" "update_lock_txn ul = u"
    "\<And>k st. k \<in> set (lock_spans t) \<Longrightarrow> locks (ex_table ex) k = Some st \<Longrightarrow> commit_ok (commit_of st ul)"
  shows "holds_locks (ex_table ex) ul (lock_spans t)"
  using assms unfolding in_flight_def holds_locks_def by blast

lemma update_txn_locks_ok:
  assumes "in_flight env live contents ex vm rm u t val" "update_lock_txn ul = u"
    "\<And>k st. k \<in> set (lock_spans t) \<Longrightarrow> locks (ex_table ex) k = Some st \<Longrightarrow> commit_ok (commit_of st ul)"
  obtains lt' where "update_txn_locks (ex_table ex) u ul = Some (Inr lt')" "lock_inv lt'"
    "extends (set (lock_spans t)) (ex_table ex) lt'"
    "\<forall>k \<in> set (lock_spans t). \<exists>st. locks lt' k = Some st \<and> lock_holder st = None"
proof -
  note fl = in_flightD[OF assms(1)]
  have "holds_locks (ex_table ex) ul (lock_spans t)"
    by (rule in_flight_holds_locks[OF assms(1,2)]) (rule assms(3))
  from update_keys_ok[OF fl(4,9) this]
  show ?thesis using that fl(6) by (auto simp: update_txn_locks_def get_txn_lock_spans_def txn_at_def)
qed

lemma update_txn_locks_hands:
  assumes "in_flight env live contents ex vm rm u t val" "update_lock_txn ul = u"
    "\<And>k st. k \<in> set (lock_spans t) \<Longrightarrow> locks (ex_table ex) k = Some st \<Longrightarrow> commit_ok (commit_of st ul)"
    "update_txn_locks (ex_table ex) u ul = Some (Inr lt')" "k \<in> set (lock_spans t)" "locks (ex_table ex) k = Some st"
  shows "handed_over st lt' k"
proof -
  note fl = in_flightD[OF assms(1)]
  have "holds_locks (ex_table ex) ul (lock_spans t)"
    by (rule in_flight_holds_locks[OF assms(1,2)]) (rule assms(3))
  moreover have "update_keys (ex_table ex) (lock_spans t) ul = Some (Inr lt')"
    using assms(4) fl(6) by (simp add: update_txn_locks_def get_txn_lock_spans_def txn_at_def)
  ultimately show ?thesis using update_keys_hands[OF fl(4,9)] assms(5,6) by blast
qed

lemma finalize_releases:
  assumes "wait_inv q"
  shows "\<exists>q'. finalize_txn q u = Some (Inr q') \<and> wait_inv q' \<and> pushees q' u = None \<and>
    (\<forall>i \<in> set (pending_ids q u). push_messages (waiting_pushes q' ! i) = 1)"
  by (rule finalize_txn_ok[OF assms, of u]) auto

lemma put_txn_same: "lt_txns lt u = Some t \<Longrightarrow> put_txn lt u t = lt"
  by (simp add: put_txn_def fun_upd_idem)

lemma abort_effect:
  assumes plat: "platform_ok env live contents" and fl: "in_flight env live contents ex vm rm u t val"
    and status: "\<not> is_status (record_map env rm u) COMMITTED"
    and ts: "\<And>k st. k \<in> set (lock_spans t) \<Longrightarrow> locks (ex_table ex) k = Some st \<Longrightarrow> commit_ok (last_committed_timestamp st)"
  obtains ex' rm' where "abort_execute env ex u = Some (Inr (Inr AbortTxnResponse, ex'))"
    "db_is env live contents (ex_store ex') (\<lambda>m. if m \<in> create_intent_key ` set (lock_spans t) then None else vm m) rm'"
    "record_map env rm' = (record_map env rm)(u \<mapsto> TxnRecord ABORTED (TxnMetadata u (write_timestamp t)))"
    "lock_inv (ex_table ex')" "\<forall>k \<in> set (lock_spans t). \<exists>st. locks (ex_table ex') k = Some st \<and> lock_holder st = None"
    "wait_inv (ex_waitq ex')" "pushees (ex_waitq ex') u = None"
    "\<forall>i \<in> set (pending_ids (ex_waitq ex) u). push_messages (waiting_pushes (ex_waitq ex') ! i) = 1"
    "update_txn_locks (ex_table ex) u (AbortLock u) = Some (Inr (ex_table ex'))" "ex_oracle ex' = ex_oracle ex" "records_decode env rm'"
proof -
  note f = in_flightD[OF fl]
  have rec: "get_transaction_record env (ex_store ex) u = Inr (record_map env rm u)"
    by (rule get_transaction_record_map[OF plat f(1,2)])
  obtain d1 rm' where d1: "update_transaction_record_to_abort env (ex_store ex) u (write_timestamp t) = Inr d1"
    "db_is env live contents d1 vm rm'" "records_decode env rm'"
    "record_map env rm' = (record_map env rm)(u \<mapsto> TxnRecord ABORTED (TxnMetadata u (write_timestamp t)))"
    unfolding update_transaction_record_to_abort_def by (rule put_transaction_record_map[OF plat f(1,2)])
  obtain d2 where d2: "delete_intents env d1 (lock_spans t) = Inr d2"
    "db_is env live contents d2 (\<lambda>m. if m \<in> create_intent_key ` set (lock_spans t) then None else vm m) rm'"
    using delete_intents_ok[OF plat d1(2) f(10)] by blast
  obtain lt' where lt': "update_txn_locks (ex_table ex) u (AbortLock u) = Some (Inr lt')" "lock_inv lt'"
    "\<forall>k \<in> set (lock_spans t). \<exists>st. locks lt' k = Some st \<and> lock_holder st = None"
    by (rule update_txn_locks_ok[OF fl, of "AbortLock u"]) (use ts in \<open>simp_all add: update_lock_txn_def commit_of_def\<close>)
  obtain q' where q': "finalize_txn (ex_waitq ex) u = Some (Inr q')" "wait_inv q'" "pushees q' u = None"
    "\<forall>i \<in> set (pending_ids (ex_waitq ex) u). push_messages (waiting_pushes q' ! i) = 1"
    using finalize_releases[OF f(5), of u] by blast
  let ?ex = "ex\<lparr>ex_store := d2, ex_table := lt', ex_waitq := q'\<rparr>"
  have "abort_execute env ex u = Some (Inr (Inr AbortTxnResponse, ?ex))"
    using f(7,8) rec status d1(1) d2(1) lt'(1) q'(1) by (simp add: abort_execute_def)
  from that[OF this] d1(3,4) d2(2) lt'(1-3) q'(2-4) show ?thesis by simp
qed

lemma commit_effect:
  assumes plat: "platform_ok env live contents" and fl: "in_flight env live contents ex vm rm u t val"
    and status: "\<not> is_status (record_map env rm u) ABORTED"
    and refresh: "refresh_keys env (ex_store ex) u u (read_timestamp t) (write_timestamp t) (read_set t) = Inr True"
    and ts: "valid_utf8 (encode_timestamp (write_timestamp t))" "\<not> is_intent_timestamp (write_timestamp t)"
      "commit_ok (Some (write_timestamp t))"
  obtains ex' rm' where "commit_execute env ex u = Some (Inr (Inr (CommitTxnResponse (write_timestamp t)), ex'))"
    "db_is env live contents (ex_store ex') (resolved vm (write_timestamp t) (lock_spans t) val) rm'"
    "record_map env rm' = (record_map env rm)(u \<mapsto> TxnRecord COMMITTED (TxnMetadata u (write_timestamp t)))"
    "lock_inv (ex_table ex')" "\<forall>k \<in> set (lock_spans t). \<exists>st. locks (ex_table ex') k = Some st \<and> lock_holder st = None"
    "wait_inv (ex_waitq ex')" "pushees (ex_waitq ex') u = None"
    "\<forall>i \<in> set (pending_ids (ex_waitq ex) u). push_messages (waiting_pushes (ex_waitq ex') ! i) = 1"
    "update_txn_locks (ex_table ex) u (CommitLock u (write_timestamp t)) = Some (Inr (ex_table ex'))"
    "ex_oracle ex' = ex_oracle ex" "records_decode env rm'"
proof -
  note f = in_flightD[OF fl]
  have rec: "get_transaction_record env (ex_store ex) u = Inr (record_map env rm u)"
    by (rule get_transaction_record_map[OF plat f(1,2)])
  have fresh: "refresh_read_timestamp env ex u = Inr (True, ex)"
    using f(6-8) refresh put_txn_same[OF f(6)] by (simp add: refresh_read_timestamp_def upd_txn_def)
  obtain d1 rm' where d1: "commit_transaction_record env (ex_store ex) u (write_timestamp t) = Inr d1"
    "db_is env live contents d1 vm rm'" "records_decode env rm'"
    "record_map env rm' = (record_map env rm)(u \<mapsto> TxnRecord COMMITTED (TxnMetadata u (write_timestamp t)))"
    unfolding commit_transaction_record_def by (rule put_transaction_record_map[OF plat f(1,2)])
  obtain d2 where d2: "resolve_keys env d1 (write_timestamp t) u (lock_spans t) = Inr d2"
    "db_is env live contents d2 (resolved vm (write_timestamp t) (lock_spans t) val) rm'"
    using resolve_keys_ok[OF plat d1(2) f(10) ts(1,2) f(9,11)] by blast
  have res: "resolve_intents_for_txn env (put_store ex d1) u = Inr (ex\<lparr>ex_store := d2\<rparr>)"
    using f(6,7) d2(1) by (simp add: resolve_intents_for_txn_def put_store_def exec_txn_def txn_at_def)
  obtain lt' where lt': "update_txn_locks (ex_table ex) u (CommitLock u (write_timestamp t)) = Some (Inr lt')" "lock_inv lt'"
    "\<forall>k \<in> set (lock_spans t). \<exists>st. locks lt' k = Some st \<and> lock_holder st = None"
    by (rule update_txn_locks_ok[OF fl, of "CommitLock u (write_timestamp t)"])
      (use ts(3) in \<open>simp_all add: update_lock_txn_def commit_of_def\<close>)
  obtain q' where q': "finalize_txn (ex_waitq ex) u = Some (Inr q')" "wait_inv q'" "pushees q' u = None"
    "\<forall>i \<in> set (pending_ids (ex_waitq ex) u). push_messages (waiting_pushes q' ! i) = 1"
    using finalize_releases[OF f(5), of u] by blast
  let ?ex = "ex\<lparr>ex_store := d2, ex_table := lt', ex_waitq := q'\<rparr>"
  have "commit_execute env ex u = Some (Inr (Inr (CommitTxnResponse (write_timestamp t)), ?ex))"
    using f(7,8) rec status fresh d1(1) res lt'(1) q'(1) by (simp add: commit_execute_def)
  from that[OF this] d1(3,4) d2(2) lt'(1-3) q'(2-4) show ?thesis by simp
qed

subsection \<open>Writing\<close>

text \<open>What acquiring a lock makes of the key's lock state.\<close>

definition acquired :: "(key \<rightharpoonup> lock_state) \<Rightarrow> key \<Rightarrow> uuid \<Rightarrow> lock_state \<Rightarrow> bool" where
  "acquired L k u st \<longleftrightarrow>
     get_holder_txn_id st = Some u \<and> reservation st = None \<and> queue st = queue_at L k \<and>
     last_committed_timestamp st = Option.bind (L k) last_committed_timestamp"

lemma acquire_lock_ok:
  assumes inv: "table_inv lt" and t: "lt_txns lt u = Some t" and own: "owner lt k \<in> {None, Some u}"
  obtains lt' st' where "acquire_lock lt k u = Inr lt'" "table_inv lt'" "lt_txns lt' = lt_txns lt" "lt_guards lt' = lt_guards lt"
    "locks lt' = (locks lt)(k \<mapsto> st')" "acquired (locks lt) k u st'"
proof -
  have tid: "txn_id t = u" using inv t by (auto simp: table_inv_def txn_ids_ok_def)
  have "\<exists>lt' st'. acquire_lock lt k u = Inr lt' \<and> lt_txns lt' = lt_txns lt \<and> lt_guards lt' = lt_guards lt \<and>
      locks lt' = (locks lt)(k \<mapsto> st') \<and> acquired (locks lt) k u st'"
  proof (cases "locks lt k")
    case None
    with t tid show ?thesis
      by (auto simp: acquire_lock_def txn_at_def get_txn_properties_def get_lock_state_def put_lock_def get_holder_txn_id_def
          acquired_def lock_state_new_def queue_def queue_at_def)
  next
    case (Some st)
    let ?r = "Option.bind (reservation st) (\<lambda>h. map_option guard_txn (lt_guards lt h))"
    have "reservation st = None \<or> lock_holder st = None"
      using inv Some by (auto simp: table_inv_def lock_inv_def exclusive_def)
    then have "get_holder_txn_id st \<in> {None, Some u}" "?r \<in> {None, Some u}"
      using own Some by (auto simp: owner_def get_holder_txn_id_def split: option.splits)
    with Some t tid reservation_txn_id(1)[OF inv Some] show ?thesis
      by (auto simp: acquire_lock_def txn_at_def get_txn_properties_def get_lock_state_def update_reservation_def
          update_holder_def upd_lock_def lock_at_def put_lock_def get_holder_txn_id_def acquired_def queue_def)
  qed
  then obtain lt' st' where lt': "acquire_lock lt k u = Inr lt'" "lt_txns lt' = lt_txns lt" "lt_guards lt' = lt_guards lt"
    "locks lt' = (locks lt)(k \<mapsto> st')" "acquired (locks lt) k u st'" by blast
  have "table_inv lt'"
    using inv acquire_lock_inv[OF _ lt'(1)] lt'(2) by (simp add: table_inv_def)
  with lt' that show ?thesis by blast
qed

lemma put_effect:
  assumes plat: "platform_ok env live contents" and fl: "in_flight env live contents ex vm rm u t val"
    and k: "valid_utf8 k" and free: "vm (create_intent_key k) = None \<or> k \<in> set (lock_spans t)"
    and own: "owner (ex_table ex) k \<in> {None, Some u}" and rec: "record_map env rm u \<noteq> None"
  obtains ex' b st where "put_execute env ex u k v = Inr (Inr PutResponse, ex')"
    "in_flight env live contents ex' (vm(create_intent_key k \<mapsto> b)) rm u (append_lock_span t k) (val(k := v))"
    "ex_oracle ex' = ex_oracle ex" "ex_waitq ex' = ex_waitq ex" "lt_guards (ex_table ex') = lt_guards (ex_table ex)"
    "locks (ex_table ex') = (locks (ex_table ex))(k \<mapsto> st)" "acquired (locks (ex_table ex)) k u st"
    "lt_txns (ex_table ex') = (lt_txns (ex_table ex))(u \<mapsto> append_lock_span t k)"
proof -
  note f = in_flightD[OF fl]
  have check: "mvcc_put_check env (ex_store ex) k (Some t) = Inr (Inr ())"
  proof (cases "vm (create_intent_key k)")
    case None
    then show ?thesis by (rule put_check_none[OF plat f(1)])
  next
    case (Some b)
    with free have "k \<in> set (lock_spans t)" by simp
    with f(11) Some obtain md where "de_uncommitted env b = Inr (UncommittedValue (val k) md)" "meta_txn_id md = u"
      by (auto simp: own_intents_def)
    with put_check_some[OF plat f(1,2) Some] rec f(7) show ?thesis by auto
  qed
  obtain d b where d: "mvcc_put_raw env (ex_store ex) k None (Some t) v = Inr (Inr (MVCCKey k (write_timestamp t), d))"
    "db_is env live contents d (vm(create_intent_key k \<mapsto> b)) rm" "de_uncommitted env b = Inr (UncommittedValue v (to_txn_metadata t))"
    by (rule put_txn_writes_intent[OF plat f(1) k check])
  obtain lt st where lt: "acquire_lock (ex_table ex) k u = Inr lt" "table_inv lt" "lt_txns lt = lt_txns (ex_table ex)"
    "lt_guards lt = lt_guards (ex_table ex)" "locks lt = (locks (ex_table ex))(k \<mapsto> st)" "acquired (locks (ex_table ex)) k u st"
    by (rule acquire_lock_ok[OF f(3,6) own])
  let ?t = "append_lock_span t k"
  let ?ex = "ex\<lparr>ex_store := d, ex_table := put_txn lt u ?t\<rparr>"
  have put: "put_execute env ex u k v = Inr (Inr PutResponse, ?ex)"
    using f(6,8) d(1) lt(1,3) by (simp add: put_execute_def upd_txn_def exec_txn_def txn_at_def)
  have tid: "txn_id ?t = u" using f(7) by (simp add: append_lock_span_def)
  have "table_inv (put_txn lt u ?t)"
    using lt(2) put_txn_inv tid by (auto simp: table_inv_def txn_ids_ok_def put_txn_def)
  moreover have "own_intents env (vm(create_intent_key k \<mapsto> b)) u (lock_spans ?t) (val(k := v))"
    using f(7,11) d(3) by (auto simp: own_intents_def set_append_lock_span to_txn_metadata_def)
  moreover have "\<forall>k' \<in> set (lock_spans ?t). \<exists>st. locks (put_txn lt u ?t) k' = Some st \<and> get_holder_txn_id st = Some u"
    using fl lt(5,6) by (auto simp: set_append_lock_span put_txn_def in_flight_def acquired_def)
  ultimately have "in_flight env live contents ?ex (vm(create_intent_key k \<mapsto> b)) rm u ?t (val(k := v))"
    using f(2,5,9,10) d(2) k append_lock_span_distinct[OF f(9)]
    by (auto simp: in_flight_def set_append_lock_span put_txn_def)
  from that[OF put this, of st] lt(3-6) show ?thesis by (simp add: put_txn_def)
qed

text \<open>The timestamp that a write request gives its transaction before it runs.\<close>

lemma write_request_timestamp:
  assumes "intervals (ex_oracle ex) M" "lt_txns (ex_table ex) u = Some t"
  shows "\<exists>ts. execute_write_request env ex \<lparr>request_txn = u, request_body = Put k v\<rparr> =
      execute env (ex\<lparr>ex_table := put_txn (ex_table ex) u (t\<lparr>write_timestamp := ts\<rparr>)\<rparr>)
        \<lparr>request_txn = u, request_body = Put k v\<rparr> \<and>
    write_timestamp t \<le> ts \<and>
    (\<forall>r \<in># M. overlapping k k r \<longrightarrow> ov_timestamp (rv_value r) \<le> ts) \<and>
    (ts = write_timestamp t \<or> (\<exists>r \<in># M. overlapping k k r \<and> ov_timestamp (rv_value r) = ts))"
proof -
  let ?req = "\<lparr>request_txn = u, request_body = Put k v\<rparr>"
  have same: "ex\<lparr>ex_table := put_txn (ex_table ex) u (t\<lparr>write_timestamp := write_timestamp t\<rparr>)\<rparr> = ex"
    using put_txn_same[OF assms(2)] by simp
  obtain mx where mx: "get_max_timestamp (ex_oracle ex) k k = Some (Inr mx)" "max_of (filter_mset (overlapping k k) M) mx"
    using get_max_timestamp_ok[OF assms(1), of k k] by auto
  have run: "execute_write_request env ex ?req =
      run_bind (Some (case mx of None \<Rightarrow> Inr ex
        | Some (m, _) \<Rightarrow> if write_timestamp t < m then upd_txn ex u (\<lambda>t. t\<lparr>write_timestamp := m\<rparr>) else Inr ex))
      (\<lambda>ex'. execute env ex' ?req)"
    using assms(2) mx(1)
    by (auto simp: execute_write_request_def exec_txn_def txn_at_def collect_spans_def point_span_def Let_def split: option.splits)
  show ?thesis
  proof (cases mx)
    case None
    then have none: "filter_mset (overlapping k k) M = {#}" using mx(2) by (simp add: max_of_def)
    have "\<not> overlapping k k r" if "r \<in># M" for r
    proof
      assume "overlapping k k r"
      with that have "r \<in># filter_mset (overlapping k k) M" by simp
      then show False by (simp add: none)
    qed
    with None run same show ?thesis by (intro exI[of _ "write_timestamp t"]) auto
  next
    case (Some p)
    obtain m tid where p: "p = (m, tid)" by (cases p)
    have le: "\<forall>r \<in># M. overlapping k k r \<longrightarrow> ov_timestamp (rv_value r) \<le> m"
      and "filter_mset (\<lambda>r. ov_timestamp (rv_value r) = m) (filter_mset (overlapping k k) M) \<noteq> {#}"
      using mx(2) Some p by (auto simp: max_of_def Let_def)
    then obtain r where "r \<in># filter_mset (\<lambda>r. ov_timestamp (rv_value r) = m) (filter_mset (overlapping k k) M)"
      by (rule_tac multiset_nonemptyE)
    then have attained: "\<exists>r \<in># M. overlapping k k r \<and> ov_timestamp (rv_value r) = m" by auto
    show ?thesis
    proof (cases "write_timestamp t < m")
      case True
      then have "execute_write_request env ex ?req =
          execute env (ex\<lparr>ex_table := put_txn (ex_table ex) u (t\<lparr>write_timestamp := m\<rparr>)\<rparr>) ?req"
        using run Some p assms(2) by (simp add: upd_txn_def exec_txn_def txn_at_def)
      with True le attained show ?thesis by (intro exI[of _ m]) auto
    next
      case False
      with le have "\<forall>r \<in># M. overlapping k k r \<longrightarrow> ov_timestamp (rv_value r) \<le> write_timestamp t" by force
      with False run Some p same show ?thesis by (intro exI[of _ "write_timestamp t"]) auto
    qed
  qed
qed

end
