(* ===== verification/Executor_Properties.thy ===== *)
theory Executor_Properties
  imports Executor_Effects Store_Properties
begin

text \<open>
  The properties of request execution, across the store, the lock table, the oracle and the wait
  queue, over any platform with the documented behaviour. The witnesses run transaction 3, which
  has written key \<open>[97]\<close>, on the reference platform.
\<close>

subsection \<open>An example\<close>

definition demo_txn :: txn where
  "demo_txn = \<lparr>txn_id = 3, write_timestamp = Timestamp 40 0, read_timestamp = Timestamp 40 0, lock_spans = [[97]], read_set = []\<rparr>"

definition demo_record :: "transaction_status \<Rightarrow> (uuid \<times> txn_record) option" where
  "demo_record s = Some (3, TxnRecord s (TxnMetadata 3 (Timestamp 40 0)))"

definition demo_table :: "uuid \<Rightarrow> lock_table" where
  "demo_table u =
     \<lparr>locks = [[97] \<mapsto> lock_state_new\<lparr>lock_holder := Some (TxnMetadata u (Timestamp 40 0))\<rparr>],
      lt_txns = [3 \<mapsto> demo_txn, 4 \<mapsto> txn_new 4 (Timestamp 40 0)], lt_guards = Map.empty\<rparr>"

definition demo_ex :: "transaction_status \<Rightarrow> uuid \<Rightarrow> ref_db exec" where
  "demo_ex s u =
     \<lparr>ex_store = ref_store (one_intent u) (demo_record s), ex_table = demo_table u, ex_oracle = oracle_new,
      ex_waitq = txn_wait_queue_new\<rparr>"

lemma demo_table_inv: "table_inv (demo_table u)"
  by (auto simp: table_inv_def lock_inv_def exclusive_def queues_ok_def links_ok_def txn_ids_ok_def queue_at_def queue_def
      demo_table_def demo_txn_def txn_new_def lock_state_new_def split: if_splits option.splits)

lemma demo_table_facts:
  "locks (demo_table u) [97] = Some (lock_state_new\<lparr>lock_holder := Some (TxnMetadata u (Timestamp 40 0))\<rparr>)"
  "lt_txns (demo_table u) 3 = Some demo_txn"
  by (simp_all add: demo_table_def)

lemma demo_in_flight:
  "in_flight ref_env ref_live ref_contents (demo_ex s 3) (map_of (one_intent 3)) (ref_records (demo_record s)) 3 demo_txn (\<lambda>_. [9])"
  using one_intent_is[of 3 "demo_record s"] ref_records_decode[of "demo_record s"] demo_table_inv[of 3] wait_inv_new
    one_intent_map[of 3] ref_de_intent[of "TxnMetadata 3 (Timestamp 30 0)" "[9]"] demo_table_facts[of 3]
  by (simp add: in_flight_def demo_ex_def demo_txn_def own_intents_def get_holder_txn_id_def)

lemma demo_records: "record_map ref_env (ref_records (demo_record s)) 3 = Some (TxnRecord s (TxnMetadata 3 (Timestamp 40 0)))"
  by (simp add: demo_record_def ref_record_map)

subsection \<open>Commit and abort\<close>

text \<open>
  C11: committing a transaction that passes the read refresh publishes it. Its record becomes
  \<open>COMMITTED\<close>, every key it wrote has its value as the version at the commit timestamp and no
  intent, a read at that timestamp returns the value, other keys are untouched, its
  locks are released, and every transaction waiting for it is told.
\<close>

theorem commit_publishes_writes:
  assumes "platform_ok env live contents" "in_flight env live contents ex vm rm u t val"
    "\<not> is_status (record_map env rm u) ABORTED"
    "refresh_keys env (ex_store ex) u u (read_timestamp t) (write_timestamp t) (read_set t) = Inr True"
    "valid_utf8 (encode_timestamp (write_timestamp t))" "\<not> is_intent_timestamp (write_timestamp t)"
    "commit_ok (Some (write_timestamp t))"
  shows "\<exists>ex' vm' rm'. commit_execute env ex u = Some (Inr (Inr (CommitTxnResponse (write_timestamp t)), ex')) \<and>
    db_is env live contents (ex_store ex') vm' rm' \<and>
    record_map env rm' = (record_map env rm)(u \<mapsto> TxnRecord COMMITTED (TxnMetadata u (write_timestamp t))) \<and>
    (\<forall>m. mkey m \<notin> set (lock_spans t) \<longrightarrow> vm' m = vm m) \<and>
    (\<forall>k \<in> set (lock_spans t). vm' (create_intent_key k) = None \<and>
       mvcc_get env (ex_store ex') k (write_timestamp t) tx =
         Inr (MVCCGetResult (Some (MVCCKey k (write_timestamp t), val k)) None) \<and>
       (\<exists>st. locks (ex_table ex') k = Some st \<and> lock_holder st = None)) \<and>
    (\<forall>i \<in> set (pending_ids (ex_waitq ex) u). push_messages (waiting_pushes (ex_waitq ex') ! i) = 1)"
proof -
  let ?c = "write_timestamp t" and ?ks = "lock_spans t"
  let ?vm = "resolved vm ?c ?ks val"
  obtain ex' rm' where ex': "commit_execute env ex u = Some (Inr (Inr (CommitTxnResponse ?c), ex'))"
    "db_is env live contents (ex_store ex') ?vm rm'"
    "record_map env rm' = (record_map env rm)(u \<mapsto> TxnRecord COMMITTED (TxnMetadata u ?c))"
    "\<forall>k \<in> set ?ks. \<exists>st. locks (ex_table ex') k = Some st \<and> lock_holder st = None"
    "\<forall>i \<in> set (pending_ids (ex_waitq ex) u). push_messages (waiting_pushes (ex_waitq ex') ! i) = 1"
    by (rule commit_effect[OF assms])
  have read: "?vm (create_intent_key k) = None \<and>
      mvcc_get env (ex_store ex') k ?c tx = Inr (MVCCGetResult (Some (MVCCKey k ?c, val k)) None)" if k: "k \<in> set ?ks" for k
  proof -
    have vm: "?vm (create_intent_key k) = None" "?vm (MVCCKey k ?c) = Some (val k)"
      using k assms(6) by (auto simp: resolved_def create_intent_key_def is_intent_key_def is_intent_timestamp_iff)
    then obtain r where r: "mvcc_get env (ex_store ex') k ?c tx = Inr (MVCCGetResult r None)" "newest_version ?vm k ?c r"
      using mvcc_get_no_intent[OF assms(1) ex'(2), of k ?c ?c tx] by auto
    have "newest_version ?vm k ?c (Some (MVCCKey k ?c, val k))"
      using vm(2) by (auto simp: newest_version_def)
    with r vm(1) newest_version_unique show ?thesis by blast
  qed
  moreover have "?vm m = vm m" if "mkey m \<notin> set ?ks" for m using that by (simp add: resolved_def)
  ultimately show ?thesis using ex' by blast
qed

theorem commit_publishes_writes_witness:
  "\<exists>ex'. commit_execute ref_env (demo_ex PENDING 3) 3 = Some (Inr (Inr (CommitTxnResponse (Timestamp 40 0)), ex')) \<and>
    mvcc_get ref_env (ex_store ex') [97] (Timestamp 40 0) None =
      Inr (MVCCGetResult (Some (MVCCKey [97] (Timestamp 40 0), [9])) None)"
proof -
  have "next_logical_timestamp (Timestamp 40 0) = Inr (Timestamp 40 1)" by code_simp
  then have ts: "commit_ok (Some (Timestamp 40 0))" by (simp add: commit_ok_def)
  have "refresh_keys ref_env (ex_store (demo_ex PENDING 3)) 3 3 (read_timestamp demo_txn) (write_timestamp demo_txn)
      (read_set demo_txn) = Inr True" by (simp add: demo_txn_def)
  from commit_publishes_writes[OF ref_platform_ok demo_in_flight _ this, of None]
  show ?thesis
    using ts by (auto simp: demo_records is_status_def demo_txn_def is_intent_timestamp_def)
qed

text \<open>
  C12: aborting a transaction that has not committed removes each of its intents and nothing else,
  marks its record \<open>ABORTED\<close>, releases its locks and tells every transaction waiting for it.
\<close>

theorem abort_discards_writes:
  assumes "platform_ok env live contents" "in_flight env live contents ex vm rm u t val"
    "\<not> is_status (record_map env rm u) COMMITTED"
    "\<forall>k \<in> set (lock_spans t). \<forall>st. locks (ex_table ex) k = Some st \<longrightarrow> commit_ok (last_committed_timestamp st)"
  shows "\<exists>ex' rm'. abort_execute env ex u = Some (Inr (Inr AbortTxnResponse, ex')) \<and>
    db_is env live contents (ex_store ex') (\<lambda>m. if m \<in> create_intent_key ` set (lock_spans t) then None else vm m) rm' \<and>
    record_map env rm' = (record_map env rm)(u \<mapsto> TxnRecord ABORTED (TxnMetadata u (write_timestamp t))) \<and>
    (\<forall>k \<in> set (lock_spans t). \<exists>st. locks (ex_table ex') k = Some st \<and> lock_holder st = None) \<and>
    (\<forall>i \<in> set (pending_ids (ex_waitq ex) u). push_messages (waiting_pushes (ex_waitq ex') ! i) = 1)"
proof -
  obtain ex' rm' where "abort_execute env ex u = Some (Inr (Inr AbortTxnResponse, ex'))"
    "db_is env live contents (ex_store ex') (\<lambda>m. if m \<in> create_intent_key ` set (lock_spans t) then None else vm m) rm'"
    "record_map env rm' = (record_map env rm)(u \<mapsto> TxnRecord ABORTED (TxnMetadata u (write_timestamp t)))"
    "\<forall>k \<in> set (lock_spans t). \<exists>st. locks (ex_table ex') k = Some st \<and> lock_holder st = None"
    "\<forall>i \<in> set (pending_ids (ex_waitq ex) u). push_messages (waiting_pushes (ex_waitq ex') ! i) = 1"
    by (rule abort_effect[OF assms(1-3)]) (use assms(4) in blast)+
  then show ?thesis by blast
qed

theorem abort_discards_writes_witness:
  "\<exists>ex' vm' rm'. abort_execute ref_env (demo_ex PENDING 3) 3 = Some (Inr (Inr AbortTxnResponse, ex')) \<and>
    db_is ref_env ref_live ref_contents (ex_store ex') vm' rm' \<and> vm' (create_intent_key [97]) = None \<and>
    record_map ref_env rm' 3 = Some (TxnRecord ABORTED (TxnMetadata 3 (Timestamp 40 0)))"
proof -
  have "\<forall>k \<in> set (lock_spans demo_txn). \<forall>st. locks (ex_table (demo_ex PENDING 3)) k = Some st \<longrightarrow>
      commit_ok (last_committed_timestamp st)"
    by (auto simp: demo_ex_def demo_table_def demo_txn_def lock_state_new_def commit_ok_def)
  from abort_discards_writes[OF ref_platform_ok demo_in_flight[of PENDING] _ this]
  obtain ex' rm' where "abort_execute ref_env (demo_ex PENDING 3) 3 = Some (Inr (Inr AbortTxnResponse, ex'))"
    "db_is ref_env ref_live ref_contents (ex_store ex')
       (\<lambda>m. if m \<in> create_intent_key ` set (lock_spans demo_txn) then None else map_of (one_intent 3) m) rm'"
    "record_map ref_env rm' = (record_map ref_env (ref_records (demo_record PENDING)))
       (3 \<mapsto> TxnRecord ABORTED (TxnMetadata 3 (write_timestamp demo_txn)))"
    by (auto simp: demo_records is_status_def)
  then show ?thesis by (intro exI conjI) (assumption, assumption, simp_all add: demo_txn_def)
qed

subsection \<open>Writes and reads\<close>

subsection \<open>Handing over\<close>

text \<open>Transaction 4 waits to write key \<open>[97]\<close>, whose lock transaction 3 holds.\<close>

definition waiting_guard :: lock_guard where
  "waiting_guard = (lock_guard_new 4 False [point_span [97]])\<lparr>should_wait := True, wait_state := Waiting\<rparr>"

definition queue_ex :: "ref_db exec" where
  "queue_ex = (demo_ex PENDING 3)\<lparr>ex_table := (demo_table 3)\<lparr>
     locks := [[97] \<mapsto> lock_state_new\<lparr>lock_holder := Some (TxnMetadata 3 (Timestamp 40 0)), queued_writers := [11]\<rparr>],
     lt_guards := [11 \<mapsto> waiting_guard]\<rparr>\<rparr>"

lemma queue_in_flight:
  "in_flight ref_env ref_live ref_contents queue_ex (map_of (one_intent 3)) (ref_records (demo_record PENDING)) 3 demo_txn (\<lambda>_. [9])"
proof -
  have "table_inv (ex_table queue_ex)"
    by (auto simp: table_inv_def lock_inv_def exclusive_def queues_ok_def links_ok_def txn_ids_ok_def queue_at_def queue_def
        queue_ex_def waiting_guard_def lock_guard_new_def demo_table_def demo_txn_def txn_new_def lock_state_new_def
        split: if_splits option.splits)
  then show ?thesis
    using demo_in_flight[of PENDING] by (simp add: in_flight_def queue_ex_def demo_ex_def demo_txn_def get_holder_txn_id_def demo_table_def)
qed

text \<open>
  C19: a transaction that ends lets the others go on. Whether it commits or aborts, each lock it held passes to the
  first writer queued for it, which gets the reservation and is told to stop waiting, the other writers keep their order,
  every reader that waited for the lock is told too, and so is every transaction that pushed it.
\<close>

theorem finished_transaction_unblocks:
  assumes "platform_ok env live contents" "in_flight env live contents ex vm rm u t val" "is_status (record_map env rm u) PENDING"
    "refresh_keys env (ex_store ex) u u (read_timestamp t) (write_timestamp t) (read_set t) = Inr True"
    "valid_utf8 (encode_timestamp (write_timestamp t))" "\<not> is_intent_timestamp (write_timestamp t)" "commit_ok (Some (write_timestamp t))"
    "\<forall>k \<in> set (lock_spans t). \<forall>st. locks (ex_table ex) k = Some st \<longrightarrow> commit_ok (last_committed_timestamp st)"
    "run \<in> {commit_execute env ex u, abort_execute env ex u}"
  shows "\<exists>resp ex'. run = Some (Inr (Inr resp, ex')) \<and>
    (\<forall>k \<in> set (lock_spans t). \<exists>st. locks (ex_table ex) k = Some st \<and> handed_over st (ex_table ex') k) \<and>
    (\<forall>i \<in> set (pending_ids (ex_waitq ex) u). push_messages (waiting_pushes (ex_waitq ex') ! i) = 1)"
proof -
  have st: "\<not> is_status (record_map env rm u) ABORTED" "\<not> is_status (record_map env rm u) COMMITTED"
    using assms(3) by (auto simp: is_status_def split: option.splits)
  have held: "\<exists>st. locks (ex_table ex) k = Some st" if "k \<in> set (lock_spans t)" for k
    using assms(2) that by (auto simp: in_flight_def)
  have "\<exists>resp ex' ul. run = Some (Inr (Inr resp, ex')) \<and> update_txn_locks (ex_table ex) u ul = Some (Inr (ex_table ex')) \<and> update_lock_txn ul = u \<and>
      (\<forall>k st. k \<in> set (lock_spans t) \<longrightarrow> locks (ex_table ex) k = Some st \<longrightarrow> commit_ok (commit_of st ul)) \<and>
      (\<forall>i \<in> set (pending_ids (ex_waitq ex) u). push_messages (waiting_pushes (ex_waitq ex') ! i) = 1)"
  proof (cases "run = commit_execute env ex u")
    case True
    obtain ex' where ex': "commit_execute env ex u = Some (Inr (Inr (CommitTxnResponse (write_timestamp t)), ex'))"
      "\<forall>i \<in> set (pending_ids (ex_waitq ex) u). push_messages (waiting_pushes (ex_waitq ex') ! i) = 1"
      "update_txn_locks (ex_table ex) u (CommitLock u (write_timestamp t)) = Some (Inr (ex_table ex'))"
      by (rule commit_effect[OF assms(1,2) st(1) assms(4-7)])
    with True assms(7) show ?thesis by (intro exI[of _ ex'] exI[of _ "CommitLock u (write_timestamp t)"] exI) (auto simp: update_lock_txn_def commit_of_def)
  next
    case False
    obtain ex' where ex': "abort_execute env ex u = Some (Inr (Inr AbortTxnResponse, ex'))"
      "\<forall>i \<in> set (pending_ids (ex_waitq ex) u). push_messages (waiting_pushes (ex_waitq ex') ! i) = 1"
      "update_txn_locks (ex_table ex) u (AbortLock u) = Some (Inr (ex_table ex'))"
      by (rule abort_effect[OF assms(1,2) st(2)]) (use assms(8) in blast)+
    with False assms(8,9) show ?thesis by (intro exI[of _ ex'] exI[of _ "AbortLock u"] exI) (auto simp: update_lock_txn_def commit_of_def)
  qed
  then obtain resp ex' ul where run: "run = Some (Inr (Inr resp, ex'))" "update_txn_locks (ex_table ex) u ul = Some (Inr (ex_table ex'))"
    "update_lock_txn ul = u" "\<forall>k st. k \<in> set (lock_spans t) \<longrightarrow> locks (ex_table ex) k = Some st \<longrightarrow> commit_ok (commit_of st ul)"
    "\<forall>i \<in> set (pending_ids (ex_waitq ex) u). push_messages (waiting_pushes (ex_waitq ex') ! i) = 1" by blast
  have "handed_over st (ex_table ex') k" if "k \<in> set (lock_spans t)" "locks (ex_table ex) k = Some st" for k st
    by (rule update_txn_locks_hands[OF assms(2) run(3) _ run(2) that]) (use run(4) in blast)
  with run(1,5) held show ?thesis by blast
qed

theorem finished_transaction_unblocks_witness:
  "\<exists>resp ex' st'. abort_execute ref_env queue_ex 3 = Some (Inr (Inr resp, ex')) \<and> locks (ex_table ex') [97] = Some st' \<and>
    reservation st' = Some 11 \<and> told (ex_table ex') 11"
proof -
  have "next_logical_timestamp (Timestamp 40 0) = Inr (Timestamp 40 1)" by code_simp
  then have ts: "commit_ok (Some (Timestamp 40 0))" by (simp add: commit_ok_def)
  have "\<forall>k \<in> set (lock_spans demo_txn). \<forall>st. locks (ex_table queue_ex) k = Some st \<longrightarrow> commit_ok (last_committed_timestamp st)"
    by (auto simp: queue_ex_def demo_txn_def lock_state_new_def commit_ok_def)
  from finished_transaction_unblocks[OF ref_platform_ok queue_in_flight _ _ _ _ _ this, of "abort_execute ref_env queue_ex 3"]
  show ?thesis
    using ts by (auto simp: demo_records is_status_def demo_txn_def is_intent_timestamp_def queue_ex_def handed_over_def)
qed

text \<open>
  C20: a write is moved to or above every read recorded for its key: the executor runs the put with
  the least write timestamp that is neither below the transaction's own nor below a recorded
  read. It can be equal to the timestamp of the read.
\<close>

theorem write_not_below_recorded_reads:
  assumes "intervals (ex_oracle ex) M" "lt_txns (ex_table ex) u = Some t"
  shows "\<exists>ts. execute_write_request env ex \<lparr>request_txn = u, request_body = Put k v\<rparr> =
      execute env (ex\<lparr>ex_table := put_txn (ex_table ex) u (t\<lparr>write_timestamp := ts\<rparr>)\<rparr>)
        \<lparr>request_txn = u, request_body = Put k v\<rparr> \<and>
    write_timestamp t \<le> ts \<and>
    (\<forall>r \<in># M. overlapping k k r \<longrightarrow> ov_timestamp (rv_value r) \<le> ts) \<and>
    (ts = write_timestamp t \<or> (\<exists>r \<in># M. overlapping k k r \<and> ov_timestamp (rv_value r) = ts))"
  by (rule write_request_timestamp[OF assms])

theorem write_not_below_recorded_reads_witness:
  "\<exists>g ts. oracle_add oracle_new (Timestamp 50 0) [98] [98] (Some 4) = Some (Inr g) \<and>
    execute_write_request ref_env (demo_ex PENDING 3\<lparr>ex_oracle := g\<rparr>) \<lparr>request_txn = 3, request_body = Put [98] [1]\<rparr> =
      execute ref_env (demo_ex PENDING 3\<lparr>ex_oracle := g, ex_table := put_txn (demo_table 3) 3 (demo_txn\<lparr>write_timestamp := ts\<rparr>)\<rparr>)
        \<lparr>request_txn = 3, request_body = Put [98] [1]\<rparr> \<and> ts = Timestamp 50 0"
proof -
  let ?r = "RangeValue [98] [98] (OracleValue (Timestamp 50 0) (Some 4))"
  have "0 < NIL" by (simp add: NIL_def)
  then obtain g where g: "oracle_add oracle_new (Timestamp 50 0) [98] [98] (Some 4) = Some (Inr g)" "intervals g {#?r#}"
    using itree.content_insert[OF itree.content_empty] by (force simp: oracle_add_def oracle_new_def)
  let ?ex = "demo_ex PENDING 3\<lparr>ex_oracle := g\<rparr>"
  have "intervals (ex_oracle ?ex) {#?r#}" "lt_txns (ex_table ?ex) 3 = Some demo_txn"
    using g(2) by (simp_all add: demo_ex_def demo_table_facts)
  from write_not_below_recorded_reads[OF this, of ref_env "[98]" "[1]"]
  obtain ts where ts: "execute_write_request ref_env ?ex \<lparr>request_txn = 3, request_body = Put [98] [1]\<rparr> =
      execute ref_env (?ex\<lparr>ex_table := put_txn (ex_table ?ex) 3 (demo_txn\<lparr>write_timestamp := ts\<rparr>)\<rparr>)
        \<lparr>request_txn = 3, request_body = Put [98] [1]\<rparr>"
    "Timestamp 50 0 \<le> ts" "ts = Timestamp 40 0 \<or> ts = Timestamp 50 0"
    by (auto simp: overlapping_def does_range_overlap_def demo_txn_def)
  have "\<not> Timestamp 50 0 \<le> Timestamp 40 0" by (simp add: timestamp_le_iff is_intent_timestamp_def)
  with ts(2,3) have "ts = Timestamp 50 0" by auto
  with g(1) ts(1) show ?thesis by (auto simp: demo_ex_def)
qed






text \<open>
  C36: aborting a transaction a second time, after its lock has passed on, removes the intent that
  the new holder of the lock has written: the new holder keeps the lock and loses its write.
\<close>

theorem second_abort_removes_foreign_intent:
  assumes "platform_ok env live contents" "db_is env live contents (ex_store ex) vm rm" "records_decode env rm"
    "table_inv (ex_table ex)" "wait_inv (ex_waitq ex)" "lt_txns (ex_table ex) u = Some t"
    "lock_spans t = [k]" "valid_utf8 k" "is_status (record_map env rm u) ABORTED"
    "locks (ex_table ex) k = Some st" "get_holder_txn_id st = Some w" "w \<noteq> u"
  shows "\<exists>ex' rm'. abort_execute env ex u = Some (Inr (Inr AbortTxnResponse, ex')) \<and>
    db_is env live contents (ex_store ex') (vm(create_intent_key k := None)) rm' \<and> ex_table ex' = ex_table ex"
proof -
  have tid: "txn_id t = u" using assms(4,6) by (auto simp: table_inv_def txn_ids_ok_def)
  have rec: "get_transaction_record env (ex_store ex) u = Inr (record_map env rm u)"
    by (rule get_transaction_record_map[OF assms(1-3)])
  obtain d1 rm' where d1: "update_transaction_record_to_abort env (ex_store ex) u (write_timestamp t) = Inr d1"
    "db_is env live contents d1 vm rm'"
    unfolding update_transaction_record_to_abort_def by (rule put_transaction_record_map[OF assms(1-3)])
  have "\<exists>d2. delete_intents env d1 [k] = Inr d2 \<and> db_is env live contents d2 (\<lambda>m. if m \<in> create_intent_key ` set [k] then None else vm m) rm'"
    by (rule delete_intents_ok[OF assms(1) d1(2)]) (simp add: assms(8))
  moreover have "(\<lambda>m. if m \<in> create_intent_key ` set [k] then None else vm m) = vm(create_intent_key k := None)" by auto
  ultimately obtain d2 where d2: "delete_intents env d1 [k] = Inr d2" "db_is env live contents d2 (vm(create_intent_key k := None)) rm'"
    by auto
  have "update_locks (ex_table ex) k (AbortLock u) = Some (Inr (False, ex_table ex))"
    using assms(10-12) by (auto simp: update_locks_def get_lock_state_def get_holder_txn_id_def update_lock_txn_def)
  then have upd: "update_txn_locks (ex_table ex) u (AbortLock u) = Some (Inr (ex_table ex))"
    using assms(6,7) by (simp add: update_txn_locks_def get_txn_lock_spans_def txn_at_def)
  obtain q' where "finalize_txn (ex_waitq ex) u = Some (Inr q')"
    using finalize_releases[OF assms(5)] by blast
  moreover have "\<not> is_status (record_map env rm u) COMMITTED"
    using assms(9) by (auto simp: is_status_def split: option.splits)
  ultimately have "abort_execute env ex u = Some (Inr (Inr AbortTxnResponse, ex\<lparr>ex_store := d2, ex_waitq := q'\<rparr>))"
    using assms(6,7) tid rec d1(1) d2(1) upd by (simp add: abort_execute_def exec_txn_def txn_at_def)
  with d2(2) show ?thesis by auto
qed

theorem second_abort_removes_foreign_intent_witness:
  "\<exists>ex' vm' rm'. abort_execute ref_env (demo_ex ABORTED 4) 3 = Some (Inr (Inr AbortTxnResponse, ex')) \<and>
    map_of (one_intent 4) (create_intent_key [97]) \<noteq> None \<and>
    db_is ref_env ref_live ref_contents (ex_store ex') vm' rm' \<and> vm' (create_intent_key [97]) = None"
proof -
  have "\<exists>ex' rm'. abort_execute ref_env (demo_ex ABORTED 4) 3 = Some (Inr (Inr AbortTxnResponse, ex')) \<and>
    db_is ref_env ref_live ref_contents (ex_store ex') ((map_of (one_intent 4))(create_intent_key [97] := None)) rm' \<and>
    ex_table ex' = ex_table (demo_ex ABORTED 4)"
    by (rule second_abort_removes_foreign_intent[OF ref_platform_ok _ ref_records_decode[of "demo_record ABORTED"], where w = 4 and t = demo_txn
        and st = "lock_state_new\<lparr>lock_holder := Some (TxnMetadata 4 (Timestamp 40 0))\<rparr>"])
      (use one_intent_is[of 4 "demo_record ABORTED"] demo_table_inv[of 4] wait_inv_new demo_records[of ABORTED] demo_table_facts[of 4] in
        \<open>simp_all add: demo_ex_def demo_txn_def is_status_def get_holder_txn_id_def lock_state_new_def\<close>)
  with one_intent_map[of 4] show ?thesis by fastforce
qed

end
