(* ===== verification/Latch_Tree.thy ===== *)
theory Latch_Tree
  imports Request
begin

text \<open>
  The B-tree of latches (\<open>src/src/latch_manager/latch_interval_btree.rs\<close>). A node owns its
  children, so a node with its subtree is a value of \<open>latch_node\<close>; an operation that changes a
  node through its link returns the changed node, and one that changes its parent as well returns
  the keys and edges of the parent. Each call on the tree is one step: a call does not
  suspend, so this is what happens while one thread runs the tasks. On several threads calls on the same subtree can
  overlap, since \<open>insert\<close> and \<open>delete\<close> clone the root's link before they latch the root, and
  \<open>insert_helper\<close> and \<open>delete_helper\<close> drop a safe parent's latch before they take the child's. A leaf's sibling pointers are written and never read; they are left out. The senders
  queued at a latch are counted.
\<close>

datatype 'k latch_node =
    Internal (node_keys: "'k list") (node_edges: "'k latch_node list")
  | Leaf (start_keys: "'k list") (end_keys: "'k list") (leaf_waiters: "nat list")

datatype latch_key_guard = Acquired | NotAcquired

datatype direction = GoLeft | GoRight

subsection \<open>Vectors\<close>

definition vec_split_off :: "'a list \<Rightarrow> nat \<Rightarrow> ('a list \<times> 'a list) res" where
  "vec_split_off xs i = (if i \<le> length xs then Inr (take i xs, drop i xs) else Inl OutOfBounds)"

text \<open>The loops that look for the first element with a property; the length when there is none.\<close>

definition first_index :: "('a \<Rightarrow> bool) \<Rightarrow> 'a list \<Rightarrow> nat" where
  "first_index P xs = length (takeWhile (\<lambda>x. \<not> P x) xs)"

definition dec :: "nat \<Rightarrow> nat res" where
  "dec n = (if n = 0 then Inl Overflow else Inr (n - 1))"

subsection \<open>Nodes\<close>

definition size_of :: "'k latch_node \<Rightarrow> nat" where
  "size_of n = (case n of Internal ks _ \<Rightarrow> length ks | Leaf ss _ _ \<Rightarrow> length ss)"

definition node_is_underflow :: "nat \<Rightarrow> 'k latch_node \<Rightarrow> bool" where
  "node_is_underflow order n \<longleftrightarrow> size_of n < order div 2"

definition node_has_spare_key :: "nat \<Rightarrow> 'k latch_node \<Rightarrow> bool" where
  "node_has_spare_key order n \<longleftrightarrow> size_of n > order div 2"

definition as_internal_node :: "'k latch_node \<Rightarrow> ('k list \<times> 'k latch_node list) res" where
  "as_internal_node n =
     (case n of Internal ks es \<Rightarrow> Inr (ks, es) | Leaf _ _ _ \<Rightarrow> Inl (Explicit ''Cannot coerce leaf node to internal node''))"

definition as_leaf_node :: "'k latch_node \<Rightarrow> ('k list \<times> 'k list \<times> nat list) res" where
  "as_leaf_node n =
     (case n of Internal _ _ \<Rightarrow> Inl (Explicit ''Cannot coerce leaf node to internal node'') | Leaf ss es ws \<Rightarrow> Inr (ss, es, ws))"

definition leaf_new :: "'k latch_node" where
  "leaf_new = Leaf [] [] [0]"

definition has_capacity :: "nat \<Rightarrow> 'k latch_node \<Rightarrow> bool" where
  [simp]: "has_capacity order n \<longleftrightarrow> size_of n < order"

subsection \<open>Insertion\<close>

definition insert_range ::
  "('k::linorder) list \<Rightarrow> 'k list \<Rightarrow> nat list \<Rightarrow> 'k range \<Rightarrow> (latch_key_guard \<times> 'k latch_node) res" where
  "insert_range ss es ws r =
     (let found = first_index (\<lambda>k. k = range_start r) ss in
      if found < length ss then
        rbind (vec_get ws found) (\<lambda>n.
        rbind (vec_set ws found (n + 1)) (\<lambda>ws'. Inr (NotAcquired, Leaf ss es ws')))
      else
        let insert_idx = first_index (\<lambda>k. range_start r < k) ss in
        rbind (vec_insert ss insert_idx (range_start r)) (\<lambda>ss'.
        rbind (vec_insert es insert_idx (range_end r)) (\<lambda>es'.
          Inr (Acquired, Leaf ss' es' ws))))"

definition leaf_split :: "'k list \<Rightarrow> 'k list \<Rightarrow> nat list \<Rightarrow> ('k latch_node \<times> 'k latch_node \<times> 'k) res" where
  "leaf_split ss es ws =
     (let mid = length ss div 2 in
      rbind (vec_split_off ss mid) (\<lambda>(lss, rss).
      rbind (vec_split_off es mid) (\<lambda>(les, res).
      rbind (vec_get rss 0) (\<lambda>right_start.
        Inr (Leaf lss les ws, Leaf rss res [0], right_start)))))"

definition internal_split ::
  "'k list \<Rightarrow> 'k latch_node list \<Rightarrow> ('k latch_node \<times> 'k latch_node \<times> 'k) res" where
  "internal_split ks es =
     (let mid_idx = length ks div 2 in
      rbind (vec_split_off ks mid_idx) (\<lambda>(lks, right_keys).
      rbind (vec_split_off es (mid_idx + 1)) (\<lambda>(les, right_edges).
      rbind (vec_remove right_keys 0) (\<lambda>(right_start, rks).
        Inr (Internal lks les, Internal rks right_edges, right_start)))))"

definition node_split :: "'k latch_node \<Rightarrow> ('k latch_node \<times> 'k latch_node \<times> 'k) res" where
  "node_split n = (case n of Internal ks es \<Rightarrow> internal_split ks es | Leaf ss es ws \<Rightarrow> leaf_split ss es ws)"

definition internal_insert_node ::
  "('k::linorder) list \<Rightarrow> 'k latch_node list \<Rightarrow> 'k latch_node \<Rightarrow> 'k \<Rightarrow> ('k list \<times> 'k latch_node list) res" where
  "internal_insert_node ks es n insert_key =
     (let insert_idx = first_index (\<lambda>k. insert_key < k) ks in
      rbind (vec_insert ks insert_idx insert_key) (\<lambda>ks'.
      rbind (vec_insert es (insert_idx + 1) n) (\<lambda>es'. Inr (ks', es'))))"

text \<open>
  After an insertion below: a node over capacity is split. The right half goes to the parent
  when the caller has passed one, and otherwise a new root with both halves replaces the root of the
  tree. The last component of the result is that new root.
\<close>

definition split_if_full ::
  "nat \<Rightarrow> bool \<Rightarrow> latch_key_guard \<Rightarrow> 'k latch_node \<Rightarrow> 'k latch_node option \<Rightarrow>
   (latch_key_guard \<times> 'k latch_node \<times> ('k latch_node \<times> 'k) option \<times> 'k latch_node option) res" where
  "split_if_full order has_parent g n new_root =
     (if g = Acquired \<and> \<not> has_capacity order n then
        rbind (node_split n) (\<lambda>(left, split_node, median).
          if has_parent then Inr (g, left, Some (split_node, median), new_root)
          else Inr (g, left, None, Some (Internal [median] [left, split_node])))
      else Inr (g, n, None, new_root))"

lemma child_size:
  assumes "vec_get es i = Inr child"
  shows "size child < Suc (size_list size es)"
  using assms size_list_estimation'[of child es "size child" size] by (auto simp: vec_get_def split: if_splits)

function insert_helper ::
  "nat \<Rightarrow> bool \<Rightarrow> ('k::linorder) latch_node \<Rightarrow> 'k range \<Rightarrow>
   (latch_key_guard \<times> 'k latch_node \<times> ('k latch_node \<times> 'k) option \<times> 'k latch_node option) res" where
  "insert_helper order has_parent (Internal ks es) r =
     (if ks = [] then Inl UnwrapNone
      else
        let idx = first_index (\<lambda>k. range_start r < k) ks in
        rbind (vec_get es idx) (\<lambda>child.
        rbind (dec order) (\<lambda>cap.
          if size_of child < cap then
            rbind (insert_helper order False child r) (\<lambda>(g, child', _, new_root).
              Inr (g, Internal ks (es[idx := child']), None, new_root))
          else
            rbind (insert_helper order True child r) (\<lambda>(g, child', split, new_root).
            rbind (case split of
                     Some (split_node, median) \<Rightarrow> internal_insert_node ks (es[idx := child']) split_node median
                   | None \<Rightarrow> Inr (ks, es[idx := child'])) (\<lambda>(ks', es').
              split_if_full order has_parent g (Internal ks' es') new_root)))))"
| "insert_helper order has_parent (Leaf ss es ws) r =
     rbind (insert_range ss es ws r) (\<lambda>(g, leaf). split_if_full order has_parent g leaf None)"
  by pat_completeness auto
termination
  by (relation "measure (\<lambda>(order, p, n, r). size n)") (auto dest: child_size)

declare insert_helper.simps [simp del]

record 'k btree =
  btree_root :: "'k latch_node"
  btree_order :: nat

definition btree_new :: "nat \<Rightarrow> 'k btree" where
  "btree_new capacity = \<lparr>btree_root = leaf_new, btree_order = capacity\<rparr>"

definition btree_insert :: "('k::linorder) btree \<Rightarrow> 'k range \<Rightarrow> (latch_key_guard \<times> 'k btree) res" where
  "btree_insert t r =
     rbind (insert_helper (btree_order t) False (btree_root t) r) (\<lambda>(g, root', _, new_root).
       Inr (g, t\<lparr>btree_root := (case new_root of Some n \<Rightarrow> n | None \<Rightarrow> root')\<rparr>))"

subsection \<open>Deletion\<close>

definition find_child_left_sibling :: "'k latch_node list \<Rightarrow> nat \<Rightarrow> 'k latch_node option res" where
  "find_child_left_sibling es edge_idx =
     (if edge_idx = 0 then Inr None else rbind (vec_get es (edge_idx - 1)) (\<lambda>n. Inr (Some n)))"

definition find_child_right_sibling :: "'k latch_node list \<Rightarrow> nat \<Rightarrow> 'k latch_node option res" where
  "find_child_right_sibling es edge_idx =
     rbind (dec (length es)) (\<lambda>last_idx.
       if edge_idx = last_idx then Inr None else rbind (vec_get es (edge_idx + 1)) (\<lambda>n. Inr (Some n)))"

definition key_index :: "nat \<Rightarrow> direction \<Rightarrow> nat res" where
  "key_index edge_idx dir = (case dir of GoLeft \<Rightarrow> Inr edge_idx | GoRight \<Rightarrow> dec edge_idx)"

paragraph \<open>Leaves\<close>

definition find_key_idx :: "'k list \<Rightarrow> 'k \<Rightarrow> nat option" where
  "find_key_idx ss k = (let idx = first_index (\<lambda>x. x = k) ss in if idx < length ss then Some idx else None)"

definition find_next_larger_key :: "('k::linorder) list \<Rightarrow> 'k \<Rightarrow> nat option" where
  "find_next_larger_key ss k = (let idx = first_index (\<lambda>x. x > k) ss in if idx < length ss then Some idx else None)"

definition remove_key :: "'k list \<Rightarrow> 'k list \<Rightarrow> 'k \<Rightarrow> (bool \<times> 'k list \<times> 'k list) res" where
  "remove_key ss es k =
     (case find_key_idx ss k of
        Some idx \<Rightarrow>
          rbind (vec_remove ss idx) (\<lambda>(_, ss').
          rbind (vec_remove es idx) (\<lambda>(_, es'). Inr (True, ss', es')))
      | None \<Rightarrow> Inr (False, ss, es))"

definition find_next_largest_key ::
  "('k::linorder) list \<Rightarrow> 'k \<Rightarrow> 'k latch_node option \<Rightarrow> 'k res" where
  "find_next_largest_key ss k right_sibling =
     (case find_next_larger_key ss k of
        Some idx \<Rightarrow> vec_get ss idx
      | None \<Rightarrow>
          rbind (unwrap right_sibling) (\<lambda>right.
          rbind (as_leaf_node right) (\<lambda>(rss, _, _). vec_get rss 0)))"

definition steal_smallest_key :: "nat \<Rightarrow> 'k list \<Rightarrow> 'k list \<Rightarrow> ('k range \<times> 'k list \<times> 'k list) res" where
  "steal_smallest_key order ss es =
     (if \<not> length ss > order div 2 then Inl (Explicit ''Cannot steal key from leaf, will underflow'')
      else
        rbind (vec_remove ss 0) (\<lambda>(start_key, ss').
        rbind (vec_remove es 0) (\<lambda>(end_key, es').
          Inr (Range start_key end_key, ss', es'))))"

definition steal_biggest_key :: "nat \<Rightarrow> 'k list \<Rightarrow> 'k list \<Rightarrow> ('k range \<times> 'k list \<times> 'k list) res" where
  "steal_biggest_key order ss es =
     (if \<not> length ss > order div 2 then Inl (Explicit ''Cannot steal key from leaf, will underflow'')
      else
        rbind (dec (length ss)) (\<lambda>idx.
        rbind (vec_remove ss idx) (\<lambda>(start_key, ss').
        rbind (vec_remove es idx) (\<lambda>(end_key, es').
          Inr (Range start_key end_key, ss', es')))))"

definition get_lower :: "'k list \<Rightarrow> 'k option" where
  "get_lower ss = (case ss of [] \<Rightarrow> None | k # _ \<Rightarrow> Some k)"

definition update_key_at_index :: "'k list \<Rightarrow> nat \<Rightarrow> 'k \<Rightarrow> 'k list res" where
  "update_key_at_index ks idx new_key = vec_set ks idx new_key"

text \<open>
  The parent is given by its keys, its edges and the index of the leaf. A result is the
  leaf, its sibling, and the keys of the parent.
\<close>

definition steal_from_left_leaf_sibling ::
  "nat \<Rightarrow> ('k::linorder) latch_node \<Rightarrow> 'k latch_node \<Rightarrow> 'k list \<Rightarrow> nat \<Rightarrow>
   (bool \<times> 'k latch_node \<times> 'k latch_node \<times> 'k list) res" where
  "steal_from_left_leaf_sibling order leaf left pks edge_idx =
     rbind (as_leaf_node leaf) (\<lambda>(ss, es, ws).
     rbind (as_leaf_node left) (\<lambda>(lss, les, lws).
       if node_has_spare_key order left then
         rbind (steal_biggest_key order lss les) (\<lambda>(stolen_range, lss', les').
         rbind (insert_range ss es ws stolen_range) (\<lambda>(_, leaf').
         rbind (dec edge_idx) (\<lambda>key_idx.
         rbind (update_key_at_index pks key_idx (range_start stolen_range)) (\<lambda>pks'.
           Inr (True, leaf', Leaf lss' les' lws, pks')))))
       else Inr (False, leaf, left, pks)))"

definition steal_from_right_leaf_sibling ::
  "nat \<Rightarrow> ('k::linorder) latch_node \<Rightarrow> 'k latch_node \<Rightarrow> 'k list \<Rightarrow> nat \<Rightarrow> direction \<Rightarrow>
   (bool \<times> 'k option \<times> 'k latch_node \<times> 'k latch_node \<times> 'k list) res" where
  "steal_from_right_leaf_sibling order leaf right pks edge_idx dir =
     rbind (as_leaf_node leaf) (\<lambda>(ss, es, ws).
     rbind (as_leaf_node right) (\<lambda>(rss, res, rws).
       if node_has_spare_key order right then
         rbind (steal_smallest_key order rss res) (\<lambda>(stolen_range, rss', res').
         rbind (insert_range ss es ws stolen_range) (\<lambda>(_, leaf').
         rbind (key_index edge_idx dir) (\<lambda>key_idx.
         rbind (unwrap (get_lower rss')) (\<lambda>lower.
         rbind (update_key_at_index pks key_idx lower) (\<lambda>pks'.
           Inr (True, Some (range_start stolen_range), leaf', Leaf rss' res' rws, pks'))))))
       else Inr (False, None, leaf, right, pks)))"

definition merge_node ::
  "'k latch_node \<Rightarrow> 'k list \<Rightarrow> 'k latch_node list \<Rightarrow> nat \<Rightarrow> ('k list \<times> 'k latch_node list) res" where
  "merge_node leaf pks pes edge_idx =
     rbind (as_leaf_node leaf) (\<lambda>(ss, es, ws).
     rbind (find_child_left_sibling pes edge_idx) (\<lambda>left_sibling.
       case left_sibling of
         Some left \<Rightarrow>
           rbind (as_leaf_node left) (\<lambda>(lss, les, lws).
           rbind (vec_remove (pes[edge_idx - 1 := Leaf (lss @ ss) (les @ es) lws]) edge_idx) (\<lambda>(_, pes').
           rbind (vec_remove pks (edge_idx - 1)) (\<lambda>(_, pks'). Inr (pks', pes'))))
       | None \<Rightarrow>
           rbind (find_child_right_sibling pes edge_idx) (\<lambda>right_sibling.
             case right_sibling of
               Some right \<Rightarrow>
                 rbind (as_leaf_node right) (\<lambda>(rss, res, rws).
                 rbind (vec_remove (pes[edge_idx := Leaf (ss @ rss) (es @ res) ws]) (edge_idx + 1)) (\<lambda>(_, pes').
                 rbind (vec_remove pks edge_idx) (\<lambda>(_, pks'). Inr (pks', pes'))))
             | None \<Rightarrow> Inl NotImplemented)))"

definition delete_key ::
  "nat \<Rightarrow> ('k::linorder) latch_node \<Rightarrow> 'k \<Rightarrow> ('k list \<times> 'k latch_node list \<times> nat \<times> direction) option \<Rightarrow>
   ('k option \<times> ('k list \<times> 'k latch_node list) option \<times> 'k latch_node) res" where
  "delete_key order leaf k parent_info =
     rbind (as_leaf_node leaf) (\<lambda>(ss, es, ws).
     rbind (remove_key ss es k) (\<lambda>(is_deleted, ss', es').
       let leaf1 = Leaf ss' es' ws in
       case parent_info of
         None \<Rightarrow> Inr (None, None, leaf1)
       | Some (pks, pes, edge_idx, dir) \<Rightarrow>
           if \<not> is_deleted then Inr (None, Some (pks, pes[edge_idx := leaf1]), leaf1)
           else
             rbind (find_child_right_sibling pes edge_idx) (\<lambda>right_sibling.
             rbind (find_child_left_sibling pes edge_idx) (\<lambda>left_sibling.
               if \<not> node_is_underflow order leaf1 then
                 rbind (find_next_largest_key ss' k right_sibling) (\<lambda>next_key.
                   Inr (Some next_key, Some (pks, pes[edge_idx := leaf1]), leaf1))
               else
                 rbind (case left_sibling of
                     Some left \<Rightarrow> steal_from_left_leaf_sibling order leaf1 left pks edge_idx
                   | None \<Rightarrow> Inr (False, leaf1, leaf1, pks)) (\<lambda>(stolen, leaf2, left', pks1).
                 if stolen then Inr (None, Some (pks1, pes[edge_idx := leaf2, edge_idx - 1 := left']), leaf2)
                 else
                   rbind (case right_sibling of
                       Some right \<Rightarrow> steal_from_right_leaf_sibling order leaf1 right pks edge_idx dir
                     | None \<Rightarrow> Inr (False, None, leaf1, leaf1, pks)) (\<lambda>(stolen, split_key, leaf3, right', pks2).
                   if stolen then Inr (split_key, Some (pks2, pes[edge_idx := leaf3, edge_idx + 1 := right']), leaf3)
                   else rbind (merge_node leaf1 pks pes edge_idx) (\<lambda>pr. Inr (None, Some pr, leaf1))))))))"

paragraph \<open>Internal nodes\<close>

text \<open>
  \<open>deal_with_underflow\<close> is given the parent, in which the node is at \<open>self_idx\<close>, and the index
  \<open>edge_idx\<close> that the caller passes for it. The node's own latch is held: when the index leads
  to the node itself as its sibling, taking the sibling's latch does not return.
\<close>

definition sibling_internal :: "'k latch_node option \<Rightarrow> bool \<Rightarrow> ('k list \<times> 'k latch_node list) option run" where
  "sibling_internal sibling is_self =
     (case sibling of
        None \<Rightarrow> Some (Inr None)
      | Some n \<Rightarrow> if is_self then None else Some (rbind (as_internal_node n) (\<lambda>p. Inr (Some p))))"

definition steal_from_left_sibling ::
  "nat \<Rightarrow> 'k list \<times> 'k latch_node list \<Rightarrow> 'k list \<times> 'k latch_node list \<Rightarrow> 'k list \<Rightarrow> nat \<Rightarrow>
   ((('k list \<times> 'k latch_node list) \<times> ('k list \<times> 'k latch_node list) \<times> 'k list) option) res" where
  "steal_from_left_sibling order self left pks edge_idx =
     (if \<not> length (fst left) > order div 2 then Inr None
      else
        rbind (dec edge_idx) (\<lambda>key_idx.
        rbind (vec_get pks key_idx) (\<lambda>parent_split_key.
        rbind (dec (length (snd left))) (\<lambda>last_edge.
        rbind (vec_remove (snd left) last_edge) (\<lambda>(stolen_edge, les).
        rbind (dec (length (fst left))) (\<lambda>last_key.
        rbind (vec_remove (fst left) last_key) (\<lambda>(stolen_split_key, lks).
        rbind (vec_set pks key_idx stolen_split_key) (\<lambda>pks'.
          Inr (Some ((parent_split_key # fst self, stolen_edge # snd self), (lks, les), pks'))))))))))"

definition steal_from_right_sibling ::
  "nat \<Rightarrow> 'k list \<times> 'k latch_node list \<Rightarrow> 'k list \<times> 'k latch_node list \<Rightarrow> 'k list \<Rightarrow> nat \<Rightarrow>
   ((('k list \<times> 'k latch_node list) \<times> ('k list \<times> 'k latch_node list) \<times> 'k list) option) res" where
  "steal_from_right_sibling order self right pks edge_idx =
     (if \<not> length (fst right) > order div 2 then Inr None
      else
        rbind (vec_get pks edge_idx) (\<lambda>parent_split_key.
        rbind (vec_remove (snd right) 0) (\<lambda>(stolen_edge, res).
        rbind (vec_remove (fst right) 0) (\<lambda>(stolen_key, rks).
        rbind (vec_set pks edge_idx stolen_key) (\<lambda>pks'.
          Inr (Some ((fst self @ [parent_split_key], snd self @ [stolen_edge]), (rks, res), pks')))))))"

definition internal_of :: "'k list \<times> 'k latch_node list \<Rightarrow> 'k latch_node" where
  "internal_of p = Internal (fst p) (snd p)"

text \<open>Both attempts to steal, as one method; \<open>deal_with_underflow\<close> below has the same code inline.\<close>

definition steal_from_sibling ::
  "nat \<Rightarrow> 'k list \<times> 'k latch_node list \<Rightarrow> 'k list \<Rightarrow> 'k latch_node list \<Rightarrow> nat \<Rightarrow> nat \<Rightarrow>
   (bool \<times> 'k list \<times> 'k latch_node list) run" where
  "steal_from_sibling order self pks pes self_idx edge_idx =
     run_bind (Some (find_child_left_sibling pes edge_idx)) (\<lambda>left_sibling.
     run_bind (sibling_internal left_sibling (edge_idx - 1 = self_idx)) (\<lambda>left.
     run_bind (Some (case left of
         Some l \<Rightarrow> steal_from_left_sibling order self l pks edge_idx | None \<Rightarrow> Inr None)) (\<lambda>stolen_left.
       case stolen_left of
         Some (self', left', pks') \<Rightarrow>
           Some (Inr (True, pks', pes[self_idx := internal_of self', edge_idx - 1 := internal_of left']))
       | None \<Rightarrow>
           run_bind (Some (find_child_right_sibling pes edge_idx)) (\<lambda>right_sibling.
           run_bind (sibling_internal right_sibling (edge_idx + 1 = self_idx)) (\<lambda>right.
           run_bind (Some (case right of
               Some r \<Rightarrow> steal_from_right_sibling order self r pks edge_idx | None \<Rightarrow> Inr None)) (\<lambda>stolen_right.
             case stolen_right of
               Some (self', right', pks') \<Rightarrow>
                 Some (Inr (True, pks', pes[self_idx := internal_of self', edge_idx + 1 := internal_of right']))
             | None \<Rightarrow> Some (Inr (False, pks, pes))))))))"

definition merge_with_sibling ::
  "'k list \<times> 'k latch_node list \<Rightarrow> 'k list \<Rightarrow> 'k latch_node list \<Rightarrow> nat \<Rightarrow> nat \<Rightarrow> ('k list \<times> 'k latch_node list) run" where
  "merge_with_sibling self pks pes self_idx edge_idx =
     run_bind (Some (find_child_left_sibling pes edge_idx)) (\<lambda>left_sibling.
     run_bind (sibling_internal left_sibling (edge_idx - 1 = self_idx)) (\<lambda>left.
       case left of
         Some (lks, les) \<Rightarrow>
           run_bind (Some (vec_remove pks (edge_idx - 1))) (\<lambda>(parent_split_key, pks').
           run_bind (Some (vec_remove (pes[self_idx := Internal [] [],
               edge_idx - 1 := Internal (lks @ [parent_split_key] @ fst self) (les @ snd self)]) edge_idx)) (\<lambda>(_, pes').
             Some (Inr (pks', pes'))))
       | None \<Rightarrow>
           run_bind (Some (find_child_right_sibling pes edge_idx)) (\<lambda>right_sibling.
           run_bind (sibling_internal right_sibling (edge_idx + 1 = self_idx)) (\<lambda>right.
             case right of
               Some (rks, res) \<Rightarrow>
                 run_bind (Some (vec_remove pks edge_idx)) (\<lambda>(parent_split_key, pks').
                 run_bind (Some (vec_remove (pes[edge_idx + 1 := Internal [] [],
                     self_idx := Internal (fst self @ [parent_split_key] @ rks) (snd self @ res)]) (edge_idx + 1))) (\<lambda>(_, pes').
                   Some (Inr (pks', pes'))))
             | None \<Rightarrow> Some (Inr (pks, pes))))))"

definition deal_with_underflow ::
  "nat \<Rightarrow> 'k list \<times> 'k latch_node list \<Rightarrow> 'k list \<Rightarrow> 'k latch_node list \<Rightarrow> nat \<Rightarrow> nat \<Rightarrow> ('k list \<times> 'k latch_node list) run" where
  "deal_with_underflow order self pks pes self_idx edge_idx =
     (if \<not> node_is_underflow order (internal_of self) then Some (Inr (pks, pes))
      else
        run_bind (Some (find_child_left_sibling pes edge_idx)) (\<lambda>left_sibling.
        run_bind (sibling_internal left_sibling (edge_idx - 1 = self_idx)) (\<lambda>left.
        run_bind (Some (case left of
            Some l \<Rightarrow> steal_from_left_sibling order self l pks edge_idx | None \<Rightarrow> Inr None)) (\<lambda>stolen_left.
          case stolen_left of
            Some (self', left', pks') \<Rightarrow>
              Some (Inr (pks', pes[self_idx := internal_of self', edge_idx - 1 := internal_of left']))
          | None \<Rightarrow>
              run_bind (Some (find_child_right_sibling pes edge_idx)) (\<lambda>right_sibling.
              run_bind (sibling_internal right_sibling (edge_idx + 1 = self_idx)) (\<lambda>right.
              run_bind (Some (case right of
                  Some r \<Rightarrow> steal_from_right_sibling order self r pks edge_idx | None \<Rightarrow> Inr None)) (\<lambda>stolen_right.
                case stolen_right of
                  Some (self', right', pks') \<Rightarrow>
                    Some (Inr (pks', pes[self_idx := internal_of self', edge_idx + 1 := internal_of right']))
                | None \<Rightarrow> merge_with_sibling self pks pes self_idx edge_idx)))))))"

definition find_edge :: "('k::linorder) list \<Rightarrow> 'k \<Rightarrow> (nat \<times> direction) res" where
  "find_edge ks k =
     (if ks = [] then Inl UnwrapNone
      else let idx = first_index (\<lambda>x. k < x) ks in
        if idx < length ks then Inr (idx, GoLeft) else Inr (idx, GoRight))"

lemma run_bind_cong [fundef_cong]:
  "r = r' \<Longrightarrow> (\<And>x. r' = Some (Inr x) \<Longrightarrow> f x = f' x) \<Longrightarrow> run_bind r f = run_bind r' f'"
  by (cases r'; cases "the r'") auto

text \<open>
  With a parent, the result has the parent's keys and edges with the node in place; without one it
  has the node.
\<close>

function delete_helper ::
  "nat \<Rightarrow> ('k::linorder) \<Rightarrow> ('k list \<times> 'k latch_node list \<times> nat \<times> direction) option \<Rightarrow> 'k latch_node \<Rightarrow> bool \<Rightarrow>
   ('k option \<times> ('k list \<times> 'k latch_node list) option \<times> 'k latch_node) run" where
  "delete_helper order k parent_info (Internal ks es) is_ancestor_safe =
     run_bind (Some (find_edge ks k)) (\<lambda>(edge_idx, dir).
     run_bind (Some (vec_get es edge_idx)) (\<lambda>next_node.
     run_bind (Some (key_index edge_idx dir)) (\<lambda>key_idx.
     run_bind (Some (vec_get ks key_idx)) (\<lambda>edge_key.
       let is_edge_key_the_delete_key = (edge_key = k);
           put = (\<lambda>n. map_option (\<lambda>(pks, pes, self_idx, _). (pks, pes[self_idx := n])) parent_info)
       in
       if node_has_spare_key order next_node \<and> \<not> is_edge_key_the_delete_key \<and> is_ancestor_safe then
         run_bind (delete_helper order k None next_node True) (\<lambda>(split_key, _, next').
           let n = Internal ks (es[edge_idx := next']) in Some (Inr (split_key, put n, n)))
       else
         run_bind (delete_helper order k (Some (ks, es, edge_idx, dir)) next_node
                     (\<not> is_edge_key_the_delete_key \<and> is_ancestor_safe)) (\<lambda>(split_key, own, _).
         run_bind (Some (unwrap own)) (\<lambda>(ks', es').
           let n = Internal ks' es' in
           case parent_info of
             None \<Rightarrow> Some (Inr (split_key, None, n))
           | Some (pks, pes, self_idx, _) \<Rightarrow>
               run_bind (Some (case split_key of Some s \<Rightarrow> update_key_at_index pks key_idx s | None \<Rightarrow> Inr pks)) (\<lambda>pks1.
               run_bind (deal_with_underflow order (ks', es') pks1 (pes[self_idx := n]) self_idx edge_idx) (\<lambda>pr.
                 Some (Inr (split_key, Some pr, n))))))))))"
| "delete_helper order k parent_info (Leaf ss es ws) is_ancestor_safe =
     Some (delete_key order (Leaf ss es ws) k parent_info)"
  by pat_completeness auto
termination
  by (relation "measure (\<lambda>(order, k, p, n, safe). size n)") (auto dest: child_size)

declare delete_helper.simps [simp del]

definition btree_delete :: "('k::linorder) btree \<Rightarrow> 'k \<Rightarrow> 'k btree run" where
  "btree_delete t k =
     run_bind (delete_helper (btree_order t) k None (btree_root t) True) (\<lambda>(_, _, root').
       case root' of
         Internal ks es \<Rightarrow>
           if ks = [] then run_bind (Some (vec_get es 0)) (\<lambda>n. Some (Inr (t\<lparr>btree_root := n\<rparr>)))
           else Some (Inr (t\<lparr>btree_root := root'\<rparr>))
       | Leaf _ _ _ \<Rightarrow> Some (Inr (t\<lparr>btree_root := root'\<rparr>)))"

end
