(* ===== verification/Latch_Insert.thy ===== *)
theory Latch_Insert
  imports Latch_Tree
begin

text \<open>
  The shape of the latch tree, and insertion into it. \<open>ok order h lo hi n\<close>: the node \<open>n\<close> has
  height \<open>h\<close> and fewer than \<open>order\<close> keys per node, and its keys lie between the bounds, the lower
  one included. Insertion keeps the shape and adds exactly the new latch.
\<close>

subsection \<open>Vectors\<close>

lemma first_index_append:
  assumes "\<forall>y \<in> set ys. \<not> P y" "zs = [] \<or> P (hd zs)"
  shows "first_index P (ys @ zs) = length ys"
  using assms by (cases zs) (auto simp: first_index_def takeWhile_append takeWhile_eq_all_conv[THEN iffD2])

lemma first_index_split:
  obtains ys zs where "xs = ys @ zs" "first_index P xs = length ys" "\<forall>y \<in> set ys. \<not> P y" "zs = [] \<or> P (hd zs)"
proof
  let ?ys = "takeWhile (\<lambda>x. \<not> P x) xs" and ?zs = "dropWhile (\<lambda>x. \<not> P x) xs"
  show "xs = ?ys @ ?zs" by simp
  show "first_index P xs = length ?ys" by (simp add: first_index_def)
  show "\<forall>y \<in> set ?ys. \<not> P y" by (auto dest: set_takeWhileD)
  show "?zs = [] \<or> P (hd ?zs)" using hd_dropWhile[of "\<lambda>x. \<not> P x" xs] by blast
qed

lemma first_index_less: "first_index P xs < length xs \<longleftrightarrow> (\<exists>x \<in> set xs. P x)"
  by (induction xs) (auto simp: first_index_def)

lemma vec_append [simp]:
  "vec_insert (ys @ zs) (length ys) x = Inr (ys @ x # zs)"
  "vec_split_off (ys @ zs) (length ys) = Inr (ys, zs)"
  "vec_remove (x # zs) 0 = Inr (x, zs)"
  by (simp_all add: vec_insert_def vec_split_off_def vec_remove_def)

lemma split_at:
  assumes "i \<le> length xs"
  obtains ys zs where "xs = ys @ zs" "length ys = i"
  using that[of "take i xs" "drop i xs"] assms by simp

subsection \<open>Bounds\<close>

definition above :: "('k::linorder) option \<Rightarrow> 'k \<Rightarrow> bool" where
  "above lo k \<longleftrightarrow> (case lo of None \<Rightarrow> True | Some l \<Rightarrow> l \<le> k)"

definition sabove :: "('k::linorder) option \<Rightarrow> 'k \<Rightarrow> bool" where
  "sabove lo k \<longleftrightarrow> (case lo of None \<Rightarrow> True | Some l \<Rightarrow> l < k)"

definition below :: "('k::linorder) option \<Rightarrow> 'k \<Rightarrow> bool" where
  "below hi k \<longleftrightarrow> (case hi of None \<Rightarrow> True | Some h \<Rightarrow> k < h)"

lemma bounds_simps [simp]:
  "above None k" "above (Some l) k \<longleftrightarrow> l \<le> k" "sabove None k" "sabove (Some l) k \<longleftrightarrow> l < k"
  "below None k" "below (Some h) k \<longleftrightarrow> k < h"
  by (simp_all add: above_def sabove_def below_def)

lemma above_less: "above lo k \<Longrightarrow> k < k' \<Longrightarrow> sabove lo k'"
  by (cases lo) auto

lemma sabove_above: "sabove lo k \<Longrightarrow> k \<le> k' \<Longrightarrow> above lo k'"
  by (cases lo) auto

lemma below_less: "below hi k \<Longrightarrow> k' < k \<Longrightarrow> below hi k'"
  by (cases hi) auto

text \<open>The children of an internal node between its keys, and the part of them before a key.\<close>

fun chain ::
  "(('k::linorder) option \<Rightarrow> 'k option \<Rightarrow> 'a \<Rightarrow> bool) \<Rightarrow> 'k option \<Rightarrow> 'k list \<Rightarrow> 'a list \<Rightarrow> 'k option \<Rightarrow> bool" where
  "chain P lo [] [e] hi \<longleftrightarrow> P lo hi e"
| "chain P lo (k # ks) (e # es) hi \<longleftrightarrow>
     P lo (Some k) e \<and> sabove lo k \<and> below hi k \<and> chain P (Some k) ks es hi"
| "chain P lo _ _ hi \<longleftrightarrow> False"

fun chain_prefix ::
  "(('k::linorder) option \<Rightarrow> 'k option \<Rightarrow> 'a \<Rightarrow> bool) \<Rightarrow> 'k option \<Rightarrow> 'k list \<Rightarrow> 'a list \<Rightarrow> 'k option \<Rightarrow> bool" where
  "chain_prefix P lo [] [] hi \<longleftrightarrow> True"
| "chain_prefix P lo (k # ks) (e # es) hi \<longleftrightarrow>
     P lo (Some k) e \<and> sabove lo k \<and> below hi k \<and> chain_prefix P (Some k) ks es hi"
| "chain_prefix P lo _ _ hi \<longleftrightarrow> False"

definition last_bound :: "'k option \<Rightarrow> 'k list \<Rightarrow> 'k option" where
  "last_bound lo ks = (if ks = [] then lo else Some (last ks))"

lemma last_bound_simps [simp]: "last_bound lo [] = lo" "last_bound lo (k # ks) = last_bound (Some k) ks"
  by (simp_all add: last_bound_def)

lemma chain_length: "chain P lo ks es hi \<Longrightarrow> length es = Suc (length ks)"
  by (induction P lo ks es hi rule: chain.induct) auto

lemma chain_elem: "chain P lo ks es hi \<Longrightarrow> e \<in> set es \<Longrightarrow> \<exists>lo' hi'. P lo' hi' e"
  by (induction P lo ks es hi rule: chain.induct) auto

lemma chain_at:
  assumes "length es1 = length ks1"
  shows "chain P lo (ks1 @ ks2) (es1 @ es2) hi \<longleftrightarrow>
    chain_prefix P lo ks1 es1 hi \<and> chain P (last_bound lo ks1) ks2 es2 hi"
  using assms by (induction es1 ks1 arbitrary: lo rule: list_induct2) auto

lemma chain_cut:
  assumes "length es1 = length ks1"
  shows "chain P lo (ks1 @ k # ks2) (es1 @ e # es2) hi \<longleftrightarrow>
    chain P lo ks1 (es1 @ [e]) (Some k) \<and> sabove lo k \<and> below hi k \<and> chain P (Some k) ks2 es2 hi"
  using assms
proof (induction es1 ks1 arbitrary: lo rule: list_induct2)
  case (Cons x xs y ys)
  then show ?case by (cases lo; cases hi) auto
qed auto

lemma chain_prefix_bounds:
  "chain_prefix P lo ks es hi \<Longrightarrow> k \<in> set ks \<Longrightarrow> sabove lo k \<and> below hi k"
proof (induction P lo ks es hi rule: chain_prefix.induct)
  case (2 P lo k' ks e es hi)
  then show ?case by (cases lo) auto
qed auto

lemma chain_prefix_last:
  "chain_prefix P lo ks es hi \<Longrightarrow> k \<in> set ks \<Longrightarrow> above (last_bound lo ks) m \<Longrightarrow> k \<le> m"
proof (induction P lo ks es hi rule: chain_prefix.induct)
  case (2 P lo k' ks e es hi)
  then show ?case using chain_prefix_bounds[of P "Some k'" ks es hi "last ks"]
    by (cases "ks = []") (force simp: last_bound_def)+
qed auto

text \<open>A child of the chain, with the key above it, if any.\<close>

lemma chain_head:
  "chain P lo ks (e # es) hi \<longleftrightarrow>
     (case ks of
        [] \<Rightarrow> es = [] \<and> P lo hi e
      | k # ks' \<Rightarrow> P lo (Some k) e \<and> sabove lo k \<and> below hi k \<and> chain P (Some k) ks' es hi)"
  by (cases ks; cases es) auto

subsection \<open>Shape\<close>

primrec ok :: "nat \<Rightarrow> nat \<Rightarrow> nat \<Rightarrow> ('k::linorder) option \<Rightarrow> 'k option \<Rightarrow> 'k latch_node \<Rightarrow> bool" where
  "ok order 0 cap lo hi n =
     (case n of
        Leaf ss es ws \<Rightarrow>
          sorted_wrt (<) ss \<and> (\<forall>k \<in> set ss. above lo k \<and> below hi k) \<and> length es = length ss \<and> length ws = 1 \<and>
          length ss < cap \<and> (ss = [] \<longrightarrow> lo = None \<and> hi = None)
      | Internal _ _ \<Rightarrow> False)"
| "ok order (Suc h) cap lo hi n =
     (case n of
        Leaf _ _ _ \<Rightarrow> False
      | Internal ks es \<Rightarrow> ks \<noteq> [] \<and> length ks < cap \<and> chain (ok order h order) lo ks es hi)"

fun latches :: "'k latch_node \<Rightarrow> ('k \<times> 'k) set" where
  "latches (Leaf ss es _) = set (zip ss es)"
| "latches (Internal ks es) = \<Union> (latches ` set es)"

fun held :: "'k latch_node \<Rightarrow> 'k set" where
  "held (Leaf ss es _) = set ss"
| "held (Internal ks es) = \<Union> (held ` set es)"

lemma ok_Leaf:
  "ok order h cap lo hi (Leaf ss es ws) \<longleftrightarrow>
     h = 0 \<and> sorted_wrt (<) ss \<and> (\<forall>k \<in> set ss. above lo k \<and> below hi k) \<and> length es = length ss \<and>
     length ws = 1 \<and> length ss < cap \<and> (ss = [] \<longrightarrow> lo = None \<and> hi = None)"
  by (cases h) auto

lemma ok_Internal:
  "ok order h cap lo hi (Internal ks es) \<longleftrightarrow>
     (\<exists>h'. h = Suc h' \<and> ks \<noteq> [] \<and> length ks < cap \<and> chain (ok order h' order) lo ks es hi)"
  by (cases h) auto

lemma ok_cap: "ok order h cap lo hi n \<Longrightarrow> size_of n < cap' \<Longrightarrow> ok order h cap' lo hi n"
  by (cases h) (auto simp: size_of_def split: latch_node.splits)

lemma chain_bounds:
  assumes "\<And>lo' hi' e x. P lo' hi' e \<Longrightarrow> x \<in> A e \<Longrightarrow> above lo' x \<and> below hi' x"
  shows "chain P lo ks es hi \<Longrightarrow> e \<in> set es \<Longrightarrow> x \<in> A e \<Longrightarrow> above lo x \<and> below hi x"
  using assms
proof (induction P lo ks es hi rule: chain.induct)
  case (2 P lo k ks e' es hi)
  then show ?case using sabove_above[of lo k x] below_less[of hi k x] by fastforce
qed auto

lemma chain_prefix_elems:
  assumes "\<And>lo' hi' e x. P lo' hi' e \<Longrightarrow> x \<in> A e \<Longrightarrow> above lo' x \<and> below hi' x"
  shows "chain_prefix P lo ks es hi \<Longrightarrow> e \<in> set es \<Longrightarrow> x \<in> A e \<Longrightarrow> \<exists>k \<in> set ks. x < k"
  using assms by (induction P lo ks es hi rule: chain_prefix.induct) fastforce+

lemma ok_bounds: "ok order h cap lo hi n \<Longrightarrow> k \<in> held n \<Longrightarrow> above lo k \<and> below hi k"
proof (induction h arbitrary: cap lo hi n k)
  case 0
  then show ?case by (cases n) auto
next
  case (Suc h)
  then obtain ks es where n: "n = Internal ks es" and ch: "chain (ok order h order) lo ks es hi"
    by (cases n) auto
  from Suc.prems(2) obtain e where "e \<in> set es" "k \<in> held e" by (auto simp: n)
  with chain_bounds[of "ok order h order" held lo ks es hi e k] ch Suc.IH show ?case by blast
qed

text \<open>A key lies below the edge that the search for it takes, or not at all.\<close>

lemma edge_elem:
  assumes "chain (ok order h order) lo (ks1 @ ks2) (es1 @ e # es2) hi" "length es1 = length ks1"
    and "\<forall>k \<in> set ks1. \<not> s < k" "ks2 = [] \<or> s < hd ks2" and "\<And>x. A x \<subseteq> held x"
  shows "s \<in> \<Union> (A ` set (es1 @ e # es2)) \<longleftrightarrow> s \<in> A e"
proof -
  have pre: "chain_prefix (ok order h order) lo ks1 es1 hi" and tail: "chain (ok order h order) (last_bound lo ks1) ks2 (e # es2) hi"
    using assms by (simp_all add: chain_at)
  have "s \<notin> held x" if "x \<in> set es1" for x
    using chain_prefix_elems[of "ok order h order" held lo ks1 es1 hi x s] ok_bounds pre that assms(3) by blast
  moreover have "s \<notin> held x" if "x \<in> set es2" for x
  proof (cases ks2)
    case Nil
    with tail that show ?thesis by (simp add: chain_head)
  next
    case (Cons k ks')
    with tail have "chain (ok order h order) (Some k) ks' es2 hi" by simp
    then have "above (Some k) s" if "s \<in> held x"
      using chain_bounds[of "ok order h order" held "Some k" ks' es2 hi x s] ok_bounds that \<open>x \<in> set es2\<close> by blast
    with Cons assms(4) show ?thesis by auto
  qed
  ultimately show ?thesis using assms(5) by auto
qed

text \<open>The bounds of the edge that the search for \<open>s\<close> takes.\<close>

definition edge_upper :: "'k list \<Rightarrow> 'k option \<Rightarrow> 'k option" where
  "edge_upper ks hi = (case ks of [] \<Rightarrow> hi | k # _ \<Rightarrow> Some k)"

lemma edge_bounds:
  assumes "chain P lo (ks1 @ ks2) (es1 @ e # es2) hi" "length es1 = length ks1"
    and "\<forall>k \<in> set ks1. \<not> s < k" "ks2 = [] \<or> s < hd ks2" "above lo s" "below hi s"
  shows "P (last_bound lo ks1) (edge_upper ks2 hi) e" "above (last_bound lo ks1) s" "below (edge_upper ks2 hi) s"
  using assms by (auto simp: chain_at chain_head edge_upper_def last_bound_def not_less split: list.splits)

lemma edge_replace:
  assumes "chain P lo (ks1 @ ks2) (es1 @ e # es2) hi" "length es1 = length ks1"
    and "P (last_bound lo ks1) (edge_upper ks2 hi) e'"
  shows "chain P lo (ks1 @ ks2) (es1 @ e' # es2) hi"
  using assms by (auto simp: chain_at chain_head edge_upper_def split: list.splits)

lemma edge_grow:
  assumes "chain P lo (ks1 @ ks2) (es1 @ e # es2) hi" "length es1 = length ks1"
    and "P (last_bound lo ks1) (Some m) l" "P (Some m) (edge_upper ks2 hi) r"
    and "sabove (last_bound lo ks1) m" "below (edge_upper ks2 hi) m"
  shows "chain P lo (ks1 @ m # ks2) (es1 @ l # r # es2) hi"
  using assms below_less[of hi "hd ks2" m]
  by (auto simp: chain_at chain_head edge_upper_def split: list.splits)

lemma edge_insert_index:
  assumes "chain P lo (ks1 @ ks2) (es1 @ e # es2) hi" "length es1 = length ks1"
    and "sabove (last_bound lo ks1) m" "below (edge_upper ks2 hi) m"
  shows "first_index (\<lambda>k. m < k) (ks1 @ ks2) = length ks1"
proof (rule first_index_append)
  show "\<forall>y \<in> set ks1. \<not> m < y"
    using chain_prefix_last[of P lo ks1 es1 hi _ m] assms sabove_above[of "last_bound lo ks1" m m]
    by (auto simp: chain_at not_less)
  show "ks2 = [] \<or> m < hd ks2"
    using assms(4) by (cases ks2) (auto simp: edge_upper_def)
qed

subsection \<open>Splitting\<close>

lemma leaf_split_ok:
  assumes "ok order h (Suc order) lo hi (Leaf ss es ws)" "length ss = order" "3 \<le> order"
  shows "\<exists>l r m. leaf_split ss es ws = Inr (l, r, m) \<and> ok order h order lo (Some m) l \<and> ok order h order (Some m) hi r \<and>
    sabove lo m \<and> below hi m \<and> latches l \<union> latches r = latches (Leaf ss es ws)"
proof -
  have len: "length es = length ss" using assms(1) by (simp add: ok_Leaf)
  obtain xs ys where ss: "ss = xs @ ys" and xs: "length xs = order div 2"
    using split_at[of "order div 2" ss] assms(2) by auto
  obtain xs' ys' where es: "es = xs' @ ys'" and xs': "length xs' = order div 2"
    using split_at[of "order div 2" es] len assms(2) by auto
  have "length xs + length ys = order" using ss assms(2) by simp
  with xs have "0 < length xs" "0 < length ys" using assms(3) by presburger+
  then obtain x xt m yt where xm: "xs = x # xt" "ys = m # yt"
    by (cases xs; cases ys) auto
  have len': "length xs' = length xs" "length ys' = length ys" using len ss es xs xs' by simp_all
  have sp: "leaf_split ss es ws = Inr (Leaf xs xs' ws, Leaf ys ys' [0], m)"
    unfolding leaf_split_def Let_def assms(2)
    using vec_append(2)[of xs ys] vec_append(2)[of xs' ys'] xs xs'
    by (simp add: ss es vec_get_def xm(2))
  have b: "sorted_wrt (<) (xs @ ys)" "\<forall>k \<in> set (xs @ ys). above lo k \<and> below hi k" "h = 0" "length ws = 1"
    using assms(1) by (simp_all add: ok_Leaf ss)
  then have "\<forall>k \<in> set xs. k < m" "\<forall>k \<in> set ys. m \<le> k" "sabove lo m" "below hi m"
    using above_less[of lo x m] by (auto simp: sorted_wrt_append xm)
  with b sp len' assms(2) \<open>0 < length xs\<close> \<open>0 < length ys\<close> show ?thesis
    by (auto simp: ok_Leaf sorted_wrt_append ss es)
qed

lemma internal_split_ok:
  assumes "ok order h (Suc order) lo hi (Internal ks es)" "length ks = order" "3 \<le> order"
  shows "\<exists>l r m. internal_split ks es = Inr (l, r, m) \<and> ok order h order lo (Some m) l \<and> ok order h order (Some m) hi r \<and>
    sabove lo m \<and> below hi m \<and> latches l \<union> latches r = latches (Internal ks es)"
proof -
  obtain h' where h: "h = Suc h'" and ch: "chain (ok order h' order) lo ks es hi"
    using assms(1) by (auto simp: ok_Internal)
  obtain xs ys where ks: "ks = xs @ ys" and xs: "length xs = order div 2"
    using split_at[of "order div 2" ks] assms(2) by auto
  have "length xs + length ys = order" using ks assms(2) by simp
  with xs have "1 \<le> length xs" "2 \<le> length ys" using assms(3) by presburger+
  then obtain m yt where ys: "ys = m # yt" and ne: "xs \<noteq> []" "yt \<noteq> []"
    by (cases ys) (auto simp: Suc_le_eq)
  obtain es1 es' where es: "es = es1 @ es'" and es1: "length es1 = length xs"
    using split_at[of "length xs" es] chain_length[OF ch] ks by auto
  obtain e es2 where es': "es' = e # es2"
    using chain_length[OF ch] es es1 ks ys by (cases es') auto
  have "chain (ok order h' order) lo xs (es1 @ [e]) (Some m)" "chain (ok order h' order) (Some m) yt es2 hi" "sabove lo m" "below hi m"
    using ch chain_cut[OF es1] by (auto simp: ks ys es es')
  moreover have "internal_split ks es = Inr (Internal xs (es1 @ [e]), Internal yt es2, m)"
    unfolding internal_split_def Let_def assms(2)
    using vec_append(2)[of xs ys] vec_append(2)[of "es1 @ [e]" es2] xs es1
    by (simp add: ks es es' ys)
  moreover have "latches (Internal xs (es1 @ [e])) \<union> latches (Internal yt es2) = latches (Internal ks es)"
    by (auto simp: es es')
  ultimately show ?thesis
    using assms(2,3) ne ks ys by (auto simp: h)
qed

lemma node_split_ok:
  assumes "ok order h (Suc order) lo hi n" "size_of n = order" "3 \<le> order"
  obtains l r m where "node_split n = Inr (l, r, m)" "ok order h order lo (Some m) l" "ok order h order (Some m) hi r"
    "sabove lo m" "below hi m" "latches l \<union> latches r = latches n"
proof (cases n)
  case (Internal ks es)
  then show ?thesis using internal_split_ok[of order h lo hi ks es] assms that by (auto simp: node_split_def size_of_def)
next
  case (Leaf ss es ws)
  then show ?thesis using leaf_split_ok[of order h lo hi ss es ws] assms that by (auto simp: node_split_def size_of_def)
qed

subsection \<open>Insertion\<close>

text \<open>
  A leaf is created with a single queue for waiters, which serves its first key. The first keys of the
  leaves are the ones whose latch another request can wait for.
\<close>

fun leaf_firsts :: "'k latch_node \<Rightarrow> 'k set" where
  "leaf_firsts (Leaf ss es ws) = set (take 1 ss)"
| "leaf_firsts (Internal ks es) = \<Union> (leaf_firsts ` set es)"

lemma ok_size: "ok order h cap lo hi n \<Longrightarrow> size_of n < cap"
  by (cases h; cases n) (auto simp: size_of_def)

lemma insert_range_new:
  assumes "ok order h order lo hi (Leaf ss es ws)" "above lo (range_start r)" "below hi (range_start r)"
    and "range_start r \<notin> set ss"
  shows "\<exists>l. insert_range ss es ws r = Inr (Acquired, l) \<and> ok order h (Suc order) lo hi l \<and>
    latches l = insert (range_start r, range_end r) (set (zip ss es)) \<and> size_of l = Suc (length ss)"
proof -
  have o: "sorted_wrt (<) ss" "\<forall>k \<in> set ss. above lo k \<and> below hi k" "length es = length ss" "length ws = 1" "h = 0"
      "length ss < order"
    using assms(1) by (simp_all add: ok_Leaf)
  obtain xs ys where ss: "ss = xs @ ys" and idx: "first_index (\<lambda>k. range_start r < k) ss = length xs"
    and xs: "\<forall>y \<in> set xs. \<not> range_start r < y" and ys: "ys = [] \<or> range_start r < hd ys"
    by (rule first_index_split)
  obtain xs' ys' where es: "es = xs' @ ys'" and xs': "length xs' = length xs"
    using split_at[of "length xs" es] o(3) ss by auto
  have "\<forall>y \<in> set xs. y < range_start r" using xs assms(4) ss by (auto simp: not_less le_less)
  moreover have "\<forall>y \<in> set ys. range_start r < y" using ys o(1) by (cases ys) (auto simp: ss sorted_wrt_append)
  moreover have "\<not> first_index (\<lambda>k. k = range_start r) ss < length ss" using assms(4) by (auto simp: first_index_less)
  then have "insert_range ss es ws r = Inr (Acquired, Leaf (xs @ range_start r # ys) (xs' @ range_end r # ys') ws)"
    using idx vec_append(1)[of xs' ys'] xs' by (simp add: insert_range_def Let_def) (simp add: ss es)
  ultimately show ?thesis
    using o assms(2,3) xs' by (auto simp: ok_Leaf ss es sorted_wrt_append size_of_def)
qed

lemma insert_range_held:
  assumes "ok order h order lo hi (Leaf ss es ws)" "range_start r \<in> set ss"
  shows "insert_range ss es ws r =
    (if range_start r \<in> set (take 1 ss) then Inr (NotAcquired, Leaf ss es (ws[0 := ws ! 0 + 1])) else Inl OutOfBounds)"
proof -
  have ws: "length ws = 1" using assms(1) by (simp add: ok_Leaf)
  have "first_index (\<lambda>k. k = range_start r) ss < length ss" using assms(2) by (auto simp: first_index_less)
  moreover have "first_index (\<lambda>k. k = range_start r) ss = 0 \<longleftrightarrow> range_start r \<in> set (take 1 ss)"
    using assms(2) by (cases ss) (auto simp: first_index_def)
  ultimately show ?thesis
    using ws by (auto simp: insert_range_def Let_def vec_get_def)
qed

text \<open>What a call of \<open>insert_helper\<close> on the subtree \<open>n\<close> results in.\<close>

definition insert_post ::
  "nat \<Rightarrow> bool \<Rightarrow> nat \<Rightarrow> ('k::linorder) option \<Rightarrow> 'k option \<Rightarrow> 'k latch_node \<Rightarrow> 'k range \<Rightarrow>
   (latch_key_guard \<times> 'k latch_node \<times> ('k latch_node \<times> 'k) option \<times> 'k latch_node option) res \<Rightarrow> bool" where
  "insert_post order hp h lo hi n r res \<longleftrightarrow>
     (if range_start r \<in> held n then
        (if range_start r \<in> leaf_firsts n
         then \<exists>n'. res = Inr (NotAcquired, n', None, None) \<and> ok order h order lo hi n' \<and> latches n' = latches n
         else res = Inl OutOfBounds)
      else \<exists>n' sp nr. res = Inr (Acquired, n', sp, nr) \<and>
        (let new = insert (range_start r, range_end r) (latches n) in
         case sp of
           None \<Rightarrow>
             (case nr of
                None \<Rightarrow> ok order h order lo hi n' \<and> latches n' = new
              | Some x \<Rightarrow> \<not> hp \<and> size_of n = order - 1 \<and> ok order (Suc h) order lo hi x \<and> latches x = new)
         | Some (right, m) \<Rightarrow>
             hp \<and> nr = None \<and> ok order h order lo (Some m) n' \<and> ok order h order (Some m) hi right \<and>
             sabove lo m \<and> below hi m \<and> latches n' \<union> latches right = new))"

lemma split_if_full_post:
  assumes "ok order h (Suc order) lo hi n'" "3 \<le> order" "range_start r \<notin> held n"
    and "latches n' = insert (range_start r, range_end r) (latches n)" "size_of n' \<le> Suc (size_of n)" "size_of n < order"
  shows "insert_post order hp h lo hi n r (split_if_full order hp Acquired n' None)"
proof (cases "size_of n' < order")
  case True
  with assms ok_cap[OF assms(1)] show ?thesis by (simp add: insert_post_def split_if_full_def)
next
  case False
  with assms(5,6) have full: "size_of n' = order" and "size_of n = order - 1" by simp_all
  obtain l right m where "node_split n' = Inr (l, right, m)" "ok order h order lo (Some m) l" "ok order h order (Some m) hi right"
    "sabove lo m" "below hi m" "latches l \<union> latches right = latches n'"
    by (rule node_split_ok[OF assms(1) full assms(2)])
  with assms full \<open>size_of n = order - 1\<close> show ?thesis
    by (simp add: insert_post_def split_if_full_def)
qed

lemma insert_leaf_post:
  assumes "ok order h order lo hi (Leaf ss es ws)" "above lo (range_start r)" "below hi (range_start r)" "3 \<le> order"
  shows "insert_post order hp h lo hi (Leaf ss es ws) r (insert_helper order hp (Leaf ss es ws) r)"
proof -
  have len: "length es = length ss" "length ss < order" "length ws = 1" using assms(1) by (simp_all add: ok_Leaf)
  show ?thesis
  proof (cases "range_start r \<in> set ss")
    case True
    then show ?thesis using assms(1) insert_range_held[OF assms(1) True] len
      by (auto simp: insert_post_def insert_helper.simps split_if_full_def ok_Leaf)
  next
    case False
    from insert_range_new[OF assms(1-3) False] obtain l where
      "insert_range ss es ws r = Inr (Acquired, l)" "ok order h (Suc order) lo hi l"
      "latches l = insert (range_start r, range_end r) (set (zip ss es))" "size_of l = Suc (length ss)" by blast
    then show ?thesis
      using split_if_full_post[of order h lo hi l r "Leaf ss es ws" hp] assms(4) False len
      by (simp add: insert_helper.simps size_of_def)
  qed
qed

lemma leaf_firsts_held: "leaf_firsts n \<subseteq> held n"
  by (induction n) (auto dest: in_set_takeD)

text \<open>
  At an internal node: \<open>at_edge\<close> collects that the search for \<open>s\<close> takes the edge \<open>e\<close> with the keys
  \<open>ks1\<close> before and \<open>ks2\<close> after it.
\<close>

definition at_edge ::
  "nat \<Rightarrow> nat \<Rightarrow> ('k::linorder) option \<Rightarrow> 'k option \<Rightarrow> 'k \<Rightarrow> 'k list \<Rightarrow> 'k list \<Rightarrow>
   'k latch_node list \<Rightarrow> 'k latch_node \<Rightarrow> 'k latch_node list \<Rightarrow> bool" where
  "at_edge order h lo hi s ks1 ks2 es1 e es2 \<longleftrightarrow>
     ok order (Suc h) order lo hi (Internal (ks1 @ ks2) (es1 @ e # es2)) \<and> length es1 = length ks1 \<and>
     (\<forall>k \<in> set ks1. \<not> s < k) \<and> (ks2 = [] \<or> s < hd ks2) \<and> above lo s \<and> below hi s"

lemma at_edgeI:
  assumes "ok order (Suc h) order lo hi n" "above lo s" "below hi s"
  obtains ks1 ks2 es1 e es2 where "n = Internal (ks1 @ ks2) (es1 @ e # es2)" "at_edge order h lo hi s ks1 ks2 es1 e es2"
proof -
  from assms(1) obtain ks es where n: "n = Internal ks es" and ch: "chain (ok order h order) lo ks es hi"
    by (cases n) auto
  obtain ks1 ks2 where k12: "ks = ks1 @ ks2" and k: "\<forall>y \<in> set ks1. \<not> s < y" "ks2 = [] \<or> s < hd ks2"
    by (rule first_index_split[of ks "\<lambda>k. s < k"])
  obtain es1 es' where es: "es = es1 @ es'" and e1: "length es1 = length ks1"
    using split_at[of "length ks1" es] chain_length[OF ch] k12 by auto
  obtain e es2 where "es' = e # es2"
    using chain_length[OF ch] es e1 k12 by (cases es') auto
  with that[of ks1 ks2 es1 e es2] assms n k12 k es e1 show ?thesis by (simp add: at_edge_def)
qed

lemma at_edgeD:
  assumes "at_edge order h lo hi s ks1 ks2 es1 e es2"
  shows "ok order h order (last_bound lo ks1) (edge_upper ks2 hi) e" "above (last_bound lo ks1) s"
    "below (edge_upper ks2 hi) s" "first_index (\<lambda>k. s < k) (ks1 @ ks2) = length es1" "ks1 @ ks2 \<noteq> []" "length (ks1 @ ks2) < order"
    "s \<in> held (Internal ks (es1 @ e # es2)) \<longleftrightarrow> s \<in> held e" "s \<in> leaf_firsts (Internal ks (es1 @ e # es2)) \<longleftrightarrow> s \<in> leaf_firsts e"
  using assms edge_bounds[of "ok order h order" lo ks1 ks2 es1 e es2 hi s]
    edge_elem[of order h lo ks1 ks2 es1 e es2 hi s held] edge_elem[of order h lo ks1 ks2 es1 e es2 hi s leaf_firsts]
    leaf_firsts_held first_index_append[of ks1 "\<lambda>k. s < k" ks2]
  by (auto simp: at_edge_def)

lemma at_edge_replace:
  assumes "at_edge order h lo hi s ks1 ks2 es1 e es2" "ok order h order (last_bound lo ks1) (edge_upper ks2 hi) e'"
  shows "ok order (Suc h) order lo hi (Internal (ks1 @ ks2) (es1 @ e' # es2))"
  using assms edge_replace[of "ok order h order" lo ks1 ks2 es1 e es2 hi e'] by (simp add: at_edge_def)

lemma at_edge_grow:
  assumes "at_edge order h lo hi s ks1 ks2 es1 e es2"
    and "ok order h order (last_bound lo ks1) (Some m) l" "ok order h order (Some m) (edge_upper ks2 hi) r"
    and "sabove (last_bound lo ks1) m" "below (edge_upper ks2 hi) m"
  shows "ok order (Suc h) (Suc order) lo hi (Internal (ks1 @ m # ks2) (es1 @ l # r # es2))"
    and "internal_insert_node (ks1 @ ks2) (es1 @ l # es2) r m = Inr (ks1 @ m # ks2, es1 @ l # r # es2)"
proof -
  have ch: "chain (ok order h order) lo (ks1 @ ks2) (es1 @ e # es2) hi" and e1: "length es1 = length ks1"
    and len: "length (ks1 @ ks2) < order"
    using assms(1) by (auto simp: at_edge_def)
  show "ok order (Suc h) (Suc order) lo hi (Internal (ks1 @ m # ks2) (es1 @ l # r # es2))"
    using edge_grow[OF ch e1 assms(2-)] len by simp
  show "internal_insert_node (ks1 @ ks2) (es1 @ l # es2) r m = Inr (ks1 @ m # ks2, es1 @ l # r # es2)"
    using edge_insert_index[OF ch e1 assms(4,5)] vec_append(1)[of "es1 @ [l]" es2 r] e1
    by (simp add: internal_insert_node_def Let_def)
qed

lemma insert_helper_at_edge:
  assumes "at_edge order h lo hi (range_start r) ks1 ks2 es1 e es2" "3 \<le> order"
  shows "insert_helper order hp (Internal (ks1 @ ks2) (es1 @ e # es2)) r =
    (if size_of e < order - 1 then
       rbind (insert_helper order False e r) (\<lambda>(g, e', _, new_root).
         Inr (g, Internal (ks1 @ ks2) (es1 @ e' # es2), None, new_root))
     else
       rbind (insert_helper order True e r) (\<lambda>(g, e', split, new_root).
       rbind (case split of
                Some (right, m) \<Rightarrow> internal_insert_node (ks1 @ ks2) (es1 @ e' # es2) right m
              | None \<Rightarrow> Inr (ks1 @ ks2, es1 @ e' # es2)) (\<lambda>(ks', es').
         split_if_full order hp g (Internal ks' es') new_root)))"
  unfolding insert_helper.simps Let_def at_edgeD(4)[OF assms(1)] list_update_length
  using at_edgeD(5)[OF assms(1)] assms(2) by (auto simp: dec_def vec_get_def)

lemma insert_new_at_edge:
  assumes "at_edge order h lo hi (range_start r) ks1 ks2 es1 e es2" "3 \<le> order" "range_start r \<notin> held e"
    and post: "insert_post order (\<not> size_of e < order - 1) h (last_bound lo ks1) (edge_upper ks2 hi) e r
      (insert_helper order (\<not> size_of e < order - 1) e r)"
  shows "insert_post order hp (Suc h) lo hi (Internal (ks1 @ ks2) (es1 @ e # es2)) r
    (insert_helper order hp (Internal (ks1 @ ks2) (es1 @ e # es2)) r)"
    (is "insert_post _ _ _ _ _ ?n _ _")
proof -
  let ?s = "range_start r"
  note at = assms(1) and eq = insert_helper_at_edge[OF assms(1,2), of hp]
  have new: "?s \<notin> held ?n" using at_edgeD(7)[OF at] assms(3) by simp
  obtain x sp nr where
    res: "insert_helper order (\<not> size_of e < order - 1) e r = Inr (Acquired, x, sp, nr)"
    using post assms(3) by (fastforce simp: insert_post_def)
  have nr: "nr = None"
    using post res assms(3) by (auto simp: insert_post_def Let_def split: option.splits)
  show ?thesis
  proof (cases sp)
    case None
    then have x: "ok order h order (last_bound lo ks1) (edge_upper ks2 hi) x" "latches x = insert (?s, range_end r) (latches e)"
      using post res assms(3) nr by (auto simp: insert_post_def Let_def)
    have "insert_helper order hp ?n r = Inr (Acquired, Internal (ks1 @ ks2) (es1 @ x # es2), None, None)"
      using res None nr at_edgeD(6)[OF at]
      by (cases "size_of e < order - 1") (simp_all add: eq split_if_full_def size_of_def)
    with new x at_edge_replace[OF at x(1)] show ?thesis by (auto simp: insert_post_def Let_def)
  next
    case (Some p)
    obtain right m where p: "p = (right, m)" by (cases p)
    then have big: "\<not> size_of e < order - 1" and x: "ok order h order (last_bound lo ks1) (Some m) x"
      "ok order h order (Some m) (edge_upper ks2 hi) right" "sabove (last_bound lo ks1) m" "below (edge_upper ks2 hi) m"
      "latches x \<union> latches right = insert (?s, range_end r) (latches e)"
      using post res assms(3) Some by (auto simp: insert_post_def Let_def)
    let ?n' = "Internal (ks1 @ m # ks2) (es1 @ x # right # es2)"
    have "insert_helper order hp ?n r = split_if_full order hp Acquired ?n' None"
      using res Some nr big at_edge_grow(2)[OF at x(1-4)] by (simp add: eq p)
    moreover have "latches ?n' = insert (?s, range_end r) (latches ?n)" using x(5) by auto
    ultimately show ?thesis
      using split_if_full_post[OF at_edge_grow(1)[OF at x(1-4)] assms(2) new, of hp] at_edgeD(6)[OF at]
      by (simp add: size_of_def)
  qed
qed

lemma insert_helper_post:
  assumes "3 \<le> order"
  shows "ok order h order lo hi n \<Longrightarrow> above lo (range_start r) \<Longrightarrow> below hi (range_start r) \<Longrightarrow>
    insert_post order hp h lo hi n r (insert_helper order hp n r)"
proof (induction h arbitrary: lo hi n hp)
  case 0
  then show ?case using insert_leaf_post[of order 0 lo hi _ _ _ r hp] assms by (cases n) auto
next
  case (Suc h)
  let ?s = "range_start r"
  obtain ks1 ks2 es1 e es2 where n: "n = Internal (ks1 @ ks2) (es1 @ e # es2)" and at: "at_edge order h lo hi ?s ks1 ks2 es1 e es2"
    by (rule at_edgeI[OF Suc.prems])
  note post = Suc.IH[OF at_edgeD(1-3)[OF at]] and eq = insert_helper_at_edge[OF at assms, of hp]
  have full: "split_if_full order hp g (Internal (ks1 @ ks2) es') None = Inr (g, Internal (ks1 @ ks2) es', None, None)" for g es'
    using at_edgeD(6)[OF at] by (simp add: split_if_full_def size_of_def)
  show ?case
  proof (cases "?s \<in> held e")
    case True
    then show ?thesis
      using post[of False] post[of True] at_edge_replace[OF at] at_edgeD(7,8)[OF at, of "ks1 @ ks2"]
      unfolding n eq insert_post_def by (auto simp: full)
  next
    case False
    then show ?thesis using insert_new_at_edge[OF at assms False post] n by simp
  qed
qed

subsection \<open>The tree\<close>

definition latch_tree :: "('k::linorder) btree \<Rightarrow> bool" where
  "latch_tree t \<longleftrightarrow> 3 \<le> btree_order t \<and> (\<exists>h. ok (btree_order t) h (btree_order t) None None (btree_root t))"

lemma latch_tree_new: "3 \<le> order \<Longrightarrow> latch_tree (btree_new order)"
  by (auto simp: latch_tree_def btree_new_def leaf_new_def ok_Leaf)

lemma held_latches: "ok order h cap lo hi n \<Longrightarrow> held n = fst ` latches n"
proof (induction h arbitrary: cap lo hi n)
  case 0
  then show ?case by (cases n) (auto simp flip: set_map)
next
  case (Suc h)
  then obtain ks es where n: "n = Internal ks es" and ch: "chain (ok order h order) lo ks es hi"
    by (cases n) auto
  have "held e = fst ` latches e" if "e \<in> set es" for e
    using chain_elem[OF ch that] Suc.IH by blast
  then show ?case by (auto simp: n image_UN)
qed

lemma btree_insert_cases:
  assumes "latch_tree t"
  shows btree_insert_free: "range_start r \<notin> held (btree_root t) \<Longrightarrow>
      \<exists>t'. btree_insert t r = Inr (Acquired, t') \<and> latch_tree t' \<and>
        latches (btree_root t') = insert (range_start r, range_end r) (latches (btree_root t))"
    and btree_insert_wait: "range_start r \<in> leaf_firsts (btree_root t) \<Longrightarrow>
      \<exists>t'. btree_insert t r = Inr (NotAcquired, t') \<and> latch_tree t' \<and> latches (btree_root t') = latches (btree_root t)"
    and btree_insert_panic: "range_start r \<in> held (btree_root t) \<Longrightarrow> range_start r \<notin> leaf_firsts (btree_root t) \<Longrightarrow>
      btree_insert t r = Inl OutOfBounds"
proof -
  obtain h where h: "ok (btree_order t) h (btree_order t) None None (btree_root t)" and o: "3 \<le> btree_order t"
    using assms by (auto simp: latch_tree_def)
  note post = insert_helper_post[OF o h, of r False]
  {
    assume "range_start r \<notin> held (btree_root t)"
    then show "\<exists>t'. btree_insert t r = Inr (Acquired, t') \<and> latch_tree t' \<and>
        latches (btree_root t') = insert (range_start r, range_end r) (latches (btree_root t))"
      using post o by (auto simp: insert_post_def btree_insert_def latch_tree_def Let_def simp del: ok.simps split: option.splits)
  }
  {
    assume "range_start r \<in> leaf_firsts (btree_root t)"
    then show "\<exists>t'. btree_insert t r = Inr (NotAcquired, t') \<and> latch_tree t' \<and> latches (btree_root t') = latches (btree_root t)"
      using post o leaf_firsts_held by (fastforce simp: insert_post_def btree_insert_def latch_tree_def)
  }
  {
    assume "range_start r \<in> held (btree_root t)" "range_start r \<notin> leaf_firsts (btree_root t)"
    then show "btree_insert t r = Inl OutOfBounds"
      using post by (auto simp: insert_post_def btree_insert_def)
  }
qed

end
