(* ===== verification/Latch_Small.thy ===== *)
theory Latch_Small
  imports Latch_Insert
begin

text \<open>
  The latch tree of order three, the one the latch manager uses, while at most four latches are held: it has one or two
  levels, insertion keeps it so, and deletion removes exactly its key. These laws are the contract
  \<open>latch_index\<close> that the latch manager relies on. Deletion in a tree with internal nodes below the root is not
  correct; \<open>Latch_Properties\<close> has the counterexamples.
\<close>

lemma leaf_shape:
  assumes "ok 3 0 3 lo hi n" "lo \<noteq> None \<or> hi \<noteq> None"
  shows "(\<exists>a a' w. n = Leaf [a] [a'] [w] \<and> above lo a \<and> below hi a) \<or>
    (\<exists>a b a' b' w. n = Leaf [a, b] [a', b'] [w] \<and> a < b \<and> above lo a \<and> below hi a \<and> above lo b \<and> below hi b)"
proof -
  obtain ss es ws where n: "n = Leaf ss es ws" using assms(1) by (cases n) auto
  then have "length ss = 1 \<or> length ss = 2" "length es = length ss" "length ws = 1"
    using assms by (cases ss; auto simp: less_Suc_eq numeral_3_eq_3 numeral_2_eq_2)+
  then show ?thesis
    using assms n by (auto simp: length_Suc_conv numeral_2_eq_2)
qed

text \<open>The steps of a deletion on leaves of at most two keys.\<close>

lemma first_index_simps:
  "first_index P [] = 0" "first_index P (x # xs) = (if P x then 0 else Suc (first_index P xs))"
  by (simp_all add: first_index_def)

lemma remove_key_small:
  "remove_key [] [] k = Inr (False, [], [])"
  "remove_key [a] [a'] k = (if a = k then Inr (True, [], []) else Inr (False, [a], [a']))"
  "remove_key [a, b] [a', b'] k =
     (if a = k then Inr (True, [b], [b']) else if b = k then Inr (True, [a], [a']) else Inr (False, [a, b], [a', b']))"
  by (auto simp: remove_key_def find_key_idx_def first_index_simps vec_remove_def)

lemma find_edge_small:
  "find_edge [k1] k = (if k < k1 then Inr (0, GoLeft) else Inr (1, GoRight))"
  "find_edge [k1, k2] k = (if k < k1 then Inr (0, GoLeft) else if k < k2 then Inr (1, GoLeft) else Inr (2, GoRight))"
  by (auto simp: find_edge_def first_index_simps Let_def)

lemma insert_range_empty: "insert_range [] [] ws r = Inr (Acquired, Leaf [range_start r] [range_end r] ws)"
  by (simp add: insert_range_def first_index_simps vec_insert_def)

lemma find_next_largest_key_small: "k < b \<Longrightarrow> find_next_largest_key [b] k right = Inr b"
  by (simp add: find_next_largest_key_def find_next_larger_key_def first_index_simps vec_get_def)

lemmas delete_simps = btree_delete_def delete_helper.simps delete_key_def remove_key_small find_edge_small
  vec_get_def vec_set_def vec_remove_def key_index_def dec_def node_has_spare_key_def node_is_underflow_def size_of_def
  find_child_left_sibling_def find_child_right_sibling_def find_next_largest_key_small as_leaf_node_def Let_def
  steal_from_left_leaf_sibling_def steal_from_right_leaf_sibling_def merge_node_def insert_range_empty
  steal_smallest_key_def steal_biggest_key_def get_lower_def update_key_at_index_def

definition small_tree :: "('k::linorder) btree \<Rightarrow> bool" where
  "small_tree t \<longleftrightarrow> btree_order t = 3 \<and> (\<exists>h \<le> 1. ok 3 h 3 None None (btree_root t))"

lemma small_tree_iff:
  "small_tree t \<longleftrightarrow> btree_order t = 3 \<and> (ok 3 0 3 None None (btree_root t) \<or> ok 3 (Suc 0) 3 None None (btree_root t))"
  by (auto simp: small_tree_def le_Suc_eq simp del: ok.simps)


lemma no_latch:
  assumes "ok order h cap lo hi n" "\<not> (above lo k \<and> below hi k)"
  shows "(k, v) \<notin> latches n"
  using ok_bounds[OF assms(1), of k] held_latches[OF assms(1)] assms(2) by force

lemma delete_two:
  assumes "ok 3 0 3 None (Some k1) n1" "ok 3 0 3 (Some k1) None n2"
  shows "\<exists>t'. btree_delete \<lparr>btree_root = Internal [k1] [n1, n2], btree_order = 3\<rparr> k = Some (Inr t') \<and> small_tree t' \<and>
     latches (btree_root t') = {p \<in> latches n1 \<union> latches n2. fst p \<noteq> k}"
proof (cases "k < k1")
  case True
  then show ?thesis
    using leaf_shape[OF assms(1)] leaf_shape[OF assms(2)] by (auto simp: delete_simps small_tree_iff)
next
  case False
  then show ?thesis
    using leaf_shape[OF assms(1)] leaf_shape[OF assms(2)] by (auto simp: delete_simps small_tree_iff)
qed

lemma delete_three:
  assumes "k1 < k2" "ok 3 0 3 None (Some k1) n1" "ok 3 0 3 (Some k1) (Some k2) n2" "ok 3 0 3 (Some k2) None n3"
  shows "\<exists>t'. btree_delete \<lparr>btree_root = Internal [k1, k2] [n1, n2, n3], btree_order = 3\<rparr> k = Some (Inr t') \<and> small_tree t' \<and>
     latches (btree_root t') = {p \<in> latches n1 \<union> latches n2 \<union> latches n3. fst p \<noteq> k}"
proof -
  consider "k < k1" | "k1 \<le> k" "k < k2" | "k2 \<le> k" by fastforce
  then show ?thesis
  proof cases
    case 1
    then have "(k, v) \<notin> latches n3" for v using no_latch[OF assms(4)] assms(1) by simp
    with 1 show ?thesis using assms(1,4) leaf_shape[OF assms(2)] leaf_shape[OF assms(3)]
      by (auto simp: delete_simps small_tree_iff ok_Leaf simp del: ok.simps(1))
  next
    case 2
    show ?thesis
    proof (cases "size_of n2 = 1")
      case True
      with 2 show ?thesis using assms(1) leaf_shape[OF assms(2)] leaf_shape[OF assms(3)] leaf_shape[OF assms(4)]
        by (auto simp: delete_simps small_tree_iff ok_Leaf simp del: ok.simps(1))
    next
      case False
      have "(k, v) \<notin> latches n1" "(k, v) \<notin> latches n3" for v
        using no_latch[OF assms(2)] no_latch[OF assms(4)] 2 by simp_all
      with 2 False show ?thesis using assms(1,2,4) leaf_shape[OF assms(3)]
        by (auto simp: delete_simps small_tree_iff ok_Leaf simp del: ok.simps(1))
    qed
  next
    case 3
    then have "(k, v) \<notin> latches n1" for v using no_latch[OF assms(2)] assms(1) by simp
    with 3 show ?thesis using assms(1,2) leaf_shape[OF assms(3)] leaf_shape[OF assms(4)]
      by (auto simp: delete_simps small_tree_iff ok_Leaf simp del: ok.simps(1))
  qed
qed

lemma delete_leaf:
  assumes "ok 3 0 3 None None n"
  shows "\<exists>t'. btree_delete \<lparr>btree_root = n, btree_order = 3\<rparr> k = Some (Inr t') \<and> small_tree t' \<and>
     latches (btree_root t') = {p \<in> latches n. fst p \<noteq> k}"
proof (cases n)
  case (Leaf ss es ws)
  then have "length ss = 0 \<or> length ss = 1 \<or> length ss = 2" "length es = length ss" "length ws = 1"
    using assms by (auto simp: less_Suc_eq numeral_3_eq_3)
  then show ?thesis
    using assms Leaf by (auto simp: length_Suc_conv numeral_2_eq_2 delete_simps small_tree_iff)
qed (use assms in simp)

lemma btree_delete_small:
  assumes "small_tree t"
  shows "\<exists>t'. btree_delete t k = Some (Inr t') \<and> small_tree t' \<and>
    latches (btree_root t') = {p \<in> latches (btree_root t). fst p \<noteq> k}"
proof -
  have t: "t = \<lparr>btree_root = btree_root t, btree_order = 3\<rparr>" using assms by (simp add: small_tree_def)
  consider "ok 3 0 3 None None (btree_root t)" | "ok 3 (Suc 0) 3 None None (btree_root t)"
    using assms by (auto simp: small_tree_iff)
  then show ?thesis
  proof cases
    case 1
    from delete_leaf[OF this, of k] t show ?thesis by simp
  next
    case 2
    then obtain ks es where r: "btree_root t = Internal ks es" and ks: "ks \<noteq> []" "length ks < 3"
      and ch: "chain (ok 3 0 3) None ks es None" by (cases "btree_root t") auto
    from ks consider k1 where "ks = [k1]" | k1 k2 where "ks = [k1, k2]"
      by (cases ks rule: remdups_adj.cases) auto
    then show ?thesis
    proof cases
      case (1 k1)
      with ch obtain n1 n2 where "es = [n1, n2]" "ok 3 0 3 None (Some k1) n1" "ok 3 0 3 (Some k1) None n2"
        by (cases es rule: remdups_adj.cases) (auto simp: chain_head)
      with delete_two[of k1 n1 n2 k] t r 1 show ?thesis by simp
    next
      case (2 k1 k2)
      with ch obtain n1 n2 n3 where "es = [n1, n2, n3]" "k1 < k2" "ok 3 0 3 None (Some k1) n1"
          "ok 3 0 3 (Some k1) (Some k2) n2" "ok 3 0 3 (Some k2) None n3"
        using chain_length[OF ch] by (auto simp: chain_head length_Suc_conv)
      with delete_three[of k1 k2 n1 n2 n3 k] t r 2 show ?thesis by (simp add: Un_assoc)
    qed
  qed
qed

subsection \<open>Insertion below five latches\<close>

lemma held_finite [simp]: "finite (held n)"
  by (induction n) auto

lemma chain_card:
  "chain (ok order 0 order) lo ks es hi \<Longrightarrow> card (\<Union> (held ` set es)) = sum_list (map size_of es)"
proof (induction es arbitrary: lo ks)
  case Nil
  then show ?case by (cases ks) auto
next
  case (Cons e es)
  then obtain hi' where e: "ok order 0 order lo hi' e" by (auto simp: chain_head simp del: ok.simps split: list.splits)
  then have size: "card (held e) = size_of e"
    by (cases e) (auto simp: size_of_def distinct_card strict_sorted_iff)
  show ?case
  proof (cases ks)
    case Nil
    with Cons.prems size show ?thesis by (simp add: chain_head del: ok.simps)
  next
    case (Cons k ks')
    with Cons.prems have e': "ok order 0 order lo (Some k) e" and ch: "chain (ok order 0 order) (Some k) ks' es hi"
      by (simp_all del: ok.simps)
    have "\<Union> (held ` set es) \<inter> held e = {}"
      using ok_bounds[OF e'] chain_bounds[of "ok order 0 order" held "Some k" ks' es hi] ok_bounds ch by fastforce
    then have "card (held e \<union> \<Union> (held ` set es)) = card (held e) + card (\<Union> (held ` set es))"
      by (intro card_Un_disjoint) auto
    with Cons.IH[OF ch] size show ?thesis by simp
  qed
qed

lemma leaf_nonempty: "ok order 0 order lo hi e \<Longrightarrow> lo \<noteq> None \<or> hi \<noteq> None \<Longrightarrow> 1 \<le> size_of e"
  by (cases e) (auto simp: size_of_def Suc_le_eq)

lemma chain_leaf_sizes:
  "chain (ok order 0 order) lo ks es hi \<Longrightarrow> ks \<noteq> [] \<or> lo \<noteq> None \<Longrightarrow> e \<in> set es \<Longrightarrow> 1 \<le> size_of e"
proof (induction es arbitrary: lo ks)
  case (Cons x es)
  show ?case
  proof (cases ks)
    case Nil
    with Cons.prems leaf_nonempty[of order lo hi x] show ?thesis by (simp add: chain_head del: ok.simps)
  next
    case (Cons k ks')
    with Cons.prems Cons.IH[of "Some k" ks'] leaf_nonempty[of order lo "Some k" x] show ?thesis
      by (auto simp del: ok.simps)
  qed
qed simp

lemma small_edge:
  assumes "at_edge 3 0 None None s ks1 ks2 es1 e es2" "length (ks1 @ ks2) = 2"
    and "card (held (Internal (ks1 @ ks2) (es1 @ e # es2))) < 4"
  shows "size_of e < 2"
proof -
  have ch: "chain (ok 3 0 3) None (ks1 @ ks2) (es1 @ e # es2) None" and ne: "ks1 @ ks2 \<noteq> []"
    using assms(1) by (auto simp: at_edge_def)
  have "length es1 + length es2 = 2" using chain_length[OF ch] assms(2) by simp
  moreover have "length xs \<le> sum_list (map size_of xs)" if "set xs \<subseteq> set (es1 @ e # es2)" for xs
    using that chain_leaf_sizes[OF ch] ne by (induction xs) fastforce+
  from this[of es1] this[of es2] have "length es1 + length es2 \<le> sum_list (map size_of es1) + sum_list (map size_of es2)"
    by fastforce
  moreover have "sum_list (map size_of es1) + size_of e + sum_list (map size_of es2) < 4"
    using chain_card[OF ch] assms(3) by simp
  ultimately show ?thesis by linarith
qed

lemma small_insert_new_root:
  assumes "ok 3 (Suc 0) 3 None None n" "card (held n) < 4" "range_start r \<notin> held n"
    and "insert_helper 3 False n r = Inr (g, n', sp, nr)"
  shows "nr = None"
proof (rule ccontr)
  assume nr: "nr \<noteq> None"
  have o: "(3::nat) \<le> 3" by simp
  note post = insert_helper_post[OF o assms(1), of r False, simplified]
  then have size: "size_of n = 2"
    using assms(3,4) nr by (auto simp: insert_post_def Let_def split: option.splits)
  obtain ks1 ks2 es1 e es2 where n: "n = Internal (ks1 @ ks2) (es1 @ e # es2)"
    and at: "at_edge 3 0 None None (range_start r) ks1 ks2 es1 e es2"
    by (rule at_edgeI[OF assms(1), of "range_start r"]) auto
  have e: "size_of e < 2" using small_edge[OF at] size assms(2) by (simp add: n size_of_def)
  have "range_start r \<notin> held e" using assms(3) at_edgeD(7)[OF at] n by simp
  then show False
    using insert_helper_post[OF o at_edgeD(1-3)[OF at], of False] insert_helper_at_edge[OF at o, of False] e assms(4) nr
    by (auto simp: n insert_post_def Let_def split: option.splits)
qed

lemma small_insert_free:
  assumes "small_tree t" "range_start r \<notin> held (btree_root t)" "card (held (btree_root t)) < 4"
  shows "\<exists>t'. btree_insert t r = Inr (Acquired, t') \<and> small_tree t' \<and>
    latches (btree_root t') = insert (range_start r, range_end r) (latches (btree_root t))"
proof -
  obtain h where h: "h \<le> 1" "ok 3 h 3 None None (btree_root t)" and o: "btree_order t = 3"
    using assms(1) by (auto simp: small_tree_def)
  note post = insert_helper_post[OF _ h(2), of r False, simplified]
  then obtain n' sp nr where res: "insert_helper 3 False (btree_root t) r = Inr (Acquired, n', sp, nr)"
    using assms(2) by (fastforce simp: insert_post_def)
  have "nr = None \<or> h = 0"
    using small_insert_new_root[OF _ assms(3,2) res] h by (cases h) auto
  then show ?thesis
    using post assms(2) res h(1) o
    by (auto simp: insert_post_def btree_insert_def small_tree_def Let_def simp del: ok.simps split: option.splits)
qed

lemma small_insert_wait:
  assumes "small_tree t" "range_start r \<in> leaf_firsts (btree_root t)"
  shows "\<exists>t'. btree_insert t r = Inr (NotAcquired, t') \<and> small_tree t' \<and> latches (btree_root t') = latches (btree_root t)"
proof -
  obtain h where h: "h \<le> 1" "ok 3 h 3 None None (btree_root t)" and o: "btree_order t = 3"
    using assms(1) by (auto simp: small_tree_def)
  show ?thesis
    using insert_helper_post[OF _ h(2), of r False] assms(2) leaf_firsts_held[of "btree_root t"] h(1) o
    by (fastforce simp: insert_post_def btree_insert_def small_tree_def simp del: ok.simps)
qed

lemma small_tree_new: "small_tree (btree_new 3)"
  by (simp add: small_tree_iff btree_new_def leaf_new_def)

lemma small_latch_tree: "small_tree t \<Longrightarrow> latch_tree t"
  by (auto simp: small_tree_def latch_tree_def)

subsection \<open>The contract of a latch index\<close>

text \<open>
  What the latch manager relies on: insertion takes a free latch and says so, a held one is never taken
  twice, and deletion returns and frees exactly its key. The bound is the number of latches up to which
  the index keeps the contract.
\<close>

locale latch_index =
  fixes ins :: "'t \<Rightarrow> 'k range \<Rightarrow> (latch_key_guard \<times> 't) res"
    and del :: "'t \<Rightarrow> 'k \<Rightarrow> 't run"
    and entries :: "'t \<Rightarrow> 'k set"
    and good :: "'t \<Rightarrow> bool"
    and bound :: nat
  assumes finite_entries: "finite (entries t)"
    and ins_free: "good t \<Longrightarrow> range_start r \<notin> entries t \<Longrightarrow> card (entries t) < bound \<Longrightarrow>
      \<exists>t'. ins t r = Inr (Acquired, t') \<and> good t' \<and> entries t' = insert (range_start r) (entries t)"
    and ins_held: "good t \<Longrightarrow> range_start r \<in> entries t \<Longrightarrow> ins t r = Inr (g, t') \<Longrightarrow>
      g = NotAcquired \<and> good t' \<and> entries t' = entries t"
    and ins_over: "good t \<Longrightarrow> range_start r \<notin> entries t \<Longrightarrow> ins t r = Inr (g, t') \<Longrightarrow>
      entries t' = insert (range_start r) (entries t)"
    and del_frees: "good t \<Longrightarrow> \<exists>t'. del t k = Some (Inr t') \<and> good t' \<and> entries t' = entries t - {k}"
begin

text \<open>Every insertion after which the bound is kept.\<close>

lemma ins_exact:
  assumes "good t" "ins t r = Inr (g, t')" "card (entries t') \<le> bound"
  shows "good t'" "g = Acquired \<longleftrightarrow> range_start r \<notin> entries t"
    "entries t' = (if g = Acquired then insert (range_start r) (entries t) else entries t)"
proof -
  have "good t' \<and> (g = Acquired \<longleftrightarrow> range_start r \<notin> entries t) \<and>
      entries t' = (if g = Acquired then insert (range_start r) (entries t) else entries t)"
  proof (cases "range_start r \<in> entries t")
    case True
    with ins_held[OF assms(1) True assms(2)] show ?thesis by auto
  next
    case False
    with ins_over[OF assms(1) False assms(2)] assms(3) finite_entries[of t] have "card (entries t) < bound" by simp
    with ins_free[OF assms(1) False] assms(2) False show ?thesis by auto
  qed
  then show "good t'" "g = Acquired \<longleftrightarrow> range_start r \<notin> entries t"
    "entries t' = (if g = Acquired then insert (range_start r) (entries t) else entries t)" by auto
qed

lemma del_exact:
  assumes "good t" "del t k = Some (Inr t')"
  shows "good t'" "entries t' = entries t - {k}"
  using del_frees[OF assms(1), of k] assms(2) by auto

end

definition held_keys :: "'k btree \<Rightarrow> 'k set" where
  "held_keys t = held (btree_root t)"

lemma held_keys_latches: "small_tree t \<Longrightarrow> held_keys t = fst ` latches (btree_root t)"
  unfolding small_tree_def held_keys_def using held_latches by blast

lemma held_keys_same:
  "small_tree t \<Longrightarrow> small_tree t' \<Longrightarrow> latches (btree_root t') = latches (btree_root t) \<Longrightarrow> held_keys t' = held_keys t"
  by (simp add: held_keys_latches)

lemma held_keys_insert:
  assumes "latch_tree t" "range_start r \<notin> held_keys t" "btree_insert t r = Inr (g, t')"
  shows "held_keys t' = insert (range_start r) (held_keys t)"
proof -
  have "latch_tree t'" "latches (btree_root t') = insert (range_start r, range_end r) (latches (btree_root t))"
    using btree_insert_free[OF assms(1), of r] assms(2,3) by (auto simp: held_keys_def)
  then show ?thesis
    using assms(1) by (auto simp: held_keys_def latch_tree_def held_latches simp del: ok.simps)
qed

interpretation small: latch_index btree_insert btree_delete held_keys small_tree 4
proof unfold_locales
  fix t :: "'a btree" and r :: "'a range" and k :: 'a and g t'
  show "finite (held_keys t)" by (simp add: held_keys_def)
  show "\<exists>t'. btree_insert t r = Inr (Acquired, t') \<and> small_tree t' \<and> held_keys t' = insert (range_start r) (held_keys t)"
    if "small_tree t" "range_start r \<notin> held_keys t" "card (held_keys t) < 4"
    using small_insert_free[of t r] that held_keys_insert[OF small_latch_tree[OF that(1)] that(2)]
    by (auto simp: held_keys_def)
  show "g = NotAcquired \<and> small_tree t' \<and> held_keys t' = held_keys t"
    if "small_tree t" "range_start r \<in> held_keys t" "btree_insert t r = Inr (g, t')"
  proof (cases "range_start r \<in> leaf_firsts (btree_root t)")
    case True
    from small_insert_wait[OF that(1) True] that(3) held_keys_same[OF that(1), of t'] show ?thesis by auto
  next
    case False
    with btree_insert_panic[OF small_latch_tree[OF that(1)], of r] that show ?thesis by (simp add: held_keys_def)
  qed
  show "held_keys t' = insert (range_start r) (held_keys t)"
    if "small_tree t" "range_start r \<notin> held_keys t" "btree_insert t r = Inr (g, t')"
    using held_keys_insert[OF small_latch_tree[OF that(1)] that(2,3)] .
  show "\<exists>t'. btree_delete t k = Some (Inr t') \<and> small_tree t' \<and> held_keys t' = held_keys t - {k}" if ok_t: "small_tree t"
  proof -
    obtain u where u: "btree_delete t k = Some (Inr u)" "small_tree u"
        "latches (btree_root u) = {p \<in> latches (btree_root t). fst p \<noteq> k}"
      using btree_delete_small[OF ok_t, of k] by blast
    have "held_keys u = held_keys t - {k}"
      unfolding held_keys_latches[OF u(2)] held_keys_latches[OF ok_t] u(3) by auto
    with u show ?thesis by blast
  qed
qed

end
