(* ===== verification/Latch_Manager.thy ===== *)
theory Latch_Manager
  imports Latch_Small
begin

text \<open>
  The latch manager (\<open>src/src/latch_manager/latch_manager.rs\<close>): \<open>acquire\<close> and \<open>release\<close> of several
  requests, interleaved. A request is a task whose state says where in \<open>acquire\<close> or \<open>release\<close> it is;
  one step of a task is one call on the tree of latches with the code around it up to the next one, or the end of a
  wait. Calls that overlap on several threads are not covered (see \<open>Latch_Tree\<close>). \<open>select!\<close> ends a wait in one of two ways, by a message from a holder or by the timer.
\<close>

datatype 'k latch_task =
    Trying "'k range list" nat "nat list"
  | Waiting "'k range list" nat "nat list"
  | RollingBack "'k range list" "nat list" nat
  | Holding "'k range list"
  | Releasing "'k range list" nat
  | Released

definition acquire :: "'k range list \<Rightarrow> 'k latch_task" where
  "acquire spans = Trying spans 0 []"

text \<open>The end of the loop body: return with the guard, or start over with no latch acquired.\<close>

definition acquire_end :: "'k range list \<Rightarrow> nat list \<Rightarrow> 'k latch_task" where
  "acquire_end spans acquired_indices =
     (if length acquired_indices = length spans then Holding spans else acquire spans)"

definition acquire_next ::
  "('k::linorder) btree \<Rightarrow> 'k range list \<Rightarrow> nat \<Rightarrow> nat list \<Rightarrow> ('k btree \<times> 'k latch_task) res" where
  "acquire_next t spans idx acquired_indices =
     (if idx < length spans then
        rbind (btree_insert t (Range (range_start (spans ! idx)) (range_end (spans ! idx)))) (\<lambda>(lg, t').
          Inr (t', case lg of
              NotAcquired \<Rightarrow> Waiting spans idx acquired_indices
            | Acquired \<Rightarrow> Trying spans (Suc idx) (acquired_indices @ [idx])))
      else Inr (t, acquire_end spans acquired_indices))"

definition roll_back_next ::
  "('k::linorder) btree \<Rightarrow> 'k range list \<Rightarrow> nat list \<Rightarrow> nat \<Rightarrow> ('k btree \<times> 'k latch_task) run" where
  "roll_back_next t spans acquired_indices i =
     (if i < length acquired_indices then
        run_bind (Some (unwrap (if acquired_indices ! i < length spans then Some (spans ! (acquired_indices ! i)) else None))) (\<lambda>span.
        run_bind (btree_delete t (range_start span)) (\<lambda>t'. Some (Inr (t', RollingBack spans acquired_indices (Suc i)))))
      else Some (Inr (t, acquire_end spans acquired_indices)))"

definition release_next ::
  "('k::linorder) btree \<Rightarrow> 'k range list \<Rightarrow> nat \<Rightarrow> ('k btree \<times> 'k latch_task) run" where
  "release_next t spans i =
     (if i < length spans then
        run_bind (btree_delete t (range_start (spans ! i))) (\<lambda>t'. Some (Inr (t', Releasing spans (Suc i))))
      else Some (Inr (t, Released)))"

text \<open>The next step of a task that runs; a task that waits or holds its guard stays as it is.\<close>

definition task_run :: "('k::linorder) btree \<Rightarrow> 'k latch_task \<Rightarrow> ('k btree \<times> 'k latch_task) run" where
  "task_run t k =
     (case k of
        Trying spans idx acquired \<Rightarrow> Some (acquire_next t spans idx acquired)
      | RollingBack spans acquired i \<Rightarrow> roll_back_next t spans acquired i
      | Releasing spans i \<Rightarrow> release_next t spans i
      | _ \<Rightarrow> Some (Inr (t, k)))"

definition release :: "'k range list \<Rightarrow> 'k latch_task" where
  "release spans = Releasing spans 0"

record 'k latch_manager =
  latch_tree_of :: "'k btree"
  tasks :: "nat \<rightharpoonup> 'k latch_task"

definition latch_manager_new :: "'k latch_manager" where
  "latch_manager_new = \<lparr>latch_tree_of = btree_new 3, tasks = Map.empty\<rparr>"

inductive latch_step :: "('k::linorder) latch_manager \<Rightarrow> 'k latch_manager \<Rightarrow> bool" where
  start: "tasks m i = None \<Longrightarrow> latch_step m (m\<lparr>tasks := (tasks m)(i \<mapsto> acquire spans)\<rparr>)"
| run: "tasks m i = Some k \<Longrightarrow> task_run (latch_tree_of m) k = Some (Inr (t', k')) \<Longrightarrow>
    latch_step m \<lparr>latch_tree_of = t', tasks = (tasks m)(i \<mapsto> k')\<rparr>"
| notified: "tasks m i = Some (Waiting spans idx acquired) \<Longrightarrow>
    latch_step m (m\<lparr>tasks := (tasks m)(i \<mapsto> Trying spans idx acquired)\<rparr>)"
| timed_out: "tasks m i = Some (Waiting spans idx acquired) \<Longrightarrow>
    latch_step m (m\<lparr>tasks := (tasks m)(i \<mapsto> RollingBack spans acquired 0)\<rparr>)"
| let_go: "tasks m i = Some (Holding spans) \<Longrightarrow>
    latch_step m (m\<lparr>tasks := (tasks m)(i \<mapsto> release spans)\<rparr>)"

text \<open>The states that are reached while at most \<open>n\<close> latches are held at a time.\<close>

inductive latch_reachable :: "nat \<Rightarrow> ('k::linorder) latch_manager \<Rightarrow> bool" for n where
  new: "latch_reachable n latch_manager_new"
| step: "latch_reachable n m \<Longrightarrow> latch_step m m' \<Longrightarrow> card (held_keys (latch_tree_of m')) \<le> n \<Longrightarrow> latch_reachable n m'"

subsection \<open>Who holds what\<close>

definition span_keys :: "'k range list \<Rightarrow> nat list \<Rightarrow> 'k list" where
  "span_keys spans is = map (\<lambda>i. range_start (spans ! i)) is"

definition task_keys :: "'k latch_task \<Rightarrow> 'k list" where
  "task_keys k =
     (case k of
        Trying spans idx acquired \<Rightarrow> span_keys spans acquired
      | Waiting spans idx acquired \<Rightarrow> span_keys spans acquired
      | RollingBack spans acquired i \<Rightarrow> span_keys spans (drop i acquired)
      | Holding spans \<Rightarrow> map range_start spans
      | Releasing spans i \<Rightarrow> map range_start (drop i spans)
      | Released \<Rightarrow> [])"

definition task_ok :: "'k latch_task \<Rightarrow> bool" where
  "task_ok k =
     (case k of
        Trying spans idx acquired \<Rightarrow> acquired = [0..<idx] \<and> idx \<le> length spans
      | Waiting spans idx acquired \<Rightarrow> acquired = [0..<idx] \<and> idx < length spans
      | RollingBack spans acquired i \<Rightarrow> acquired = [0..<length acquired] \<and> length acquired < length spans \<and> i \<le> length acquired
      | _ \<Rightarrow> True)"

definition keys_of :: "'k latch_manager \<Rightarrow> nat \<Rightarrow> 'k set" where
  "keys_of m i = (case tasks m i of None \<Rightarrow> {} | Some k \<Rightarrow> set (task_keys k))"

definition manager_inv :: "('k::linorder) latch_manager \<Rightarrow> bool" where
  "manager_inv m \<longleftrightarrow>
     small_tree (latch_tree_of m) \<and> held_keys (latch_tree_of m) = (\<Union>i. keys_of m i) \<and>
     (\<forall>i k. tasks m i = Some k \<longrightarrow> task_ok k \<and> distinct (task_keys k)) \<and>
     (\<forall>i j. i \<noteq> j \<longrightarrow> keys_of m i \<inter> keys_of m j = {})"

text \<open>A task's move from one state to another, with the keys it takes or frees.\<close>

lemma disjoint_update:
  fixes f :: "'i \<Rightarrow> 'a set"
  assumes "\<forall>i j. i \<noteq> j \<longrightarrow> f i \<inter> f j = {}" "X \<inter> ((\<Union>i. f i) - f i) = {}"
  shows "\<forall>j j'. j \<noteq> j' \<longrightarrow> (f(i := X)) j \<inter> (f(i := X)) j' = {}" "(\<Union>j. (f(i := X)) j) = (\<Union>i. f i) - f i \<union> X"
proof -
  have away: "(\<Union>i. f i) - f i = (\<Union>j \<in> - {i}. f j)" using assms(1) by blast
  then show "(\<Union>j. (f(i := X)) j) = (\<Union>i. f i) - f i \<union> X" by auto
  from away assms(2) have "X \<inter> f j = {}" if "j \<noteq> i" for j using that by blast
  with assms(1) show "\<forall>j j'. j \<noteq> j' \<longrightarrow> (f(i := X)) j \<inter> (f(i := X)) j' = {}" by (simp add: Int_commute)
qed

lemma manager_inv_update:
  assumes inv: "manager_inv m" and "small_tree t'" "task_ok k'" "distinct (task_keys k')"
    and new: "set (task_keys k') \<inter> (held_keys (latch_tree_of m) - keys_of m i) = {}"
    and tree: "held_keys t' = held_keys (latch_tree_of m) - keys_of m i \<union> set (task_keys k')"
  shows "manager_inv \<lparr>latch_tree_of = t', tasks = (tasks m)(i \<mapsto> k')\<rparr>"
proof -
  let ?m = "\<lparr>latch_tree_of = t', tasks = (tasks m)(i \<mapsto> k')\<rparr>"
  have keys: "keys_of ?m = (keys_of m)(i := set (task_keys k'))"
    by (rule ext) (simp add: keys_of_def)
  have "\<forall>i j. i \<noteq> j \<longrightarrow> keys_of m i \<inter> keys_of m j = {}" "held_keys (latch_tree_of m) = (\<Union>i. keys_of m i)"
    using inv by (auto simp: manager_inv_def)
  with disjoint_update[of "keys_of m" "set (task_keys k')" i] new
  have "\<forall>j j'. j \<noteq> j' \<longrightarrow> keys_of ?m j \<inter> keys_of ?m j' = {}" "(\<Union>j. keys_of ?m j) = held_keys t'"
    unfolding keys tree by simp_all
  with assms(1-4) show ?thesis by (simp add: manager_inv_def)
qed

lemma manager_inv_move:
  assumes "manager_inv m" "task_ok k'" "distinct (task_keys k')" "set (task_keys k') = keys_of m i"
  shows "manager_inv (m\<lparr>tasks := (tasks m)(i \<mapsto> k')\<rparr>)"
proof -
  have "keys_of m i \<subseteq> held_keys (latch_tree_of m)" "small_tree (latch_tree_of m)"
    using assms(1) by (auto simp: manager_inv_def)
  moreover have "held_keys (latch_tree_of m) = held_keys (latch_tree_of m) - keys_of m i \<union> set (task_keys k')"
    using calculation(1) assms(4) by blast
  moreover have eq: "m\<lparr>tasks := (tasks m)(i \<mapsto> k')\<rparr> = \<lparr>latch_tree_of = latch_tree_of m, tasks = (tasks m)(i \<mapsto> k')\<rparr>"
    by simp
  ultimately show ?thesis
    unfolding eq using manager_inv_update[OF assms(1) _ assms(2,3), of "latch_tree_of m" i] assms(4) by simp
qed

lemma manager_inv_new: "manager_inv latch_manager_new"
proof -
  have "held_keys (btree_new 3) = ({} :: 'a set)" by (simp add: held_keys_def btree_new_def leaf_new_def)
  then show ?thesis
    by (simp add: manager_inv_def latch_manager_new_def small_tree_new keys_of_def)
qed

subsection \<open>The invariant\<close>

lemma span_keys_upt: "span_keys spans [0..<length spans] = map range_start spans"
  by (simp add: span_keys_def map_nth flip: map_map[unfolded comp_def])

lemma acquire_end_ok:
  assumes "acquired = [0..<length acquired]"
  shows "task_ok (acquire_end spans acquired)"
    "task_keys (acquire_end spans acquired) = (if length acquired = length spans then span_keys spans acquired else [])"
  using assms span_keys_upt[of spans]
  by (auto simp: acquire_end_def acquire_def task_ok_def task_keys_def span_keys_def)

definition task_moves :: "('k::linorder) btree \<Rightarrow> 'k list \<Rightarrow> 'k btree \<Rightarrow> 'k latch_task \<Rightarrow> bool" where
  "task_moves t ks t' k' \<longleftrightarrow>
     small_tree t' \<and> task_ok k' \<and> distinct (task_keys k') \<and> set (task_keys k') \<inter> (held_keys t - set ks) = {} \<and>
     held_keys t' = held_keys t - set ks \<union> set (task_keys k')"

lemma acquire_moves:
  assumes t: "small_tree t" and res: "acquire_next t spans idx acquired = Inr (t', k')" and card: "card (held_keys t') \<le> 4"
    and k: "acquired = [0..<idx]" "idx \<le> length spans" "distinct (span_keys spans acquired)" "set (span_keys spans acquired) \<subseteq> held_keys t"
  shows "task_moves t (span_keys spans acquired) t' k'"
proof (cases "idx < length spans")
  case True
  let ?s = "range_start (spans ! idx)"
  from res True obtain g where ins: "btree_insert t (Range ?s (range_end (spans ! idx))) = Inr (g, t')"
    and k': "k' = (case g of NotAcquired \<Rightarrow> Waiting spans idx acquired | Acquired \<Rightarrow> Trying spans (Suc idx) (acquired @ [idx]))"
    by (auto simp: acquire_next_def rbind_eq_Inr)
  note exact = small.ins_exact[OF t ins card]
  show ?thesis
  proof (cases g)
    case Acquired
    then have "task_keys k' = span_keys spans acquired @ [?s]" "task_ok k'"
      using k True by (simp_all add: k' task_keys_def span_keys_def task_ok_def)
    with exact k Acquired show ?thesis by (auto simp: task_moves_def)
  next
    case NotAcquired
    then have "task_keys k' = span_keys spans acquired" "task_ok k'"
      using k True by (simp_all add: k' task_keys_def span_keys_def task_ok_def)
    with exact k NotAcquired show ?thesis by (auto simp: task_moves_def)
  qed
next
  case False
  then have idx: "idx = length spans" using k(2) by simp
  then have "k' = Holding spans" "t' = t" and keys: "span_keys spans acquired = map range_start spans"
    using res k(1) by (auto simp: acquire_next_def acquire_end_def span_keys_upt)
  with k(3,4) t show ?thesis by (auto simp: task_moves_def task_ok_def task_keys_def)
qed

lemma delete_moves:
  assumes t: "small_tree t" and res: "btree_delete t x = Some (Inr t')" and k': "task_keys k' = ks" "task_ok k'"
    and ks: "distinct (x # ks)" "set (x # ks) \<subseteq> held_keys t"
  shows "task_moves t (x # ks) t' k'"
  using small.del_exact[OF t res] k' ks by (auto simp: task_moves_def)

lemma roll_back_moves:
  assumes t: "small_tree t" and res: "roll_back_next t spans acquired i = Some (Inr (t', k'))"
    and k: "task_ok (RollingBack spans acquired i)" "distinct (span_keys spans (drop i acquired))"
      "set (span_keys spans (drop i acquired)) \<subseteq> held_keys t"
  shows "task_moves t (span_keys spans (drop i acquired)) t' k'"
proof (cases "i < length acquired")
  case True
  have keys: "span_keys spans (drop i acquired) = range_start (spans ! (acquired ! i)) # span_keys spans (drop (Suc i) acquired)"
    using True by (simp add: span_keys_def flip: Cons_nth_drop_Suc)
  have "acquired ! i < length spans"
    using k(1) True by (simp add: task_ok_def) (metis add_0 less_trans nth_upt)
  with res True have "btree_delete t (range_start (spans ! (acquired ! i))) = Some (Inr t')" "k' = RollingBack spans acquired (Suc i)"
    by (auto simp: roll_back_next_def run_bind_eq_Inr)
  moreover have "task_ok (RollingBack spans acquired (Suc i))" using k(1) True by (simp add: task_ok_def)
  ultimately show ?thesis
    using k(2,3) unfolding keys by (intro delete_moves[OF t]) (simp_all add: task_keys_def)
next
  case False
  then have "t' = t" "k' = acquire_end spans acquired"
    using res by (auto simp: roll_back_next_def)
  moreover have "acquired = [0..<length acquired]" "length acquired \<noteq> length spans" "span_keys spans (drop i acquired) = []"
    using k(1) False by (auto simp: task_ok_def span_keys_def)
  ultimately show ?thesis
    using t acquire_end_ok[of acquired spans] by (simp add: task_moves_def)
qed

lemma release_moves:
  assumes t: "small_tree t" and res: "release_next t spans i = Some (Inr (t', k'))"
    and k: "distinct (map range_start (drop i spans))" "set (map range_start (drop i spans)) \<subseteq> held_keys t"
  shows "task_moves t (map range_start (drop i spans)) t' k'"
proof (cases "i < length spans")
  case True
  have keys: "map range_start (drop i spans) = range_start (spans ! i) # map range_start (drop (Suc i) spans)"
    using True by (simp flip: Cons_nth_drop_Suc)
  from res True have "btree_delete t (range_start (spans ! i)) = Some (Inr t')" "k' = Releasing spans (Suc i)"
    by (auto simp: release_next_def run_bind_eq_Inr)
  then show ?thesis
    using k unfolding keys by (intro delete_moves[OF t]) (simp_all add: task_keys_def task_ok_def)
next
  case False
  with res t show ?thesis by (auto simp: release_next_def task_moves_def task_keys_def task_ok_def)
qed

lemma task_run_moves:
  assumes "small_tree t" "task_run t k = Some (Inr (t', k'))" "card (held_keys t') \<le> 4"
    and "task_ok k" "distinct (task_keys k)" "set (task_keys k) \<subseteq> held_keys t"
  shows "task_moves t (task_keys k) t' k'"
proof (cases k)
  case (Trying spans idx acquired)
  with assms acquire_moves[of t spans idx acquired t' k'] show ?thesis
    by (simp add: task_run_def task_keys_def task_ok_def)
next
  case (RollingBack spans acquired i)
  with assms roll_back_moves[of t spans acquired i t' k'] show ?thesis
    by (simp add: task_run_def task_keys_def)
next
  case (Releasing spans i)
  with assms release_moves[of t spans i t' k'] show ?thesis
    by (simp add: task_run_def task_keys_def)
qed (use assms in \<open>auto simp: task_run_def task_moves_def\<close>)

lemma latch_step_inv:
  assumes "latch_step m m'" "manager_inv m" "card (held_keys (latch_tree_of m')) \<le> 4"
  shows "manager_inv m'"
  using assms
proof (induction rule: latch_step.induct)
  case (start m i spans)
  then show ?case
    by (intro manager_inv_move) (simp_all add: acquire_def task_ok_def task_keys_def span_keys_def keys_of_def)
next
  case (run m i k t' k')
  then have "task_ok k" "distinct (task_keys k)" "set (task_keys k) \<subseteq> held_keys (latch_tree_of m)"
      "small_tree (latch_tree_of m)" and keys: "keys_of m i = set (task_keys k)"
    by (auto simp: manager_inv_def keys_of_def split: option.splits)
  with task_run_moves[OF _ run(2)] run(4) have "task_moves (latch_tree_of m) (task_keys k) t' k'" by simp
  then show ?case
    using manager_inv_update[OF run(3), of t' k' i] by (simp add: task_moves_def keys)
next
  case (notified m i spans idx acquired)
  then have "task_ok (Waiting spans idx acquired)" "distinct (task_keys (Waiting spans idx acquired))"
    by (auto simp: manager_inv_def)
  with notified show ?case
    by (intro manager_inv_move) (simp_all add: task_ok_def task_keys_def keys_of_def)
next
  case (timed_out m i spans idx acquired)
  then have "task_ok (Waiting spans idx acquired)" "distinct (task_keys (Waiting spans idx acquired))"
    by (auto simp: manager_inv_def)
  with timed_out show ?case
    by (intro manager_inv_move) (simp_all add: task_ok_def task_keys_def keys_of_def)
next
  case (let_go m i spans)
  then have "distinct (task_keys (Holding spans))" by (auto simp: manager_inv_def)
  with let_go show ?case
    by (intro manager_inv_move) (simp_all add: release_def task_ok_def task_keys_def keys_of_def)
qed

lemma latch_reachable_inv: "latch_reachable 4 m \<Longrightarrow> manager_inv m"
  by (induction rule: latch_reachable.induct) (auto intro: manager_inv_new latch_step_inv)

end
