(* ===== verification/Latch_Properties.thy ===== *)
theory Latch_Properties
  imports Latch_Manager
begin

text \<open>
  The properties of the latch tree and of the latch manager, with their witnesses. Insertion
  implements a set of latches in every tree of order at least three. Deletion does so in the trees that arise while at most
  four latches are held; the last theorems show what happens with five.
\<close>

subsection \<open>Runs of one task\<close>

fun run_task :: "nat \<Rightarrow> ('k::linorder) btree \<Rightarrow> 'k latch_task \<Rightarrow> ('k btree \<times> 'k latch_task) run" where
  "run_task 0 t k = Some (Inr (t, k))"
| "run_task (Suc n) t k = run_bind (task_run t k) (\<lambda>(t', k'). run_task n t' k')"

lemma acquire_from:
  assumes "small_tree t" "idx \<le> length spans" "distinct (map range_start (drop idx spans))"
    and "range_start ` set (drop idx spans) \<inter> held_keys t = {}" "card (held_keys t) + (length spans - idx) \<le> 4"
  shows "\<exists>t'. run_task (Suc (length spans - idx)) t (Trying spans idx [0..<idx]) = Some (Inr (t', Holding spans)) \<and>
    small_tree t' \<and> held_keys t' = held_keys t \<union> range_start ` set (drop idx spans)"
  using assms
proof (induction "length spans - idx" arbitrary: t idx)
  case 0
  then have "idx = length spans" by simp
  with 0 show ?case by (simp add: task_run_def acquire_next_def acquire_end_def)
next
  case (Suc n)
  then have idx: "idx < length spans" "n = length spans - Suc idx" by simp_all
  then have drop: "drop idx spans = spans ! idx # drop (Suc idx) spans" by (simp add: Cons_nth_drop_Suc)
  let ?r = "Range (range_start (spans ! idx)) (range_end (spans ! idx))"
  have "card (held_keys t) < 4" "range_start ?r \<notin> held_keys t"
    using Suc.prems idx by (auto simp: drop)
  from small.ins_free[OF Suc.prems(1) this(2,1)] obtain u where
    ins: "btree_insert t ?r = Inr (Acquired, u)" "small_tree u" "held_keys u = insert (range_start (spans ! idx)) (held_keys t)"
    by auto
  have "card (held_keys u) = Suc (card (held_keys t))"
    using ins(3) \<open>range_start ?r \<notin> held_keys t\<close> small.finite_entries[of t] by simp
  with Suc.prems(5) idx have "card (held_keys u) + (length spans - Suc idx) \<le> 4" by linarith
  then obtain t' where "run_task (Suc (length spans - Suc idx)) u (Trying spans (Suc idx) [0..<Suc idx]) = Some (Inr (t', Holding spans))"
      "small_tree t'" "held_keys t' = held_keys u \<union> range_start ` set (drop (Suc idx) spans)"
    using Suc.hyps(1)[OF idx(2) ins(2)] Suc.prems(3,4) idx(1) ins(3) by (auto simp: drop simp del: run_task.simps)
  moreover have "task_run t (Trying spans idx [0..<idx]) = Some (Inr (u, Trying spans (Suc idx) [0..<Suc idx]))"
    using ins(1) idx by (simp add: task_run_def acquire_next_def)
  moreover have "Suc (length spans - idx) = Suc (Suc (length spans - Suc idx))" using idx by simp
  ultimately show ?case using ins(3) by (simp add: drop del: upt_Suc)
qed

lemma release_from:
  assumes "small_tree t" "i \<le> length spans"
  shows "\<exists>t'. run_task (Suc (length spans - i)) t (Releasing spans i) = Some (Inr (t', Released)) \<and>
    small_tree t' \<and> held_keys t' = held_keys t - range_start ` set (drop i spans)"
  using assms
proof (induction "length spans - i" arbitrary: t i)
  case 0
  then show ?case by (simp add: task_run_def release_next_def)
next
  case (Suc n)
  then have i: "i < length spans" "n = length spans - Suc i" by simp_all
  then have drop: "drop i spans = spans ! i # drop (Suc i) spans" by (simp add: Cons_nth_drop_Suc)
  obtain u where del: "btree_delete t (range_start (spans ! i)) = Some (Inr u)" "small_tree u"
      "held_keys u = held_keys t - {range_start (spans ! i)}"
    using small.del_frees[OF Suc.prems(1)] by blast
  obtain t' where "run_task (Suc (length spans - Suc i)) u (Releasing spans (Suc i)) = Some (Inr (t', Released))"
      "small_tree t'" "held_keys t' = held_keys u - range_start ` set (drop (Suc i) spans)"
    using Suc.hyps(1)[OF i(2) del(2)] i by auto
  moreover have "task_run t (Releasing spans i) = Some (Inr (u, Releasing spans (Suc i)))"
    using del(1) i by (simp add: task_run_def release_next_def)
  moreover have "Suc (length spans - i) = Suc (Suc (length spans - Suc i))" using i by simp
  ultimately show ?case using del(3) by (auto simp: drop)
qed

subsection \<open>Properties\<close>

text \<open>
  C25: an insertion into the latch tree implements an insertion into the set of held latches. A key that no
  latch has is acquired and its range added, nothing else changes; for a key that is held
  the set stays as it is and the request waits, if the key is the first of its leaf. For any
  other held key the call panics, because a leaf has a single queue of waiters.
\<close>

theorem btree_insert_implements_set:
  assumes "latch_tree t"
  shows "if range_start r \<notin> held_keys t then
      \<exists>t'. btree_insert t r = Inr (Acquired, t') \<and> latch_tree t' \<and>
        latches (btree_root t') = insert (range_start r, range_end r) (latches (btree_root t))
    else if range_start r \<in> leaf_firsts (btree_root t) then
      \<exists>t'. btree_insert t r = Inr (NotAcquired, t') \<and> latch_tree t' \<and> latches (btree_root t') = latches (btree_root t)
    else btree_insert t r = Inl OutOfBounds"
  using btree_insert_cases[OF assms, of r] by (simp add: held_keys_def)

theorem btree_insert_implements_set_witness:
  "\<exists>t'. btree_insert (btree_new 3) (Range (7::nat) 7) = Inr (Acquired, t') \<and> latch_tree t' \<and>
     latches (btree_root t') = insert (7, 7) (latches (btree_root (btree_new 3)))"
  using btree_insert_implements_set[OF latch_tree_new[of 3], of "Range (7::nat) 7"]
  by (simp add: held_keys_def btree_new_def leaf_new_def)

text \<open>
  C24: mutual exclusion. While at most four latches are held at a time, two requests that hold a latch guard
  have no key in common, however the calls of all requests on the tree are interleaved, waits time out and
  requests start over. Each call on the tree is one step.
\<close>

theorem latch_guards_exclusive:
  assumes "latch_reachable 4 m" "i \<noteq> j" "tasks m i = Some (Holding spans)" "tasks m j = Some (Holding spans')"
  shows "range_start ` set spans \<inter> range_start ` set spans' = {}"
proof -
  have "\<forall>i j. i \<noteq> j \<longrightarrow> keys_of m i \<inter> keys_of m j = {}"
    using latch_reachable_inv[OF assms(1)] by (simp add: manager_inv_def)
  with assms(2) have "keys_of m i \<inter> keys_of m j = {}" by blast
  with assms(3,4) show ?thesis by (simp add: keys_of_def task_keys_def)
qed

lemma latch_reachable_start:
  "latch_reachable n m \<Longrightarrow> tasks m i = None \<Longrightarrow> card (held_keys (latch_tree_of m)) \<le> n \<Longrightarrow>
   latch_reachable n (m\<lparr>tasks := (tasks m)(i \<mapsto> acquire spans)\<rparr>)"
  using latch_reachable.step[OF _ latch_step.start[of m i spans]] by simp

lemma latch_reachable_run:
  "latch_reachable n m \<Longrightarrow> tasks m i = Some k \<Longrightarrow> task_run (latch_tree_of m) k = Some (Inr (t', k')) \<Longrightarrow> card (held_keys t') \<le> n \<Longrightarrow>
   latch_reachable n \<lparr>latch_tree_of = t', tasks = (tasks m)(i \<mapsto> k')\<rparr>"
  using latch_reachable.step[OF _ latch_step.run[of m i k t' k']] by simp

lemma two_guards:
  "\<exists>m. latch_reachable 4 m \<and> tasks m 0 = Some (Holding [Range (7::nat) 7]) \<and> tasks m 1 = Some (Holding [Range 9 9])"
proof -
  let ?t1 = "\<lparr>btree_root = Leaf [7::nat] [7] [0], btree_order = 3\<rparr>"
    and ?t2 = "\<lparr>btree_root = Leaf [7::nat, 9] [7, 9] [0], btree_order = 3\<rparr>"
  have ins: "btree_insert (btree_new 3) (Range 7 7) = Inr (Acquired, ?t1)" "btree_insert ?t1 (Range 9 9) = Inr (Acquired, ?t2)"
    by (simp_all add: btree_insert_def btree_new_def leaf_new_def insert_helper.simps insert_range_def first_index_def
        vec_insert_def split_if_full_def size_of_def)
  have card: "card (held_keys (btree_new 3 :: nat btree)) \<le> 4" "card (held_keys ?t1) \<le> 4" "card (held_keys ?t2) \<le> 4"
    by (simp_all add: held_keys_def btree_new_def leaf_new_def)
  note runs = task_run_def acquire_next_def acquire_end_def ins
  have "latch_reachable 4 \<lparr>latch_tree_of = btree_new 3, tasks = [0 \<mapsto> acquire [Range (7::nat) 7]]\<rparr>"
    using latch_reachable_start[OF latch_reachable.new, of 0 4 "[Range (7::nat) 7]"] card by (simp add: latch_manager_new_def)
  from latch_reachable_run[OF this, of 0 "acquire [Range 7 7]" ?t1 "Trying [Range 7 7] 1 [0]"]
  have "latch_reachable 4 \<lparr>latch_tree_of = ?t1, tasks = [0 \<mapsto> Trying [Range 7 7] 1 [0]]\<rparr>"
    using card by (simp add: acquire_def runs)
  from latch_reachable_run[OF this, of 0 "Trying [Range 7 7] 1 [0]" ?t1 "Holding [Range 7 7]"]
  have "latch_reachable 4 \<lparr>latch_tree_of = ?t1, tasks = [0 \<mapsto> Holding [Range 7 7]]\<rparr>"
    using card by (simp add: runs)
  from latch_reachable_start[OF this, of 1 "[Range 9 9]"]
  have "latch_reachable 4 \<lparr>latch_tree_of = ?t1, tasks = [0 \<mapsto> Holding [Range 7 7], 1 \<mapsto> acquire [Range 9 9]]\<rparr>"
    using card by simp
  from latch_reachable_run[OF this, of 1 "acquire [Range 9 9]" ?t2 "Trying [Range 9 9] 1 [0]"]
  have "latch_reachable 4 \<lparr>latch_tree_of = ?t2, tasks = [0 \<mapsto> Holding [Range 7 7], 1 \<mapsto> Trying [Range 9 9] 1 [0]]\<rparr>"
    using card by (simp add: acquire_def runs)
  from latch_reachable_run[OF this, of 1 "Trying [Range 9 9] 1 [0]" ?t2 "Holding [Range 9 9]"]
  have "latch_reachable 4 \<lparr>latch_tree_of = ?t2, tasks = [0 \<mapsto> Holding [Range 7 7], 1 \<mapsto> Holding [Range 9 9]]\<rparr>"
    using card by (simp add: runs)
  then show ?thesis by force
qed

theorem latch_guards_exclusive_witness:
  "\<exists>m. latch_reachable 4 m \<and> tasks m 0 = Some (Holding [Range (7::nat) 7]) \<and> tasks m 1 = Some (Holding [Range 9 9]) \<and>
     range_start ` set [Range (7::nat) 7] \<inter> range_start ` set [Range 9 9] = {}"
proof -
  obtain m where m: "latch_reachable 4 m" "tasks m 0 = Some (Holding [Range (7::nat) 7])" "tasks m 1 = Some (Holding [Range 9 9])"
    using two_guards by blast
  from latch_guards_exclusive[OF m(1) _ m(2,3)] m show ?thesis by (intro exI[of _ m]) simp
qed

text \<open>
  C26: a request for distinct keys that nobody holds gets its guard by its own steps, one per span and one to
  return, when the latches already held and its own are at most four; releasing the guard takes as many steps, returns and
  frees exactly its keys. With five latches a release can leave its keys held or not return.
\<close>

theorem uncontended_acquire_and_release:
  assumes "small_tree t" "distinct (map range_start spans)" "range_start ` set spans \<inter> held_keys t = {}"
    and "card (held_keys t) + length spans \<le> 4"
  shows "\<exists>t' t''. run_task (Suc (length spans)) t (acquire spans) = Some (Inr (t', Holding spans)) \<and>
    held_keys t' = held_keys t \<union> range_start ` set spans \<and>
    run_task (Suc (length spans)) t' (release spans) = Some (Inr (t'', Released)) \<and>
    small_tree t'' \<and> held_keys t'' = held_keys t"
proof -
  obtain t' where t': "run_task (Suc (length spans)) t (acquire spans) = Some (Inr (t', Holding spans))" "small_tree t'"
      "held_keys t' = held_keys t \<union> range_start ` set spans"
    using acquire_from[of t 0 spans] assms by (auto simp: acquire_def)
  obtain t'' where "run_task (Suc (length spans)) t' (release spans) = Some (Inr (t'', Released))" "small_tree t''"
      "held_keys t'' = held_keys t' - range_start ` set spans"
    using release_from[OF t'(2), of 0 spans] by (auto simp: release_def)
  with t' assms(3) show ?thesis by (intro exI[of _ t'] exI[of _ t'']) auto
qed

theorem uncontended_acquire_and_release_witness:
  "\<exists>t' t''. run_task 3 (btree_new 3) (acquire [Range (12::nat) 12, Range 18 18]) =
       Some (Inr (t', Holding [Range 12 12, Range 18 18])) \<and>
     held_keys t' = {12, 18} \<and> run_task 3 t' (release [Range 12 12, Range 18 18]) = Some (Inr (t'', Released)) \<and>
     small_tree t'' \<and> held_keys t'' = {}"
proof -
  have "held_keys (btree_new 3) = ({} :: nat set)" by (simp add: held_keys_def btree_new_def leaf_new_def)
  then show ?thesis
    using uncontended_acquire_and_release[OF small_tree_new, of "[Range (12::nat) 12, Range 18 18]"]
    by (simp add: numeral_3_eq_3 numeral_2_eq_2 insert_commute del: run_task.simps)
qed

subsection \<open>Five latches\<close>

primrec take_latches :: "('k::linorder) btree \<Rightarrow> 'k list \<Rightarrow> 'k btree res" where
  "take_latches t [] = Inr t"
| "take_latches t (k # ks) = rbind (btree_insert t (Range k k)) (\<lambda>(_, t'). take_latches t' ks)"

text \<open>The tree after five insertions, and what the release of 4 makes of it.\<close>

definition five_latches :: "nat btree" where
  "five_latches =
     \<lparr>btree_root = Internal [3] [Internal [2] [Leaf [1] [1] [0], Leaf [2] [2] [0]],
                               Internal [4] [Leaf [3] [3] [0], Leaf [4, 5] [4, 5] [0]]],
      btree_order = 3\<rparr>"

definition after_release :: "nat btree" where
  "after_release =
     \<lparr>btree_root = Internal [5] [Internal [2] [Leaf [1] [1] [0], Leaf [2] [2] [0]],
                               Internal [4] [Leaf [3] [3] [0], Leaf [5] [5] [0]]],
      btree_order = 3\<rparr>"

lemma five_latches_taken: "take_latches (btree_new 3) [1, 2, 3, 4, 5] = Inr five_latches"
  by code_simp

lemma release_of_4: "btree_delete five_latches 4 = Some (Inr after_release)"
  by code_simp

text \<open>
  C39: with five latches held, releasing one can lose another. After the latches 1 to 5 are taken and 4
  is released, the key 3 is still in a leaf of the tree and an insertion of 3 acquires it again: two
  requests hold the same latch.
\<close>

theorem latch_taken_twice:
  "\<exists>t t' t''. take_latches (btree_new 3) [1, 2, 3, 4, 5::nat] = Inr t \<and> btree_delete t 4 = Some (Inr t') \<and>
     held_keys t' = {1, 2, 3, 5} \<and> btree_insert t' (Range 3 3) = Inr (Acquired, t'')"
proof -
  have "held_keys after_release = {1, 2, 3, 5}" by code_simp
  moreover have "\<exists>t. btree_insert after_release (Range 3 3) = Inr (Acquired, t)"
  proof -
    have "btree_insert after_release (Range 3 3) =
      Inr (Acquired, \<lparr>btree_root = Internal [5] [Internal [2] [Leaf [1] [1] [0], Leaf [2, 3] [2, 3] [0]],
                               Internal [4] [Leaf [3] [3] [0], Leaf [5] [5] [0]]], btree_order = 3\<rparr>)"
      by code_simp
    then show ?thesis by blast
  qed
  ultimately show ?thesis using five_latches_taken release_of_4 by blast
qed

text \<open>
  C40: with five latches held, a release may never return. After 1, 2, 3, 4 and 5 are taken in this order, the
  release of 2 leaves an internal node without keys, and the repair looks for the
  node's sibling with the index of the node's child: it takes the node itself, whose latch it holds.
\<close>

theorem delete_never_returns:
  "\<exists>t. take_latches (btree_new 3) [1, 2, 3, 4, 5::nat] = Inr t \<and> held_keys t = {1, 2, 3, 4, 5} \<and> btree_delete t 2 = None"
proof -
  have "held_keys five_latches = {1, 2, 3, 4, 5}" by code_simp
  moreover have "btree_delete five_latches 2 = None" by code_simp
  ultimately show ?thesis using five_latches_taken by blast
qed

text \<open>
  The third way: the release of 4 and then of 3 returns, and 3 is still in the tree.
\<close>

lemma latch_leaked: "btree_delete after_release 3 = Some (Inr after_release) \<and> 3 \<in> held_keys after_release"
  by code_simp

end
