(* ===== verification/Concurrency.thy ===== *)
theory Concurrency
  imports Latch_Manager Lock_Machine
begin

text \<open>
  The concurrency manager (\<open>src/src/concurrency/concurrency_manager.rs\<close>) with its two parts, the latch manager and
  the lock table, and any number of requests at once. A request is in \<open>sequence_req\<close> (\<open>Latching\<close> before the
  scan, \<open>Blocked\<close> after a scan that says wait), between \<open>sequence_req\<close> and \<open>finish_req\<close> (\<open>Sequenced\<close>), or in
  \<open>finish_req\<close> (\<open>Dequeuing\<close>); a step is one call on a part (a call on the latch tree
  that overlaps another is not covered). Each call of \<open>acquire\<close> is a new task of the
  latch manager.
\<close>

datatype request_task =
    Latching request span_set nat
  | Blocked request span_set nat uuid
  | Sequenced request span_set nat uuid
  | Dequeuing nat uuid
  | Ended

record concurrency_manager =
  cm_latches :: "key latch_manager"
  cm_table :: lock_table
  cm_requests :: "nat \<rightharpoonup> request_task"

definition concurrency_manager_new :: "txn_map \<Rightarrow> concurrency_manager" where
  "concurrency_manager_new txns =
     \<lparr>cm_latches = latch_manager_new, cm_table = lock_table_new txns, cm_requests = Map.empty\<rparr>"

definition set_latch :: "concurrency_manager \<Rightarrow> nat \<Rightarrow> key latch_task \<Rightarrow> concurrency_manager" where
  "set_latch c l k = c\<lparr>cm_latches := (cm_latches c)\<lparr>tasks := (tasks (cm_latches c))(l \<mapsto> k)\<rparr>\<rparr>"

definition set_request :: "concurrency_manager \<Rightarrow> nat \<Rightarrow> request_task \<Rightarrow> concurrency_manager" where
  "set_request c i r = c\<lparr>cm_requests := (cm_requests c)(i \<mapsto> r)\<rparr>"

text \<open>
  The calls on the lock table, and the changes of its transaction, that the execution of a request makes: a put acquires the lock of its key, a commit or an
  abort updates locks on behalf of its own transaction.
\<close>

definition executing_event :: "request \<Rightarrow> lock_event \<Rightarrow> bool" where
  "executing_event req e =
     (case e of
        Acquire k u \<Rightarrow> u = request_txn req \<and> (case request_body req of Put k' _ \<Rightarrow> k' = k | _ \<Rightarrow> False)
      | Update k ul \<Rightarrow> update_lock_txn ul = request_txn req \<and> request_body req \<in> {CommitTxn, AbortTxn}
      | SetTxn u _ \<Rightarrow> u = request_txn req
      | _ \<Rightarrow> False)"

inductive cm_step :: "concurrency_manager \<Rightarrow> concurrency_manager \<Rightarrow> bool" where
  begins: "lt_txns (cm_table c) u = None \<Longrightarrow> txn_id t = u \<Longrightarrow> cm_step c (c\<lparr>cm_table := put_txn (cm_table c) u t\<rparr>)"
| sequence: "cm_requests c i = None \<Longrightarrow> txn_at (cm_table c) (request_txn req) = Inr t \<Longrightarrow>
    spans = collect_spans (request_body req) t \<Longrightarrow> tasks (cm_latches c) l = None \<Longrightarrow>
    cm_step c (set_request (set_latch c l (acquire spans)) i (Latching req spans l))"
| latch: "tasks (cm_latches c) l = Some k \<Longrightarrow> task_run (latch_tree_of (cm_latches c)) k = Some (Inr (t', k')) \<Longrightarrow>
    cm_step c (c\<lparr>cm_latches := \<lparr>latch_tree_of = t', tasks = (tasks (cm_latches c))(l \<mapsto> k')\<rparr>\<rparr>)"
| notified: "tasks (cm_latches c) l = Some (latch_task.Waiting spans idx acquired) \<Longrightarrow>
    cm_step c (set_latch c l (Trying spans idx acquired))"
| timed_out: "tasks (cm_latches c) l = Some (latch_task.Waiting spans idx acquired) \<Longrightarrow>
    cm_step c (set_latch c l (RollingBack spans acquired 0))"
| scan_passes: "cm_requests c i = Some (Latching req spans l) \<Longrightarrow> tasks (cm_latches c) l = Some (Holding spans) \<Longrightarrow>
    lt_guards (cm_table c) g = None \<Longrightarrow> scan_and_enqueue (cm_table c) g req = Some (Inr (False, g, lt')) \<Longrightarrow>
    cm_step c (set_request (c\<lparr>cm_table := lt'\<rparr>) i (Sequenced req spans l g))"
| scan_waits: "cm_requests c i = Some (Latching req spans l) \<Longrightarrow> tasks (cm_latches c) l = Some (Holding spans) \<Longrightarrow>
    lt_guards (cm_table c) g = None \<Longrightarrow> scan_and_enqueue (cm_table c) g req = Some (Inr (True, g, lt')) \<Longrightarrow>
    cm_step c (set_request (set_latch (c\<lparr>cm_table := lt'\<rparr>) l (release spans)) i (Blocked req spans l g))"
| woken: "cm_requests c i = Some (Blocked req spans l g) \<Longrightarrow> tasks (cm_latches c) l = Some Released \<Longrightarrow>
    wait_for (cm_table c) g Received = Some (Inr (Inr (), lt')) \<Longrightarrow> tasks (cm_latches c) l' = None \<Longrightarrow>
    cm_step c (set_request (set_latch (c\<lparr>cm_table := lt'\<rparr>) l' (acquire spans)) i (Latching req spans l'))"
| pushed: "cm_requests c i = Some (Blocked req spans l g) \<Longrightarrow> tasks (cm_latches c) l = Some Released \<Longrightarrow>
    tasks (cm_latches c) l' = None \<Longrightarrow>
    cm_step c (set_request (set_latch c l' (acquire spans)) i (Latching req spans l'))"
| gives_up: "cm_requests c i = Some (Blocked req spans l g) \<Longrightarrow> tasks (cm_latches c) l = Some Released \<Longrightarrow>
    lt_guards (cm_table c) g = Some gd \<Longrightarrow> span \<in> set (guard_keys gd) \<Longrightarrow> locks (cm_table c) (range_start span) \<noteq> None \<Longrightarrow>
    request_done (cm_table c) (range_start span) g = Some (Inr lt') \<Longrightarrow>
    cm_step c (set_request (c\<lparr>cm_table := lt'\<rparr>) i Ended)"
| executes: "cm_requests c i = Some (Sequenced req spans l g) \<Longrightarrow> executing_event req e \<Longrightarrow> lock_step (cm_table c) e = Inr lt' \<Longrightarrow>
    cm_step c (c\<lparr>cm_table := lt'\<rparr>)"
| finish: "cm_requests c i = Some (Sequenced req spans l g) \<Longrightarrow>
    cm_step c (set_request (set_latch c l (release spans)) i (Dequeuing l g))"
| dequeues: "cm_requests c i = Some (Dequeuing l g) \<Longrightarrow> tasks (cm_latches c) l = Some Released \<Longrightarrow>
    dequeue (cm_table c) g = Some (Inr lt') \<Longrightarrow>
    cm_step c (set_request (c\<lparr>cm_table := lt'\<rparr>) i Ended)"

text \<open>The states that are reached while at most \<open>n\<close> latches are held at a time.\<close>

inductive cm_reachable :: "nat \<Rightarrow> txn_map \<Rightarrow> concurrency_manager \<Rightarrow> bool" for n txns where
  new: "cm_reachable n txns (concurrency_manager_new txns)"
| step: "cm_reachable n txns c \<Longrightarrow> cm_step c c' \<Longrightarrow> card (held_keys (latch_tree_of (cm_latches c'))) \<le> n \<Longrightarrow> cm_reachable n txns c'"

subsection \<open>Each step is a step of the parts\<close>

definition latch_of :: "request_task \<Rightarrow> nat option" where
  "latch_of r = (case r of Latching _ _ l \<Rightarrow> Some l | Blocked _ _ l _ \<Rightarrow> Some l | Sequenced _ _ l _ \<Rightarrow> Some l
     | Dequeuing l _ \<Rightarrow> Some l | Ended \<Rightarrow> None)"

definition latch_at :: "concurrency_manager \<Rightarrow> nat \<Rightarrow> nat option" where
  "latch_at c i = Option.bind (cm_requests c i) latch_of"

text \<open>Requests use different tasks of the latch manager, and a sequenced request holds its latches.\<close>

definition cm_inv :: "concurrency_manager \<Rightarrow> bool" where
  "cm_inv c \<longleftrightarrow>
     (\<forall>i l. latch_at c i = Some l \<longrightarrow> tasks (cm_latches c) l \<noteq> None) \<and>
     (\<forall>i j l. latch_at c i = Some l \<longrightarrow> latch_at c j = Some l \<longrightarrow> i = j) \<and>
     (\<forall>i req spans l g. cm_requests c i = Some (Sequenced req spans l g) \<longrightarrow> tasks (cm_latches c) l = Some (Holding spans))"

lemma cm_invD:
  assumes "cm_inv c"
  shows "latch_at c i = Some l \<Longrightarrow> tasks (cm_latches c) l \<noteq> None" "latch_at c i = Some l \<Longrightarrow> latch_at c j = Some l \<Longrightarrow> i = j"
    "cm_requests c i = Some (Sequenced req spans l g) \<Longrightarrow> tasks (cm_latches c) l = Some (Holding spans)"
  using assms unfolding cm_inv_def by blast+

lemma cm_fields [simp]:
  "cm_requests (set_latch c l k) = cm_requests c" "cm_table (set_latch c l k) = cm_table c"
  "tasks (cm_latches (set_latch c l k)) = (tasks (cm_latches c))(l \<mapsto> k)" "latch_tree_of (cm_latches (set_latch c l k)) = latch_tree_of (cm_latches c)"
  "cm_requests (set_request c i r) = (cm_requests c)(i \<mapsto> r)" "cm_table (set_request c i r) = cm_table c"
  "cm_latches (set_request c i r) = cm_latches c"
  by (simp_all add: set_latch_def set_request_def)

lemma latch_at_set [simp]:
  "latch_at (set_latch c l k) = latch_at c" "latch_at (set_request c i r) = (latch_at c)(i := latch_of r)"
  "latch_at (c\<lparr>cm_table := lt\<rparr>) = latch_at c" "latch_at (c\<lparr>cm_latches := m\<rparr>) = latch_at c"
  by (auto simp: latch_at_def fun_eq_iff)

lemma task_run_holding: "task_run t (Holding spans) = Some (Inr (t', k')) \<longleftrightarrow> t' = t \<and> k' = Holding spans"
  by (auto simp: task_run_def)

lemma cm_step_latches:
  assumes "cm_step c c'" "cm_inv c"
  shows "cm_latches c' = cm_latches c \<or> latch_step (cm_latches c) (cm_latches c')"
  using assms
proof cases
  case (latch l k t' k')
  then show ?thesis using latch_step.run[of "cm_latches c" l k t' k'] by simp
next
  case (notified l spans idx acquired)
  then show ?thesis using latch_step.notified[of "cm_latches c" l] by (simp add: set_latch_def)
next
  case (timed_out l spans idx acquired)
  then show ?thesis using latch_step.timed_out[of "cm_latches c" l] by (simp add: set_latch_def)
next
  case (finish i req spans l g)
  then have "tasks (cm_latches c) l = Some (Holding spans)" using cm_invD(3)[OF assms(2)] by blast
  then show ?thesis using finish latch_step.let_go[of "cm_latches c" l] by (simp add: set_latch_def set_request_def)
qed (auto simp: set_latch_def set_request_def intro: latch_step.start latch_step.let_go)

lemma cm_step_table:
  assumes "cm_step c c'"
  shows "cm_table c' = cm_table c \<or> (\<exists>e. lock_step (cm_table c) e = Inr (cm_table c'))"
  using assms
proof cases
  case (begins u t)
  then have "lock_step (cm_table c) (SetTxn u t) = Inr (cm_table c')" by (simp add: lock_step_def)
  then show ?thesis by blast
next
  case (scan_passes i req spans l g lt')
  then have "lock_step (cm_table c) (Scan g req) = Inr (cm_table c')" by (simp add: lock_step_def)
  then show ?thesis by blast
next
  case (scan_waits i req spans l g lt')
  then have "lock_step (cm_table c) (Scan g req) = Inr (cm_table c')" by (simp add: lock_step_def)
  then show ?thesis by blast
next
  case (woken i req spans l g lt' l')
  then have "lock_step (cm_table c) (Receive g) = Inr (cm_table c')" by (simp add: lock_step_def)
  then show ?thesis by blast
next
  case (gives_up i req spans l g gd span lt')
  then have "lock_step (cm_table c) (GiveUp g (range_start span)) = Inr (cm_table c')"
    by (auto simp: lock_step_def lock_at_def)
  then show ?thesis by blast
next
  case (dequeues i l g lt')
  then have "lock_step (cm_table c) (Dequeue g) = Inr (cm_table c')" by (simp add: lock_step_def)
  then show ?thesis by blast
qed auto

subsection \<open>The invariant\<close>

text \<open>A step keeps the latches of a task unless it releases the guard of that task.\<close>

lemma cm_inv_frame:
  assumes inv: "cm_inv c" and reqs: "cm_requests c' = cm_requests c"
    and dom: "\<And>l. tasks (cm_latches c) l \<noteq> None \<Longrightarrow> tasks (cm_latches c') l \<noteq> None"
    and hold: "\<And>l spans. tasks (cm_latches c) l = Some (Holding spans) \<Longrightarrow> tasks (cm_latches c') l = Some (Holding spans)"
  shows "cm_inv c'"
proof -
  have "latch_at c' = latch_at c" using reqs by (simp add: latch_at_def fun_eq_iff)
  with inv show ?thesis unfolding cm_inv_def reqs using dom hold by metis
qed

text \<open>A request moves on with its own latch task, or with a new one.\<close>

lemma cm_inv_move:
  assumes inv: "cm_inv c" and reqs: "cm_requests c' = (cm_requests c)(i \<mapsto> r)"
    and own: "latch_of r = None \<or> latch_of r = Some l" "latch_at c i = Some l \<or> tasks (cm_latches c) l = None"
    and tasks': "tasks (cm_latches c') = (tasks (cm_latches c))(l := k)" "k \<noteq> None"
    and seq: "\<And>req spans g. r = Sequenced req spans l g \<Longrightarrow> k = Some (Holding spans)"
  shows "cm_inv c'"
proof -
  have at: "latch_at c' = (latch_at c)(i := latch_of r)" using reqs by (auto simp: latch_at_def fun_eq_iff)
  have other: "j = i" if "latch_at c j = Some l" for j
    using that own(2) cm_invD(1,2)[OF inv] by blast
  have "tasks (cm_latches c') l' = Some (Holding spans)"
    if s: "cm_requests c' j = Some (Sequenced req spans l' g)" for j req spans l' g
  proof (cases "j = i")
    case True
    with s reqs own(1) seq[of req spans g] tasks'(1) show ?thesis by (auto simp: latch_of_def)
  next
    case False
    then have "cm_requests c j = Some (Sequenced req spans l' g)" using s reqs by simp
    moreover from this have "latch_at c j = Some l'" by (simp add: latch_at_def latch_of_def)
    ultimately show ?thesis using False other cm_invD(3)[OF inv] tasks'(1) by auto
  qed
  moreover have "tasks (cm_latches c') l' \<noteq> None" if "latch_at c' j = Some l'" for j l'
    using that own(1) cm_invD(1)[OF inv, of j l'] tasks' at by (cases "j = i") auto
  moreover have "j = j'" if jj: "latch_at c' j = Some l'" "latch_at c' j' = Some l'" for j j' l'
  proof (cases "j = i \<or> j' = i")
    case True
    then have "latch_of r = Some l'" using jj by (auto simp: at)
    then have "l' = l" using own(1) by simp
    with jj other have "j = i" "j' = i" by (fastforce simp: at split: if_splits)+
    then show ?thesis by simp
  next
    case False
    with jj cm_invD(2)[OF inv, of j l' j'] show ?thesis by (simp add: at)
  qed
  ultimately show ?thesis unfolding cm_inv_def by blast
qed

lemma cm_step_inv:
  assumes "cm_step c c'" "cm_inv c"
  shows "cm_inv c'"
  using assms(1)
proof cases
  case (begins u t)
  then show ?thesis by (intro cm_inv_frame[OF assms(2)]) auto
next
  case (sequence i req t spans l)
  then show ?thesis by (intro cm_inv_move[OF assms(2), of _ i "Latching req spans l" l "Some (acquire spans)"]) (simp_all add: latch_of_def)
next
  case (latch l k t' k')
  then show ?thesis by (intro cm_inv_frame[OF assms(2)]) (auto simp: task_run_holding)
next
  case (notified l spans idx acquired)
  then show ?thesis by (intro cm_inv_frame[OF assms(2)]) auto
next
  case (timed_out l spans idx acquired)
  then show ?thesis by (intro cm_inv_frame[OF assms(2)]) auto
next
  case (scan_passes i req spans l g lt')
  then show ?thesis
    by (intro cm_inv_move[OF assms(2), of _ i "Sequenced req spans l g" l "Some (Holding spans)"])
      (simp_all add: latch_of_def latch_at_def fun_upd_idem)
next
  case (scan_waits i req spans l g lt')
  then show ?thesis
    by (intro cm_inv_move[OF assms(2), of _ i "Blocked req spans l g" l "Some (release spans)"]) (simp_all add: latch_of_def latch_at_def)
next
  case (woken i req spans l g lt' l')
  then show ?thesis
    by (intro cm_inv_move[OF assms(2), of _ i "Latching req spans l'" l' "Some (acquire spans)"]) (simp_all add: latch_of_def)
next
  case (pushed i req spans l g l')
  then show ?thesis
    by (intro cm_inv_move[OF assms(2), of _ i "Latching req spans l'" l' "Some (acquire spans)"]) (simp_all add: latch_of_def)
next
  case (gives_up i req spans l g gd span lt')
  then show ?thesis
    by (intro cm_inv_move[OF assms(2), of _ i Ended l "Some Released"]) (simp_all add: latch_of_def latch_at_def fun_upd_idem)
next
  case (executes i req spans l g e lt')
  then show ?thesis by (intro cm_inv_frame[OF assms(2)]) auto
next
  case (finish i req spans l g)
  then show ?thesis
    by (intro cm_inv_move[OF assms(2), of _ i "Dequeuing l g" l "Some (release spans)"]) (simp_all add: latch_of_def latch_at_def)
next
  case (dequeues i l g lt')
  then show ?thesis
    by (intro cm_inv_move[OF assms(2), of _ i Ended l "Some Released"]) (simp_all add: latch_of_def latch_at_def fun_upd_idem)
qed

lemma cm_reachable_inv:
  assumes "cm_reachable n txns c" "txn_ids_ok txns"
  shows "cm_inv c" "latch_reachable n (cm_latches c)" "table_inv (cm_table c)"
  using assms(1)
proof induction
  case new
  show "cm_inv (concurrency_manager_new txns)" by (simp add: cm_inv_def concurrency_manager_new_def latch_at_def)
  show "latch_reachable n (cm_latches (concurrency_manager_new txns))"
    using latch_reachable.new by (simp add: concurrency_manager_new_def)
  show "table_inv (cm_table (concurrency_manager_new txns))"
    using table_inv_new[OF assms(2)] by (simp add: concurrency_manager_new_def)
next
  case (step c c')
  show "cm_inv c'" by (rule cm_step_inv[OF step(2) step.IH(1)])
  show "latch_reachable n (cm_latches c')"
    using cm_step_latches[OF step(2) step.IH(1)] step.IH(2) step(3) by (auto intro: latch_reachable.step)
  show "table_inv (cm_table c')"
    using cm_step_table[OF step(2)] step.IH(3) lock_machine.step_inv by metis
qed

text \<open>The spans of a request are those of its body.\<close>

fun spans_of_body :: "request_task \<Rightarrow> bool" where
  "spans_of_body (Latching req spans _) = (\<exists>t. spans = collect_spans (request_body req) t)"
| "spans_of_body (Blocked req spans _ _) = (\<exists>t. spans = collect_spans (request_body req) t)"
| "spans_of_body (Sequenced req spans _ _) = (\<exists>t. spans = collect_spans (request_body req) t)"
| "spans_of_body (Dequeuing _ _) = True"
| "spans_of_body Ended = True"

lemma cm_step_spans:
  assumes "cm_step c c'" "\<And>i r. cm_requests c i = Some r \<Longrightarrow> spans_of_body r" "cm_requests c' i = Some r"
  shows "spans_of_body r"
  using assms(1)
proof cases
  case (scan_passes j req spans l g lt')
  with assms(2)[of j] assms(2)[of i] assms(3) show ?thesis by (auto split: if_splits)
next
  case (scan_waits j req spans l g lt')
  with assms(2)[of j] assms(2)[of i] assms(3) show ?thesis by (auto split: if_splits)
next
  case (woken j req spans l g lt' l')
  with assms(2)[of j] assms(2)[of i] assms(3) show ?thesis by (auto split: if_splits)
next
  case (pushed j req spans l g l')
  with assms(2)[of j] assms(2)[of i] assms(3) show ?thesis by (auto split: if_splits)
qed (use assms(2)[of i] assms(3) in \<open>auto split: if_splits\<close>)

lemma cm_reachable_spans: "cm_reachable n txns c \<Longrightarrow> cm_requests c i = Some r \<Longrightarrow> spans_of_body r"
proof (induction arbitrary: i r rule: cm_reachable.induct)
  case (step c c')
  show ?case by (rule cm_step_spans[OF step(2) step.IH step.prems])
qed (simp add: concurrency_manager_new_def)

lemma sequenced_disjoint:
  assumes "cm_reachable 4 txns c" "txn_ids_ok txns" "i \<noteq> j"
    and "cm_requests c i = Some (Sequenced req spans l g)" "cm_requests c j = Some (Sequenced req' spans' l' g')"
  shows "range_start ` set spans \<inter> range_start ` set spans' = {}"
proof -
  note inv = cm_reachable_inv[OF assms(1,2)]
  have "l \<noteq> l'"
    using cm_invD(2)[OF inv(1), of i l j] assms(3-5) by (auto simp: latch_at_def latch_of_def)
  moreover have "\<forall>i j. i \<noteq> j \<longrightarrow> keys_of (cm_latches c) i \<inter> keys_of (cm_latches c) j = {}"
    using latch_reachable_inv[OF inv(2)] by (simp add: manager_inv_def)
  ultimately have "keys_of (cm_latches c) l \<inter> keys_of (cm_latches c) l' = {}" by blast
  then show ?thesis
    using cm_invD(3)[OF inv(1) assms(4)] cm_invD(3)[OF inv(1) assms(5)] by (simp add: keys_of_def task_keys_def)
qed

end
