(* ===== verification/Lock_Frames.thy ===== *)
theory Lock_Frames
  imports Executor_Effects
begin

text \<open>
  What the calls of one request leave alone for the others: who holds each lock and when it was last
  released by a commit, and what a transaction has recorded of itself. Only \<open>acquire_lock\<close> and \<open>update_locks\<close> change the holder of a lock, and the lock table
  changes nothing of a transaction but its write timestamp.
\<close>

definition lock_core :: "lock_table \<Rightarrow> key \<Rightarrow> (txn_metadata option \<times> timestamp option) option" where
  "lock_core lt k = map_option (\<lambda>st. (lock_holder st, last_committed_timestamp st)) (locks lt k)"

definition frozen :: "txn \<Rightarrow> uuid \<times> timestamp \<times> key list \<times> key list" where
  "frozen t = (txn_id t, read_timestamp t, lock_spans t, read_set t)"

definition keeps_txns :: "lock_table \<Rightarrow> lock_table \<Rightarrow> bool" where
  "keeps_txns lt lt' \<longleftrightarrow> (\<forall>u. map_option frozen (lt_txns lt' u) = map_option frozen (lt_txns lt u))"

definition calm :: "lock_table \<Rightarrow> lock_table \<Rightarrow> bool" where
  "calm lt lt' \<longleftrightarrow> (\<forall>k. lock_core lt' k = lock_core lt k) \<and> keeps_txns lt lt'"

lemma calm_refl [simp]: "calm lt lt"
  by (simp add: calm_def keeps_txns_def)

lemma calm_trans: "calm lt lt1 \<Longrightarrow> calm lt1 lt2 \<Longrightarrow> calm lt lt2"
  by (simp add: calm_def keeps_txns_def)

lemma calmI: "locks lt' = locks lt \<Longrightarrow> lt_txns lt' = lt_txns lt \<Longrightarrow> calm lt lt'"
  by (simp add: calm_def keeps_txns_def lock_core_def)

lemma calm_put_guard: "calm lt (put_guard lt g gd)"
  by (rule calmI) (simp_all add: put_guard_def)

lemma calm_upd_lock:
  assumes "upd_lock lt k f = Inr lt'" "\<And>st. lock_holder (f st) = lock_holder st \<and> last_committed_timestamp (f st) = last_committed_timestamp st"
  shows "calm lt lt'"
  using assms by (auto simp: upd_lock_def rbind_eq_Inr lock_at_def put_lock_def calm_def keeps_txns_def lock_core_def
      get_holder_txn_id_def split: option.splits)

lemma calm_bump: "bump_txn_write_timestamp lt k u = Inr lt' \<Longrightarrow> calm lt lt'"
  by (auto simp: bump_txn_write_timestamp_def rbind_eq_Inr txn_at_def put_txn_def calm_def keeps_txns_def lock_core_def frozen_def
      split: option.splits if_splits)

lemma calm_done_waiting: "done_waiting_at_lock lt g = Some (Inr lt') \<Longrightarrow> calm lt lt'"
  by (rule calmI) (auto simp: done_waiting_at_lock_def run_bind_eq_Inr guard_at_def update_wait_state_def put_guard_def rbind_eq_Inr
      split: option.splits if_splits)

lemma calm_update_reservation: "update_reservation lt k r = Inr lt' \<Longrightarrow> calm lt lt'"
  unfolding update_reservation_def by (erule calm_upd_lock) simp

lemma calm_claim: "claim_reservation lt k g = Some (Inr lt') \<Longrightarrow> calm lt lt'"
  by (auto simp: claim_reservation_def run_bind_eq_Inr dest!: calm_bump calm_update_reservation calm_done_waiting intro: calm_trans)

lemma calm_release_readers: "release_readers lt gs = Some (Inr lt') \<Longrightarrow> calm lt lt'"
  by (induction gs arbitrary: lt) (auto simp: run_bind_eq_Inr dest!: calm_done_waiting intro: calm_trans)

lemma calm_clear_readers: "clear_readers lt k = Inr lt' \<Longrightarrow> calm lt lt'"
  unfolding clear_readers_def by (erule calm_upd_lock) simp

lemma calm_remove_first_writer: "remove_first_writer lt k = Inr (w, lt') \<Longrightarrow> calm lt lt'"
  by (cases "locks lt k"; cases "queued_writers (the (locks lt k))")
    (auto simp: remove_first_writer_def lock_at_def put_lock_def calm_def keeps_txns_def lock_core_def get_holder_txn_id_def)

lemma calm_lock_is_free:
  assumes "lock_is_free lt k = Some (Inr (b, lt'))"
  shows "calm lt lt'"
proof -
  obtain st :: lock_state and lt1 lt2 w lt3 where "release_readers lt (waiting_readers st) = Some (Inr lt1)"
    "clear_readers lt1 k = Inr lt2" "remove_first_writer lt2 k = Inr (w, lt3)"
    and last: "lt' = lt3 \<or> (\<exists>g. claim_reservation lt3 k g = Some (Inr lt'))"
    using assms by (auto simp: lock_is_free_def run_bind_eq_Inr split: if_splits option.splits) blast+
  then have "calm lt lt3" by (meson calm_release_readers calm_clear_readers calm_remove_first_writer calm_trans)
  with last show ?thesis by (meson calm_claim calm_trans)
qed

lemma calm_update_wait_state: "update_wait_state lt g w = Inr lt' \<Longrightarrow> calm lt lt'"
  by (auto simp: update_wait_state_def rbind_eq_Inr calm_put_guard)

lemma calm_update_should_wait: "update_should_wait lt g b = Inr lt' \<Longrightarrow> calm lt lt'"
  by (auto simp: update_should_wait_def rbind_eq_Inr calm_put_guard)

lemma calm_enqueue_waiter:
  assumes "enqueue_waiter lt k g ro ts = Inr (b, lt')"
  shows "calm lt lt'"
proof -
  have "lt' = lt \<or> (\<exists>lt1 lt2 f. update_wait_state lt g Waiting = Inr lt1 \<and> upd_lock lt1 k f = Inr lt2 \<and>
      update_should_wait lt2 g True = Inr lt' \<and> (\<forall>st. lock_holder (f st) = lock_holder st \<and> last_committed_timestamp (f st) = last_committed_timestamp st))"
    using assms by (fastforce simp: enqueue_waiter_def rbind_eq_Inr split: if_splits option.splits)
  then show ?thesis by (meson calm_refl calm_update_wait_state calm_upd_lock calm_update_should_wait calm_trans)
qed

lemma calm_try_active_wait: "try_active_wait lt k g ro = Some (Inr (b, lt')) \<Longrightarrow> calm lt lt'"
  by (auto simp: try_active_wait_def run_bind_eq_Inr get_txn_properties_def Let_def
      dest: calm_claim[of lt k g lt'] calm_enqueue_waiter[of lt k g _ _ _ lt'] split: if_splits)

lemma calm_request_done:
  assumes "request_done lt k g = Some (Inr lt')"
  shows "calm lt lt'"
proof -
  obtain lt1 where first: "lt1 = lt \<or> (\<exists>lt0 b. update_reservation lt k None = Inr lt0 \<and> lock_is_free lt0 k = Some (Inr (b, lt1)))"
    and upd: "upd_lock lt1 k (\<lambda>st. st\<lparr>queued_writers := filter (\<lambda>h. h \<noteq> g) (queued_writers st),
            waiting_readers := filter (\<lambda>h. h \<noteq> g) (waiting_readers st)\<rparr>) = Inr lt'"
    using assms by (auto simp: request_done_def run_bind_eq_Inr split: if_splits)
  have "calm lt lt1" using first by (meson calm_refl calm_trans calm_update_reservation calm_lock_is_free)
  moreover have "calm lt1 lt'" by (rule calm_upd_lock[OF upd]) simp
  ultimately show ?thesis by (rule calm_trans)
qed

lemma calm_scan_spans: "scan_spans lt g ro spans = Some (Inr (b, lt')) \<Longrightarrow> calm lt lt'"
proof (induction spans arbitrary: lt)
  case (Cons sp spans)
  then show ?case
    by (auto simp: run_bind_eq_Inr split: option.splits if_splits
        dest!: calm_try_active_wait calm_update_should_wait intro: calm_trans)
qed (auto simp: run_bind_eq_Inr dest: calm_update_should_wait)

lemma calm_dequeue_spans: "dequeue_spans lt g spans = Some (Inr lt') \<Longrightarrow> calm lt lt'"
  by (induction spans arbitrary: lt) (auto simp: run_bind_eq_Inr split: option.splits dest!: calm_request_done intro: calm_trans)

text \<open>Every call of \<open>sequence_req\<close> and \<open>finish_req\<close> on the lock table is calm.\<close>

definition sequencing_event :: "lock_event \<Rightarrow> bool" where
  "sequencing_event e = (case e of Scan _ _ \<Rightarrow> True | Receive _ \<Rightarrow> True | GiveUp _ _ \<Rightarrow> True | Dequeue _ \<Rightarrow> True | _ \<Rightarrow> False)"

lemma sequencing_calm:
  assumes "lock_step lt e = Inr lt'" "sequencing_event e"
  shows "calm lt lt'"
proof (cases e)
  case (Scan g req)
  with assms(1) obtain t b where "scan_spans (put_guard lt g (lock_guard_new (request_txn req) (is_read_only (request_body req))
      (collect_spans (request_body req) t))) g (is_read_only (request_body req)) (collect_spans (request_body req) t) = Some (Inr (b, lt'))"
    by (auto simp: lock_step_def rbind_eq_Inr settle_eq_Inr scan_and_enqueue_def run_bind_eq_Inr Let_def split: if_splits)
  then show ?thesis using calm_trans[OF calm_put_guard calm_scan_spans] by blast
next
  case (Receive g)
  with assms(1) show ?thesis
    by (auto simp: lock_step_def rbind_eq_Inr settle_eq_Inr wait_for_def run_bind_eq_Inr intro: calm_put_guard split: if_splits)
next
  case (GiveUp g k)
  with assms(1) show ?thesis by (auto simp: lock_step_def rbind_eq_Inr settle_eq_Inr intro: calm_request_done)
next
  case (Dequeue g)
  with assms(1) show ?thesis
    by (auto simp: lock_step_def settle_eq_Inr dequeue_def run_bind_eq_Inr intro: calm_dequeue_spans)
qed (use assms(2) in \<open>simp_all add: sequencing_event_def\<close>)

text \<open>Releasing locks changes no transaction but for the write timestamp of the next writer.\<close>

lemma keeps_txns_update_locks:
  assumes "update_locks lt k ul = Some (Inr (b, lt'))"
  shows "keeps_txns lt lt'"
proof -
  have same: "lt_txns lt1 = lt_txns lt0" if "upd_lock lt0 k f = Inr lt1" for lt0 lt1 f
    using that by (auto simp: upd_lock_def rbind_eq_Inr put_lock_def)
  have "lt' = lt \<or> (\<exists>lt1. lt_txns lt1 = lt_txns lt \<and> lock_is_free lt1 k = Some (Inr (b, lt')))"
    using assms by (cases ul) (auto simp: update_locks_def run_bind_eq_Inr update_holder_def update_last_commit_timestamp_def
        split: option.splits if_splits dest!: same)
  then show ?thesis using calm_lock_is_free by (fastforce simp: calm_def keeps_txns_def)
qed

lemma keeps_txns_update_keys: "update_keys lt ks ul = Some (Inr lt') \<Longrightarrow> keeps_txns lt lt'"
  by (induction ks arbitrary: lt) (auto simp: run_bind_eq_Inr keeps_txns_def dest!: keeps_txns_update_locks)

lemma keeps_txnsD:
  assumes "keeps_txns lt lt'"
  shows "lt_txns lt u = Some t \<Longrightarrow> \<exists>t'. lt_txns lt' u = Some t' \<and> frozen t' = frozen t" "txn_ids_ok (lt_txns lt) \<Longrightarrow> txn_ids_ok (lt_txns lt')"
proof -
  have eq: "map_option frozen (lt_txns lt' v) = map_option frozen (lt_txns lt v)" for v
    using assms by (simp add: keeps_txns_def)
  show "lt_txns lt u = Some t \<Longrightarrow> \<exists>t'. lt_txns lt' u = Some t' \<and> frozen t' = frozen t"
    using eq[of u] by (cases "lt_txns lt' u") auto
  show "txn_ids_ok (lt_txns lt')" if "txn_ids_ok (lt_txns lt)"
    unfolding txn_ids_ok_def
  proof (intro allI impI)
    fix v t'
    assume "lt_txns lt' v = Some t'"
    with eq[of v] obtain t where "lt_txns lt v = Some t" "frozen t' = frozen t" by (cases "lt_txns lt v") auto
    with that show "txn_id t' = v" by (auto simp: txn_ids_ok_def frozen_def)
  qed
qed

definition commits_ok :: "lock_table \<Rightarrow> bool" where
  "commits_ok lt \<longleftrightarrow> (\<forall>k h c. lock_core lt k = Some (h, c) \<longrightarrow> commit_ok c)"

lemma commits_okD: "commits_ok lt \<Longrightarrow> locks lt k = Some st \<Longrightarrow> commit_ok (last_committed_timestamp st)"
  unfolding commits_ok_def lock_core_def by fastforce

lemma update_locks_core:
  assumes "lock_inv lt" "locks lt k = Some st" "get_holder_txn_id st = Some (update_lock_txn ul)" "update_locks lt k ul = Some (Inr (b, lt'))"
  shows "lock_core lt' = (lock_core lt)(k \<mapsto> (None, commit_of st ul))" "lock_inv lt'"
proof -
  obtain lt1 where lt1: "update_locks lt k ul = lock_is_free lt1 k" "lock_inv lt1"
    "locks lt1 k = Some (st\<lparr>lock_holder := None, last_committed_timestamp := commit_of st ul\<rparr>)" "reservation st = None"
    using update_locks_by_holder[OF assms(1-3)] by blast
  have "calm lt1 lt'" by (rule calm_lock_is_free[OF trans[OF lt1(1)[symmetric] assms(4)]])
  then have "lock_core lt' k = Some (None, commit_of st ul)" using lt1(3) by (simp add: calm_def lock_core_def)
  moreover have "lock_core lt' k' = lock_core lt k'" if "k' \<noteq> k" for k'
    using extends_update_locks[OF assms(4)] that by (simp add: extends_def lock_core_def)
  ultimately show "lock_core lt' = (lock_core lt)(k \<mapsto> (None, commit_of st ul))" by (auto simp: fun_eq_iff)
  show "lock_inv lt'" using update_locks_inv(2)[OF assms(1,4)] .
qed

text \<open>Releasing the locks of a transaction, key by key.\<close>

lemma update_keys_core:
  assumes "lock_inv lt" "distinct ks" "holds_locks lt ul ks" "update_keys lt ks ul = Some (Inr lt')" "commits_ok lt"
  shows "commits_ok lt' \<and> (\<forall>k. k \<notin> set ks \<longrightarrow> lock_core lt' k = lock_core lt k) \<and>
    (\<forall>k \<in> set ks. \<exists>c. lock_core lt' k = Some (None, c))"
  using assms
proof (induction ks arbitrary: lt)
  case (Cons k ks)
  then obtain st where st: "locks lt k = Some st" "get_holder_txn_id st = Some (update_lock_txn ul)" "commit_ok (commit_of st ul)"
    by (auto simp: holds_locks_def)
  obtain b lt1 where lt1: "update_locks lt k ul = Some (Inr (b, lt1))" "update_keys lt1 ks ul = Some (Inr lt')"
    using Cons.prems(4) by (auto simp: run_bind_eq_Inr)
  note core = update_locks_core[OF Cons.prems(1) st(1,2) lt1(1)]
  have "holds_locks lt1 ul ks"
    using Cons.prems(2,3) extends_update_locks[OF lt1(1)] by (auto simp: holds_locks_def extends_def)
  moreover have "commits_ok lt1" using Cons.prems(5) st(3) core(1) by (auto simp: commits_ok_def)
  ultimately show ?case
    using Cons.IH[OF core(2) _ _ lt1(2)] Cons.prems(2) core(1) by fastforce
qed simp

end
