(* ===== verification/Sequencing.thy ===== *)
theory Sequencing
  imports Concurrency Lock_Frames
begin

text \<open>
  What sequencing guarantees to a request that then executes. A transaction sends its requests one after another;
  while its write is between \<open>sequence_req\<close> and \<open>finish_req\<close>, the lock of the key is free or its own, whatever the other
  requests do to the lock table, so that \<open>acquire_lock\<close> cannot panic.
\<close>

subsection \<open>One request per transaction\<close>

definition acts_for :: "lock_table \<Rightarrow> request_task \<Rightarrow> uuid option" where
  "acts_for lt r =
     (case r of
        Latching req _ _ \<Rightarrow> Some (request_txn req)
      | Blocked req _ _ _ \<Rightarrow> Some (request_txn req)
      | Sequenced req _ _ _ \<Rightarrow> Some (request_txn req)
      | Dequeuing _ g \<Rightarrow> map_option guard_txn (lt_guards lt g)
      | Ended \<Rightarrow> None)"

definition acts :: "concurrency_manager \<Rightarrow> nat \<Rightarrow> uuid option" where
  "acts c i = Option.bind (cm_requests c i) (acts_for (cm_table c))"

definition one_each :: "concurrency_manager \<Rightarrow> bool" where
  "one_each c \<longleftrightarrow> (\<forall>i j u. acts c i = Some u \<longrightarrow> acts c j = Some u \<longrightarrow> i = j)"

text \<open>The states that are reached while, in addition, no transaction has two requests at a time.\<close>

inductive orderly :: "nat \<Rightarrow> txn_map \<Rightarrow> concurrency_manager \<Rightarrow> bool" for n txns where
  new: "orderly n txns (concurrency_manager_new txns)"
| step: "orderly n txns c \<Longrightarrow> cm_step c c' \<Longrightarrow> card (held_keys (latch_tree_of (cm_latches c'))) \<le> n \<Longrightarrow> one_each c' \<Longrightarrow>
    orderly n txns c'"

lemma orderly_reachable: "orderly n txns c \<Longrightarrow> cm_reachable n txns c"
  by (induction rule: orderly.induct) (auto intro: cm_reachable.intros)

lemma orderly_one_each: "orderly n txns c \<Longrightarrow> one_each c"
  by (induction rule: orderly.induct) (simp_all add: one_each_def acts_def concurrency_manager_new_def)

subsection \<open>The lock of a writer\<close>

text \<open>The lock of the key is free, in that it has no state yet, or the transaction owns it.\<close>

definition clear_for :: "lock_table \<Rightarrow> key \<Rightarrow> uuid \<Rightarrow> bool" where
  "clear_for lt k u \<longleftrightarrow> locks lt k = None \<or> owner lt k = Some u"

lemma no_lock_kept:
  assumes "lock_step lt e = Inr lt'" "locks lt k = None" "\<And>u. e \<noteq> Acquire k u"
  shows "locks lt' k = None"
proof (cases "sequencing_event e")
  case True
  from sequencing_calm[OF assms(1) this] assms(2) show ?thesis
    by (cases "locks lt' k") (auto simp: calm_def lock_core_def dest!: spec[of _ k])
next
  case False
  show ?thesis
  proof (cases e)
    case (Acquire k' u)
    with assms(3) have "k' \<noteq> k" by blast
    moreover have "extends {k'} lt lt'" using Acquire assms(1) by (intro extends_acquire) (simp add: lock_step_def)
    ultimately show ?thesis using assms(2) by (simp add: extends_def)
  next
    case (Update k' ul)
    with assms(1) obtain b where upd: "update_locks lt k' ul = Some (Inr (b, lt'))"
      by (auto simp: lock_step_def rbind_eq_Inr settle_eq_Inr)
    show ?thesis
    proof (cases "k' = k")
      case True
      with upd assms(2) show ?thesis by (auto simp: update_locks_def get_lock_state_def)
    qed (use extends_update_locks[OF upd] assms(2) in \<open>simp add: extends_def\<close>)
  qed (use assms False in \<open>auto simp: lock_step_def sequencing_event_def put_txn_def split: if_splits\<close>)
qed

lemma acquire_owner:
  assumes "acquire_lock lt k u = Inr lt'" "txn_ids_ok (lt_txns lt)"
  shows "owner lt' k = Some u"
proof -
  obtain t where t: "txn_at lt u = Inr t" using assms(1) by (auto simp: acquire_lock_def rbind_eq_Inr)
  then have "txn_id t = u" using assms(2) by (auto simp: txn_ids_ok_def txn_at_def split: option.splits)
  with assms(1) t show ?thesis
    by (auto simp: acquire_lock_def rbind_eq_Inr get_txn_properties_def get_lock_state_def update_reservation_def update_holder_def
        upd_lock_def lock_at_def put_lock_def owner_def split: option.splits if_splits)
qed

lemma clear_for_step:
  assumes inv: "table_inv lt" and step: "lock_step lt e = Inr lt'" and clear: "clear_for lt k u"
    and upd: "\<And>ul. e = Update k ul \<Longrightarrow> update_lock_txn ul \<noteq> u"
    and req: "\<And>g. owner lt k = Some u \<Longrightarrow> e = Dequeue g \<or> e = GiveUp g k \<Longrightarrow> \<not> reserved_by lt k g"
    and acq: "\<And>w. e = Acquire k w \<Longrightarrow> w = u"
  shows "clear_for lt' k u"
proof (cases "owner lt k = Some u")
  case True
  have "owner lt' k = Some u" by (rule lock_step_owner[OF inv step True]) (use upd req[OF True] in blast)+
  then show ?thesis by (simp add: clear_for_def)
next
  case False
  then have none: "locks lt k = None" using clear by (simp add: clear_for_def)
  show ?thesis
  proof (cases "\<exists>w. e = Acquire k w")
    case True
    with acq have "acquire_lock lt k u = Inr lt'" using step by (auto simp: lock_step_def)
    from acquire_owner[OF this] inv show ?thesis by (simp add: clear_for_def table_inv_def)
  qed (use no_lock_kept[OF step none] in \<open>auto simp: clear_for_def\<close>)
qed

lemma reserved_owner:
  assumes "lock_inv lt" "owner lt k = Some u" "reserved_by lt k g"
  shows "map_option guard_txn (lt_guards lt g) = Some u"
proof -
  obtain st where st: "locks lt k = Some st" "reservation st = Some g" using assms(3) by (auto simp: reserved_by_def)
  then have "lock_holder st = None" using assms(1) by (fastforce simp: lock_inv_def exclusive_def)
  with st assms(2) show ?thesis by (simp add: owner_def)
qed

subsection \<open>The invariant\<close>

text \<open>The guard that a request holds belongs to its transaction.\<close>

definition guard_for :: "lock_table \<Rightarrow> uuid \<Rightarrow> uuid \<Rightarrow> bool" where
  "guard_for lt g u \<longleftrightarrow> map_option guard_txn (lt_guards lt g) = Some u"

fun linked :: "lock_table \<Rightarrow> request_task \<Rightarrow> bool" where
  "linked lt (Blocked req _ _ g) = guard_for lt g (request_txn req)"
| "linked lt (Sequenced req _ _ g) = guard_for lt g (request_txn req)"
| "linked lt _ = True"

fun writes_clear :: "lock_table \<Rightarrow> request_task \<Rightarrow> bool" where
  "writes_clear lt (Sequenced req _ _ _) = (case request_body req of Put k _ \<Rightarrow> clear_for lt k (request_txn req) | _ \<Rightarrow> True)"
| "writes_clear lt _ = True"

definition seq_inv :: "concurrency_manager \<Rightarrow> bool" where
  "seq_inv c \<longleftrightarrow> (\<forall>i r. cm_requests c i = Some r \<longrightarrow> linked (cm_table c) r \<and> writes_clear (cm_table c) r)"

lemma guard_for_extends: "extends K lt lt' \<Longrightarrow> guard_for lt g u \<Longrightarrow> guard_for lt' g u"
  by (auto simp: extends_def guard_for_def)

lemma linked_extends: "extends K lt lt' \<Longrightarrow> linked lt r \<Longrightarrow> linked lt' r"
  by (cases r) (auto intro: guard_for_extends)

lemma scan_guard_for:
  assumes "scan_and_enqueue lt g req = Some (Inr (b, g', lt'))"
  shows "guard_for lt' g (request_txn req)"
proof -
  obtain t where "scan_spans (put_guard lt g (lock_guard_new (request_txn req) (is_read_only (request_body req))
        (collect_spans (request_body req) t))) g (is_read_only (request_body req)) (collect_spans (request_body req) t) = Some (Inr (b, lt'))"
    using assms by (auto simp: scan_and_enqueue_def run_bind_eq_Inr Let_def)
  then show ?thesis
    by (rule guard_for_extends[OF extends_scan_spans]) (simp add: guard_for_def put_guard_def lock_guard_new_def)
qed

text \<open>Who makes a call on the lock table.\<close>

definition caused :: "concurrency_manager \<Rightarrow> lock_event \<Rightarrow> bool" where
  "caused c e \<longleftrightarrow>
     (case e of
        GiveUp g _ \<Rightarrow> \<exists>j req spans l. cm_requests c j = Some (Blocked req spans l g)
      | Dequeue g \<Rightarrow> \<exists>j l. cm_requests c j = Some (Dequeuing l g)
      | Acquire k u \<Rightarrow> \<exists>j req spans l g. cm_requests c j = Some (Sequenced req spans l g) \<and> executing_event req e
      | Update k ul \<Rightarrow> \<exists>j req spans l g. cm_requests c j = Some (Sequenced req spans l g) \<and> executing_event req e
      | _ \<Rightarrow> True)"

lemma put_spans:
  assumes "cm_reachable n txns c" "cm_requests c i = Some (Sequenced req spans l g)" "request_body req = Put k v"
  shows "range_start ` set spans = {k}"
  using cm_reachable_spans[OF assms(1,2)] assms(3) by (auto simp: collect_spans_def point_span_def)

lemma writer_kept:
  assumes ord: "orderly 4 txns c" "txn_ids_ok txns" and inv: "seq_inv c" and step: "lock_step (cm_table c) e = Inr lt'" "caused c e"
    and i: "cm_requests c i = Some (Sequenced req spans l g)" "request_body req = Put k v"
  shows "clear_for lt' k (request_txn req)"
proof -
  let ?lt = "cm_table c" and ?u = "request_txn req"
  note reach = orderly_reachable[OF ord(1)]
  have table: "table_inv ?lt" by (rule cm_reachable_inv(3)[OF reach ord(2)])
  have me: "acts c i = Some ?u" using i by (simp add: acts_def acts_for_def)
  have only: "j = i" if "acts c j = Some ?u" for j using orderly_one_each[OF ord(1)] me that by (simp add: one_each_def)
  have clear: "clear_for ?lt k ?u" using inv i by (fastforce simp: seq_inv_def)
  show ?thesis
  proof (rule clear_for_step[OF table step(1) clear])
    fix ul assume e: "e = Update k ul"
    then obtain j req' spans' l' g' where j: "cm_requests c j = Some (Sequenced req' spans' l' g')" "request_txn req' = update_lock_txn ul"
      "request_body req' \<in> {CommitTxn, AbortTxn}" using step(2) by (auto simp: caused_def executing_event_def)
    show "update_lock_txn ul \<noteq> ?u"
    proof
      assume "update_lock_txn ul = ?u"
      then have "j = i" using only[of j] j by (simp add: acts_def acts_for_def)
      with j i show False by auto
    qed
  next
    fix g' assume own: "owner ?lt k = Some ?u" and e: "e = Dequeue g' \<or> e = GiveUp g' k"
    show "\<not> reserved_by ?lt k g'"
    proof
      assume "reserved_by ?lt k g'"
      from reserved_owner[OF _ own this] have gu: "map_option guard_txn (lt_guards ?lt g') = Some ?u"
        using table by (simp add: table_inv_def)
      obtain j r where r: "cm_requests c j = Some r" "(\<exists>l. r = Dequeuing l g') \<or> (\<exists>req spans l. r = Blocked req spans l g')"
        using step(2) e by (auto simp: caused_def)
      moreover from r(1) inv have "linked ?lt r" by (simp add: seq_inv_def)
      ultimately have "acts c j = Some ?u" using gu by (auto simp: acts_def acts_for_def guard_for_def)
      then have "j = i" by (rule only)
      with r i show False by auto
    qed
  next
    fix w assume e: "e = Acquire k w"
    then obtain j req' spans' l' g' where "cm_requests c j = Some (Sequenced req' spans' l' g')" "executing_event req' (Acquire k w)"
      using step(2) by (auto simp: caused_def)
    then obtain v' where j: "cm_requests c j = Some (Sequenced req' spans' l' g')" "request_txn req' = w" "request_body req' = Put k v'"
      by (auto simp: executing_event_def split: request_union.splits)
    have "i = j"
    proof (rule ccontr)
      assume "i \<noteq> j"
      from sequenced_disjoint[OF reach ord(2) this i(1) j(1)] put_spans[OF reach i] put_spans[OF reach j(1,3)] show False by simp
    qed
    with i j show "w = ?u" by simp
  qed
qed

text \<open>A step that is a call on the lock table, and leaves the requests as they are or moves one that is not sequenced.\<close>

lemma seq_inv_call:
  assumes ord: "orderly 4 txns c" "txn_ids_ok txns" and inv: "seq_inv c" and step: "lock_step (cm_table c) e = Inr (cm_table c')" "caused c e"
    and new: "\<And>i r. cm_requests c' i = Some r \<Longrightarrow> cm_requests c i = Some r \<or> linked (cm_table c') r \<and> writes_clear (cm_table c') r"
  shows "seq_inv c'"
  unfolding seq_inv_def
proof (intro allI impI)
  fix i r
  assume r: "cm_requests c' i = Some r"
  have ext: "extends (event_keys (cm_table c) e) (cm_table c) (cm_table c')"
    using cm_reachable_inv(3)[OF orderly_reachable[OF ord(1)] ord(2)] step(1) by (intro lock_step_extends) (simp_all add: table_inv_def)
  show "linked (cm_table c') r \<and> writes_clear (cm_table c') r"
  proof (cases "cm_requests c i = Some r")
    case True
    have "writes_clear (cm_table c') r"
      using writer_kept[OF ord inv step] True by (cases r) (auto split: request_union.splits)
    with True inv linked_extends[OF ext] show ?thesis by (simp add: seq_inv_def)
  qed (use new[OF r] in blast)
qed

lemma seq_inv_same:
  assumes "seq_inv c" "cm_table c' = cm_table c"
    and "\<And>i r. cm_requests c' i = Some r \<Longrightarrow> cm_requests c i = Some r \<or> linked (cm_table c) r \<and> writes_clear (cm_table c) r"
  shows "seq_inv c'"
  unfolding seq_inv_def assms(2) using assms(1,3) by (metis seq_inv_def)

lemma passed_scan_clear:
  assumes "table_inv lt" "lt_guards lt g = None" "scan_and_enqueue lt g req = Some (Inr (False, g, lt'))" "request_body req = Put k v"
  shows "clear_for lt' k (request_txn req)"
proof -
  have req: "req = \<lparr>request_txn = request_txn req, request_body = Put k v\<rparr>" using assms(4) by (cases req) simp
  have "locks lt k \<noteq> None \<longrightarrow> owner lt' k = Some (request_txn req)"
    using write_scan_result[OF assms(1,2), of "request_txn req" k v False g lt'] assms(3) req by simp
  moreover have "lock_step lt (Scan g req) = Inr lt'" using assms(2,3) by (simp add: lock_step_def)
  from no_lock_kept[OF this] have "locks lt k = None \<longrightarrow> locks lt' k = None" by blast
  ultimately show ?thesis by (auto simp: clear_for_def)
qed

lemma seq_inv_step:
  assumes ord: "orderly 4 txns c" "txn_ids_ok txns" and inv: "seq_inv c" and step: "cm_step c c'"
  shows "seq_inv c'"
  using step
proof cases
  case (begins u t)
  then show ?thesis by (intro seq_inv_call[OF ord inv, of "SetTxn u t"]) (auto simp: lock_step_def caused_def)
next
  case (scan_passes i req spans l g lt')
  have table: "table_inv (cm_table c)" by (rule cm_reachable_inv(3)[OF orderly_reachable[OF ord(1)] ord(2)])
  show ?thesis
    by (rule seq_inv_call[OF ord inv, of "Scan g req"])
      (use scan_passes scan_guard_for passed_scan_clear[OF table] in
        \<open>auto simp: lock_step_def caused_def split: if_splits request_union.splits\<close>)
next
  case (scan_waits i req spans l g lt')
  then show ?thesis
    by (intro seq_inv_call[OF ord inv, of "Scan g req"]) (use scan_guard_for in \<open>auto simp: lock_step_def caused_def split: if_splits\<close>)
next
  case (woken i req spans l g lt' l')
  then show ?thesis by (intro seq_inv_call[OF ord inv, of "Receive g"]) (auto simp: lock_step_def caused_def split: if_splits)
next
  case (gives_up i req spans l g gd span lt')
  then show ?thesis
    by (intro seq_inv_call[OF ord inv, of "GiveUp g (range_start span)"]) (auto simp: lock_step_def lock_at_def caused_def split: if_splits)
next
  case (executes i req spans l g e lt')
  have "caused c e"
  proof (cases "(\<exists>k u. e = Acquire k u) \<or> (\<exists>k ul. e = Update k ul)")
    case True
    with executes show ?thesis unfolding caused_def by fastforce
  qed (use executes(3) in \<open>auto simp: caused_def executing_event_def split: lock_event.splits\<close>)
  then show ?thesis using executes by (intro seq_inv_call[OF ord inv, of e]) auto
next
  case (dequeues i l g lt')
  then show ?thesis by (intro seq_inv_call[OF ord inv, of "Dequeue g"]) (auto simp: lock_step_def caused_def split: if_splits)
qed (auto intro!: seq_inv_same[OF inv] split: if_splits)

lemma orderly_seq_inv: "orderly 4 txns c \<Longrightarrow> txn_ids_ok txns \<Longrightarrow> seq_inv c"
proof (induction rule: orderly.induct)
  case new
  show ?case by (simp add: seq_inv_def concurrency_manager_new_def)
next
  case (step c c')
  from seq_inv_step[OF step(1) step.prems step.IH[OF step.prems] step(2)] show ?case .
qed

end
