(* ===== verification/Concurrency_Properties.thy ===== *)
theory Concurrency_Properties
  imports Sequencing Latch_Properties
begin

text \<open>
  The properties of the concurrency manager: requests that are between \<open>sequence_req\<close> and \<open>finish_req\<close> at the
  same time touch different keys, in every interleaving.
\<close>

subsection \<open>An example\<close>

text \<open>Transaction 3 writes the key \<open>[97]\<close> while transaction 4 reads the key \<open>[98]\<close>.\<close>

definition two_clients :: txn_map where
  "two_clients = [3 \<mapsto> txn_new 3 (Timestamp 40 0), 4 \<mapsto> txn_new 4 (Timestamp 40 0)]"

definition the_write :: request where
  "the_write = \<lparr>request_txn = 3, request_body = Put [97] [7]\<rparr>"

definition the_read :: request where
  "the_read = \<lparr>request_txn = 4, request_body = Get [98]\<rparr>"

definition point_guard :: "request \<Rightarrow> key \<Rightarrow> lock_guard" where
  "point_guard req k = lock_guard_new (request_txn req) (is_read_only (request_body req)) [point_span k]"

definition latch_leaf :: "key list \<Rightarrow> key btree" where
  "latch_leaf ks = \<lparr>btree_root = latch_node.Leaf ks ks [0], btree_order = 3\<rparr>"

lemma point_scan:
  assumes "locks lt k = None" "lt_txns lt (request_txn req) = Some t" "collect_spans (request_body req) t = [point_span k]"
  shows "scan_and_enqueue lt g req = Some (Inr (False, g, put_guard lt g (point_guard req k)))"
  using assms
  by (simp add: scan_and_enqueue_def txn_at_def point_guard_def point_span_def get_lock_state_def put_guard_def lock_guard_new_def
      update_should_wait_def guard_at_def)

lemma latch_leaf_inserts:
  "btree_insert (btree_new 3) (point_span [97]) = Inr (Acquired, latch_leaf [[97]])"
  "btree_insert (latch_leaf [[97]]) (point_span [98]) = Inr (Acquired, latch_leaf [[97], [98]])"
  by (simp_all add: btree_insert_def btree_new_def leaf_new_def insert_helper.simps insert_range_def first_index_def
      vec_insert_def split_if_full_def size_of_def latch_leaf_def point_span_def)

text \<open>A request on one key that nobody holds, of a transaction without another request, is sequenced in four steps.\<close>

definition others :: "(nat \<rightharpoonup> request_task) \<Rightarrow> uuid \<Rightarrow> bool" where
  "others R u \<longleftrightarrow> (\<forall>j r. R j = Some r \<longrightarrow> (\<exists>req spans l g. r = Sequenced req spans l g \<and> request_txn req \<noteq> u))"

lemma one_each_other:
  assumes "one_each \<lparr>cm_latches = L, cm_table = lt, cm_requests = R\<rparr>" "others R u" "acts_for lt' r = Some u"
  shows "one_each \<lparr>cm_latches = L', cm_table = lt', cm_requests = R(i \<mapsto> r)\<rparr>"
proof -
  have "acts_for lt' r' = acts_for lt r' \<and> acts_for lt r' \<noteq> Some u" if "R j = Some r'" for j r'
    using assms(2) that by (fastforce simp: others_def acts_for_def)
  with assms(1,3) show ?thesis by (auto simp: one_each_def acts_def bind_eq_Some_conv)
qed

lemma point_sequenced:
  assumes c: "orderly n txns \<lparr>cm_latches = \<lparr>latch_tree_of = t, tasks = K\<rparr>, cm_table = lt, cm_requests = R\<rparr>"
    and new: "K l = None" "R i = None" "lt_guards lt g = None" "lt_txns lt (request_txn req) = Some tx" "locks lt k = None"
    and req: "collect_spans (request_body req) tx = [point_span k]" "others R (request_txn req)"
    and ins: "btree_insert t (point_span k) = Inr (Acquired, t')" and card: "card (held_keys t) \<le> n" "card (held_keys t') \<le> n"
  shows "orderly n txns \<lparr>cm_latches = \<lparr>latch_tree_of = t', tasks = K(l \<mapsto> Holding [point_span k])\<rparr>,
    cm_table = put_guard lt g (point_guard req k), cm_requests = R(i \<mapsto> Sequenced req [point_span k] l g)\<rparr>"
proof -
  let ?c = "\<lambda>t k' r. \<lparr>cm_latches = \<lparr>latch_tree_of = t, tasks = K(l \<mapsto> k')\<rparr>, cm_table = lt, cm_requests = R(i \<mapsto> r)\<rparr>"
  let ?sp = "[point_span k]" and ?r = "Latching req [point_span k] l"
  note one = one_each_other[OF orderly_one_each[OF c] req(2)]
  have one': "one_each (?c t1 k1 ?r)" for t1 k1 by (rule one) (simp add: acts_for_def)
  have "orderly n txns (?c t (acquire ?sp) ?r)"
    using orderly.step[OF c cm_step.sequence[of _ i req tx ?sp l]] new card req(1) one'
    by (simp add: set_request_def set_latch_def txn_at_def)
  moreover have "task_run t (acquire ?sp) = Some (Inr (t', Trying ?sp 1 [0]))"
    using ins by (simp add: task_run_def acquire_def acquire_next_def point_span_def)
  ultimately have "orderly n txns (?c t' (Trying ?sp 1 [0]) ?r)"
    using orderly.step[OF _ cm_step.latch[of "?c t (acquire ?sp) ?r" l "acquire ?sp" t' "Trying ?sp 1 [0]"]] card one' by simp
  moreover have "task_run t' (Trying ?sp 1 [0]) = Some (Inr (t', Holding ?sp))"
    by (simp add: task_run_def acquire_next_def acquire_end_def)
  ultimately have "orderly n txns (?c t' (Holding ?sp) ?r)"
    using orderly.step[OF _ cm_step.latch[of "?c t' (Trying ?sp 1 [0]) ?r" l "Trying ?sp 1 [0]" t' "Holding ?sp"]] card one' by simp
  moreover have "one_each \<lparr>cm_latches = \<lparr>latch_tree_of = t', tasks = K(l \<mapsto> Holding ?sp)\<rparr>,
      cm_table = put_guard lt g (point_guard req k), cm_requests = R(i \<mapsto> Sequenced req ?sp l g)\<rparr>"
    by (rule one) (simp add: acts_for_def)
  ultimately show ?thesis
    using orderly.step[OF _ cm_step.scan_passes[of "?c t' (Holding ?sp) ?r" i req ?sp l g]]
      point_scan[OF new(5,4) req(1), of g] new card by (simp add: set_request_def)
qed

lemma two_sequenced:
  "\<exists>c. orderly 4 two_clients c \<and> cm_requests c 0 = Some (Sequenced the_write [point_span [97]] 0 5) \<and>
     cm_requests c 1 = Some (Sequenced the_read [point_span [98]] 1 6)"
proof -
  have card: "card (held_keys (btree_new 3 :: key btree)) \<le> 4" "card (held_keys (latch_leaf [[97]])) \<le> 4"
    "card (held_keys (latch_leaf [[97], [98]])) \<le> 4"
    by (simp_all add: held_keys_def btree_new_def leaf_new_def latch_leaf_def)
  have new: "orderly 4 two_clients \<lparr>cm_latches = \<lparr>latch_tree_of = btree_new 3, tasks = Map.empty\<rparr>,
      cm_table = lock_table_new two_clients, cm_requests = Map.empty\<rparr>"
    using orderly.new[of 4 two_clients] by (simp add: concurrency_manager_new_def latch_manager_new_def)
  note one = point_sequenced[where l = 0 and i = 0 and g = 5 and req = the_write and tx = "txn_new 3 (Timestamp 40 0)",
      OF new _ _ _ _ _ _ _ latch_leaf_inserts(1) card(1,2)]
  have first: "orderly 4 two_clients \<lparr>cm_latches = \<lparr>latch_tree_of = latch_leaf [[97]], tasks = [0 \<mapsto> Holding [point_span [97]]]\<rparr>,
      cm_table = put_guard (lock_table_new two_clients) 5 (point_guard the_write [97]),
      cm_requests = [0 \<mapsto> Sequenced the_write [point_span [97]] 0 5]\<rparr>"
    by (rule one) (simp_all add: lock_table_new_def two_clients_def the_write_def collect_spans_def others_def)
  note two = point_sequenced[where l = 1 and i = 1 and g = 6 and req = the_read and tx = "txn_new 4 (Timestamp 40 0)",
      OF first _ _ _ _ _ _ _ latch_leaf_inserts(2) card(2,3)]
  show ?thesis
    by (rule exI, rule conjI, rule two)
      (simp_all add: lock_table_new_def two_clients_def the_write_def the_read_def collect_spans_def others_def put_guard_def)
qed

lemma two_clients_ids: "txn_ids_ok two_clients"
  by (auto simp: txn_ids_ok_def two_clients_def txn_new_def)

subsection \<open>Properties\<close>

text \<open>
  C27: while at most four latches are held at a time, two requests that are between \<open>sequence_req\<close> and
  \<open>finish_req\<close> at the same time have no key in common, and the keys of each are those of its body; the lock table
  is well formed. This holds however the calls of all requests on the latch manager and the lock table are interleaved, each
  call being one step.
\<close>

theorem sequenced_requests_disjoint:
  assumes "cm_reachable 4 txns c" "txn_ids_ok txns" "i \<noteq> j"
    and "cm_requests c i = Some (Sequenced req spans l g)" "cm_requests c j = Some (Sequenced req' spans' l' g')"
  shows "range_start ` set spans \<inter> range_start ` set spans' = {} \<and> (\<exists>t. spans = collect_spans (request_body req) t) \<and>
    (\<exists>t. spans' = collect_spans (request_body req') t) \<and> lock_inv (cm_table c)"
  using sequenced_disjoint[OF assms] cm_reachable_inv(3)[OF assms(1,2)] cm_reachable_spans[OF assms(1) assms(4)]
    cm_reachable_spans[OF assms(1) assms(5)]
  by (simp add: table_inv_def)

theorem sequenced_requests_disjoint_witness:
  "\<exists>c :: concurrency_manager. cm_requests c 0 = Some (Sequenced the_write [point_span [97]] 0 5) \<and>
     cm_requests c 1 = Some (Sequenced the_read [point_span [98]] 1 6) \<and>
     range_start ` set [point_span [97]] \<inter> range_start ` set [point_span [98]] = {} \<and> lock_inv (cm_table c)"
proof -
  obtain c where c: "orderly 4 two_clients c" "cm_requests c 0 = Some (Sequenced the_write [point_span [97]] 0 5)"
    "cm_requests c 1 = Some (Sequenced the_read [point_span [98]] 1 6)"
    using two_sequenced by blast
  from sequenced_requests_disjoint[OF orderly_reachable[OF c(1)] two_clients_ids _ c(2,3)] c(2,3) show ?thesis by (intro exI[of _ c]) simp
qed

text \<open>
  C28: while at most four latches are held at a time and each transaction has one request at a time, a write that is between
  \<open>sequence_req\<close> and \<open>finish_req\<close> can take the lock of its key, however the calls of the other requests interleave: the key's lock has no owner or is
  owned by the transaction, so that none of the assertions of \<open>acquire_lock\<close> fails, the call is a step of the request, and afterwards the
  transaction holds the lock.
\<close>

theorem sequenced_writer_takes_lock:
  assumes "orderly 4 txns c" "txn_ids_ok txns" "cm_requests c i = Some (Sequenced req spans l g)" "request_body req = Put k v"
  shows "owner (cm_table c) k \<in> {None, Some (request_txn req)} \<and>
    (\<exists>lt' st. acquire_lock (cm_table c) k (request_txn req) = Inr lt' \<and> locks lt' k = Some st \<and>
       get_holder_txn_id st = Some (request_txn req) \<and> cm_step c (c\<lparr>cm_table := lt'\<rparr>))"
proof -
  let ?lt = "cm_table c" and ?u = "request_txn req"
  have inv: "table_inv ?lt" by (rule cm_reachable_inv(3)[OF orderly_reachable[OF assms(1)] assms(2)])
  have "linked ?lt (Sequenced req spans l g) \<and> writes_clear ?lt (Sequenced req spans l g)"
    using orderly_seq_inv[OF assms(1,2)] assms(3) unfolding seq_inv_def by blast
  then have "clear_for ?lt k ?u" and gd: "guard_for ?lt g ?u" using assms(4) by simp_all
  then have own: "owner ?lt k \<in> {None, Some ?u}" by (auto simp: clear_for_def owner_def)
  obtain t where t: "lt_txns ?lt ?u = Some t"
    using gd inv by (fastforce simp: guard_for_def table_inv_def lock_inv_def links_ok_def)
  obtain lt' st where lt': "acquire_lock ?lt k ?u = Inr lt'" "locks lt' = (locks ?lt)(k \<mapsto> st)" "acquired (locks ?lt) k ?u st"
    by (rule acquire_lock_ok[OF inv t own])
  moreover have "cm_step c (c\<lparr>cm_table := lt'\<rparr>)"
    by (rule cm_step.executes[OF assms(3), of "Acquire k ?u"]) (use assms(4) lt'(1) in \<open>simp_all add: executing_event_def lock_step_def\<close>)
  ultimately show ?thesis using own by (auto simp: acquired_def)
qed

theorem sequenced_writer_takes_lock_witness:
  "\<exists>(c :: concurrency_manager) lt'. orderly 4 two_clients c \<and> acquire_lock (cm_table c) [97] 3 = Inr lt' \<and> cm_step c (c\<lparr>cm_table := lt'\<rparr>)"
proof -
  obtain c where c: "orderly 4 two_clients c" "cm_requests c 0 = Some (Sequenced the_write [point_span [97]] 0 5)"
    using two_sequenced by blast
  from sequenced_writer_takes_lock[OF c(1) two_clients_ids c(2), of "[97]" "[7]"] c(1) show ?thesis
    by (auto simp: the_write_def)
qed

end
