(* ===== verification/Database.thy ===== *)
theory Database
  imports Executor Clock
begin

text \<open>
  The public front end (\<open>src/src/db/db.rs\<close>) and the queue that aborts pushed transactions
  (\<open>src/src/db/request_queue.rs\<close>). The state is the executor's with the clock and the map from
  identifiers to the links of running transactions; the transactions themselves are in the shared store of
  the lock table. Identifiers (\<open>Uuid::new_v4\<close>) and the waits of each request are arguments, as is the
  serialisation of the client's values. Opening a database is I/O: the store is an argument of the constructors.
\<close>

subsection \<open>Timestamps of the interface\<close>

datatype db_timestamp = DbTimestamp (db_value: u64)

definition db_timestamp_new :: "u64 \<Rightarrow> db_timestamp" where
  "db_timestamp_new time = DbTimestamp time"

definition db_advance_by :: "db_timestamp \<Rightarrow> u64 \<Rightarrow> db_timestamp res" where
  "db_advance_by t step = rbind (checked_add (db_value t) step) (\<lambda>v. Inr (DbTimestamp v))"

definition to_hlc_timestamp :: "db_timestamp \<Rightarrow> timestamp res" where
  "to_hlc_timestamp t =
     (if unat (db_value t) < 2 ^ 32 then Inr (Timestamp (db_value t) (ucast (db_value t))) else Inl UnwrapErr)"

subsection \<open>State\<close>

record 'db internal_db =
  db_executor :: "'db exec"
  db_txns :: "uuid \<rightharpoonup> uuid"
  db_clock :: "manual clock"

datatype commit_txn_failure_reason = ReadRefreshFail | CommitTxnAborted

datatype commit_txn_result = CommitSuccess timestamp | CommitFail commit_txn_failure_reason

definition executor_new :: "'db \<Rightarrow> txn_map \<Rightarrow> 'db exec" where
  "executor_new store txns =
     \<lparr>ex_store = store, ex_table = lock_table_new txns, ex_oracle = oracle_new, ex_waitq = txn_wait_queue_new\<rparr>"

definition internal_db_new :: "'db \<Rightarrow> db_timestamp \<Rightarrow> 'db internal_db res" where
  "internal_db_new store initial_time =
     (if db_value initial_time = 0 then Inl (Explicit ''DB time cannot start from 0 as it is reserved for intents'')
      else Inr \<lparr>db_executor = executor_new store Map.empty, db_txns = Map.empty, db_clock = clock_manual (db_value initial_time)\<rparr>)"

definition set_time :: "'db internal_db \<Rightarrow> db_timestamp \<Rightarrow> 'db internal_db res" where
  "set_time db t =
     rbind (receive_timestamp manual_current_time (db_clock db) (Timestamp (db_value t) 0)) (\<lambda>c. Inr (db\<lparr>db_clock := c\<rparr>))"

definition now_hlc :: "'db internal_db \<Rightarrow> (timestamp \<times> 'db internal_db) res" where
  "now_hlc db = rbind (get_timestamp manual_current_time (db_clock db)) (\<lambda>(t, c). Inr (t, db\<lparr>db_clock := c\<rparr>))"

definition now :: "'db internal_db \<Rightarrow> (db_timestamp \<times> 'db internal_db) res" where
  "now db =
     rbind (get_timestamp manual_current_time (db_clock db)) (\<lambda>(t, c). Inr (DbTimestamp (wall_time t), db\<lparr>db_clock := c\<rparr>))"

definition get_txn :: "(uuid \<rightharpoonup> uuid) \<Rightarrow> uuid \<Rightarrow> uuid res" where
  "get_txn txns tid = (case txns tid of Some link \<Rightarrow> Inr link | None \<Rightarrow> Inl (Explicit ''No txn found''))"

definition create_txn_internal :: "'db internal_db \<Rightarrow> uuid \<Rightarrow> (uuid \<times> 'db internal_db) res" where
  "create_txn_internal db tid =
     rbind (now_hlc db) (\<lambda>(ts, db1).
       let ex = db_executor db1 in
       Inr (tid, db1\<lparr>db_executor := ex\<lparr>ex_table := put_txn (ex_table ex) tid (txn_new tid ts)\<rparr>,
                     db_txns := (db_txns db1)(tid \<mapsto> tid)\<rparr>))"

subsection \<open>Requests\<close>

type_synonym 'db waits = "'db wait_turn list list"

definition run_request ::
  "'db env \<Rightarrow> 'db internal_db \<Rightarrow> 'db waits \<Rightarrow> uuid \<Rightarrow> request_union \<Rightarrow>
   ((execute_error + response_union) \<times> 'db internal_db) run" where
  "run_request env db ws link body =
     run_bind (execute_request_with_concurrency_retries env (db_executor db) ws \<lparr>request_txn = link, request_body = body\<rparr>)
       (\<lambda>(r, ex). Some (Inr (r, db\<lparr>db_executor := ex\<rparr>)))"

definition db_write ::
  "'db env \<Rightarrow> ('v \<Rightarrow> string + bytes) \<Rightarrow> 'db internal_db \<Rightarrow> 'db waits \<Rightarrow> bytes \<Rightarrow> 'v \<Rightarrow> uuid \<Rightarrow>
   ((execute_error + response_union) \<times> 'db internal_db) run" where
  "db_write env ser db ws k v tid =
     run_bind (Some (unwrap_result (ser v))) (\<lambda>b.
     run_bind (Some (get_txn (db_txns db) tid)) (\<lambda>link.
       run_request env db ws link (Put (str_to_key k) b)))"

definition db_read ::
  "'db env \<Rightarrow> (bytes \<Rightarrow> string + 'v) \<Rightarrow> 'db internal_db \<Rightarrow> 'db waits \<Rightarrow> bytes \<Rightarrow> uuid \<Rightarrow> ('v option \<times> 'db internal_db) run" where
  "db_read env de db ws k tid =
     run_bind (Some (get_txn (db_txns db) tid)) (\<lambda>link.
     run_bind (run_request env db ws link (Get (str_to_key k))) (\<lambda>(response, db').
       case response of
         Inr (GetResponse None) \<Rightarrow> Some (Inr (None, db'))
       | Inr (GetResponse (Some (_, b))) \<Rightarrow>
           run_bind (Some (unwrap_result (de b))) (\<lambda>v. Some (Inr (Some v, db')))
       | Inr _ \<Rightarrow> Some (Inl UnreachableCode)
       | Inl ReadRefreshFailure \<Rightarrow> Some (Inl UnreachableCode)
       | Inl ExecTxnCommitted \<Rightarrow> Some (Inl NotImplemented)
       | Inl ExecTxnAborted \<Rightarrow> Some (Inl NotImplemented)))"

definition read_without_txn :: "'db internal_db \<Rightarrow> bytes \<Rightarrow> db_timestamp \<Rightarrow> 'v res" where
  "read_without_txn db k t = Inl NotImplemented"

definition begin_txn :: "'db env \<Rightarrow> 'db internal_db \<Rightarrow> 'db waits \<Rightarrow> uuid \<Rightarrow> (uuid \<times> 'db internal_db) run" where
  "begin_txn env db ws tid =
     run_bind (Some (create_txn_internal db tid)) (\<lambda>(link, db1).
     run_bind (run_request env db1 ws link (BeginTxn tid)) (\<lambda>(response, db2).
     run_bind (Some (unwrap_result response)) (\<lambda>_. Some (Inr (tid, db2)))))"

definition abort_txn :: "'db env \<Rightarrow> 'db internal_db \<Rightarrow> 'db waits \<Rightarrow> uuid \<Rightarrow> 'db internal_db run" where
  "abort_txn env db ws tid =
     run_bind (Some (get_txn (db_txns db) tid)) (\<lambda>link.
     run_bind (run_request env db ws link AbortTxn) (\<lambda>(_, db'). Some (Inr db')))"

definition commit_txn :: "'db env \<Rightarrow> 'db internal_db \<Rightarrow> 'db waits \<Rightarrow> uuid \<Rightarrow> (commit_txn_result \<times> 'db internal_db) run" where
  "commit_txn env db ws tid =
     run_bind (Some (get_txn (db_txns db) tid)) (\<lambda>link.
     run_bind (run_request env db ws link CommitTxn) (\<lambda>(response, db').
       case response of
         Inr (CommitTxnResponse ts) \<Rightarrow> Some (Inr (CommitSuccess ts, db'))
       | Inr _ \<Rightarrow> Some (Inl UnreachableCode)
       | Inl ReadRefreshFailure \<Rightarrow> Some (Inr (CommitFail ReadRefreshFail, db'))
       | Inl ExecTxnCommitted \<Rightarrow> Some (Inl NotImplemented)
       | Inl ExecTxnAborted \<Rightarrow> Some (Inr (CommitFail CommitTxnAborted, db'))))"

text \<open>
  \<open>run_txn\<close> with the client's function as a function of the transaction's identifier and the state. Each
  turn of the loop has a new identifier and the waits of its begin and its commit.
\<close>

type_synonym 'db attempt = "uuid \<times> 'db waits \<times> 'db waits"

fun run_txn ::
  "'db env \<Rightarrow> (uuid \<Rightarrow> 'db internal_db \<Rightarrow> 'db internal_db run) \<Rightarrow> 'db internal_db \<Rightarrow> 'db attempt list \<Rightarrow> 'db internal_db run" where
  "run_txn env f db [] = None"
| "run_txn env f db ((tid, bws, cws) # attempts) =
     run_bind (begin_txn env db bws tid) (\<lambda>(tid, db1).
     run_bind (f tid db1) (\<lambda>db2.
     run_bind (commit_txn env db2 cws tid) (\<lambda>(res, db3).
       case res of
         CommitSuccess _ \<Rightarrow> Some (Inr db3)
       | CommitFail _ \<Rightarrow> run_txn env f db3 attempts)))"

text \<open>\<open>TxnContext\<close>: the operations of the client's function.\<close>

definition context_write ::
  "'db env \<Rightarrow> ('v \<Rightarrow> string + bytes) \<Rightarrow> uuid \<Rightarrow> 'db internal_db \<Rightarrow> 'db waits \<Rightarrow> bytes \<Rightarrow> 'v \<Rightarrow>
   ((execute_error + response_union) \<times> 'db internal_db) run" where
  "context_write env ser ctx_txn db ws k v = db_write env ser db ws k v ctx_txn"

definition context_read ::
  "'db env \<Rightarrow> (bytes \<Rightarrow> string + 'v) \<Rightarrow> uuid \<Rightarrow> 'db internal_db \<Rightarrow> 'db waits \<Rightarrow> bytes \<Rightarrow> ('v option \<times> 'db internal_db) run" where
  "context_read env de ctx_txn db ws k = db_read env de db ws k ctx_txn"

subsection \<open>The task queue\<close>

datatype task_queue_request = QueueAbortTxn uuid

datatype queue_response_union = QueueAbortTxnResponse

text \<open>
  The task spawned for one turn of the receive loop. The request is \<open>None\<close> when the channel is closed; the flag says
  whether the requester still listens to the answer.
\<close>

definition handle_task ::
  "'db env \<Rightarrow> 'db internal_db \<Rightarrow> 'db waits \<Rightarrow> task_queue_request option \<Rightarrow> bool \<Rightarrow>
   (queue_response_union option \<times> 'db internal_db) run" where
  "handle_task env db ws req listening =
     (case req of
        None \<Rightarrow> Some (Inr (None, db))
      | Some (QueueAbortTxn tid) \<Rightarrow>
        run_bind (Some (get_txn (db_txns db) tid)) (\<lambda>link.
        run_bind (run_request env db ws link AbortTxn) (\<lambda>(response, db').
        run_bind (Some (unwrap_result response)) (\<lambda>_.
          if listening then Some (Inr (Some QueueAbortTxnResponse, db')) else Some (Inl UnwrapErr)))))"

end
