(* ===== verification/Database_Effects.thy ===== *)
theory Database_Effects
  imports Database Executor_Effects
begin

text \<open>
  Requests of a transaction that meets no other: what a whole request does, from the scan of the lock table
  through its execution to the end of its guard. \<open>session\<close> is the state while such a transaction runs, and
  \<open>quiet\<close> the state between transactions, which abstracts the database to its map of versions.
\<close>

subsection \<open>An uncontended lock table\<close>

definition free_of_others :: "uuid option \<Rightarrow> lock_state \<Rightarrow> bool" where
  "free_of_others u st \<longleftrightarrow>
     queue st = [] \<and> reservation st = None \<and> get_holder_txn_id st \<in> {None, u} \<and> commit_ok (last_committed_timestamp st)"

definition alone :: "lock_table \<Rightarrow> uuid option \<Rightarrow> bool" where
  "alone lt u \<longleftrightarrow> table_inv lt \<and> (\<forall>k st. locks lt k = Some st \<longrightarrow> free_of_others u st)"

lemma aloneD: "alone lt u \<Longrightarrow> table_inv lt" "alone lt u \<Longrightarrow> locks lt k = Some st \<Longrightarrow> free_of_others u st"
  by (simp_all add: alone_def)

lemma request_done_alone:
  assumes "locks lt k = Some st" "free_of_others u st"
  shows "request_done lt k g = Some (Inr lt)"
proof -
  have "queued_writers st = []" "waiting_readers st = []" "reservation st = None"
    using assms(2) by (auto simp: free_of_others_def queue_def)
  moreover from this have "st\<lparr>queued_writers := [], waiting_readers := []\<rparr> = st" by simp
  ultimately show ?thesis
    using assms(1) by (simp add: request_done_def lock_at_def upd_lock_def put_lock_def fun_upd_idem)
qed

lemma dequeue_spans_alone: "alone lt u \<Longrightarrow> dequeue_spans lt g spans = Some (Inr lt)"
proof (induction spans)
  case (Cons sp spans)
  show ?case
  proof (cases "locks lt (range_start sp)")
    case (Some st)
    from request_done_alone[OF Some aloneD(2)[OF Cons.prems Some]] Some Cons show ?thesis
      by (simp add: get_lock_state_def)
  qed (use Cons in \<open>simp add: get_lock_state_def\<close>)
qed simp

lemma finish_req_alone:
  assumes "alone (ex_table ex) u" "lt_guards (ex_table ex) g \<noteq> None"
  shows "finish_req ex g = Some (Inr ex)"
  using assms dequeue_spans_alone[OF assms(1)] by (auto simp: finish_req_def dequeue_def guard_at_def)

text \<open>A read-only request passes every lock that nobody else holds.\<close>

lemma scan_spans_nil:
  assumes "lt_guards lt g = Some gd" "\<not> should_wait gd"
  shows "scan_spans lt g is_ro [] = Some (Inr (False, lt))"
proof -
  have "gd\<lparr>should_wait := False\<rparr> = gd" using assms(2) by simp
  with assms(1) show ?thesis by (simp add: update_should_wait_def guard_at_def put_guard_def fun_upd_idem)
qed

lemma scan_spans_alone:
  assumes "alone lt (Some u)" "lt_guards lt g = Some gd" "guard_txn gd = u" "\<not> should_wait gd"
  shows "scan_spans lt g True spans = Some (Inr (False, lt))"
proof (induction spans)
  case Nil
  show ?case by (rule scan_spans_nil[OF assms(2,4)])
next
  case (Cons sp spans)
  show ?case
  proof (cases "locks lt (range_start sp)")
    case (Some st)
    obtain t where t: "lt_txns lt u = Some t"
      using aloneD(1)[OF assms(1)] assms(2,3) by (fastforce simp: table_inv_def lock_inv_def links_ok_def)
    have "try_active_wait lt (range_start sp) g True = Some (Inr (False, lt))"
      using try_active_wait_read[OF aloneD(1)[OF assms(1)] assms(2) _ Some] t assms(3) aloneD(2)[OF assms(1) Some]
      by (auto simp: free_of_others_def get_holder_txn_id_def split: option.splits)
    with Some Cons.IH show ?thesis by (simp add: get_lock_state_def)
  qed (use Cons.IH in \<open>simp add: get_lock_state_def\<close>)
qed

lemma alone_guard:
  assumes "alone lt w" "lt_guards lt g = None" "lt_txns lt (guard_txn gd) \<noteq> None"
  shows "alone (put_guard lt g gd) w"
  using assms fresh_guard_inv(1)[of lt g gd] by (simp add: alone_def put_guard_def)

lemma scan_read_only:
  assumes "alone lt (Some u)" "lt_guards lt g = None" "lt_txns lt u = Some t" "is_read_only body"
  shows "scan_and_enqueue lt g \<lparr>request_txn = u, request_body = body\<rparr> =
    Some (Inr (False, g, put_guard lt g (lock_guard_new u True (collect_spans body t))))"
proof -
  let ?gd = "lock_guard_new u True (collect_spans body t)"
  have "alone (put_guard lt g ?gd) (Some u)"
    using alone_guard[OF assms(1,2)] assms(3) by (simp add: lock_guard_new_def)
  from scan_spans_alone[OF this, of g ?gd] assms(3,4) show ?thesis
    by (simp add: scan_and_enqueue_def txn_at_def put_guard_def lock_guard_new_def)
qed

text \<open>A request that is answered at its first attempt.\<close>

lemma request_without_wait:
  assumes "scan_and_enqueue (ex_table ex) g req = Some (Inr (False, g, lt))"
    and "(if is_read_only (request_body req) then execute_read_only_request env (ex\<lparr>ex_table := lt\<rparr>) req
          else execute_write_request env (ex\<lparr>ex_table := lt\<rparr>) req) = Some (Inr (result, ex'))"
    and "alone (ex_table ex') u" "lt_guards (ex_table ex') g \<noteq> None"
  shows "execute_request_with_concurrency_retries env ex (((g, w, ea) # turns) # retries) req =
    (case result of
       Inr resp \<Rightarrow> Some (Inr (Inr resp, ex'))
     | Inl (WriteIntentErr intent) \<Rightarrow>
         run_bind (Some (handle_write_intent_error env ex' intent)) (\<lambda>ex4.
           execute_request_with_concurrency_retries env ex4 retries req)
     | Inl ReadRefreshError \<Rightarrow> Some (Inr (Inl ReadRefreshFailure, ex'))
     | Inl TxnAbortedError \<Rightarrow> Some (Inr (Inl ExecTxnAborted, ex')))"
  using assms(1,2) finish_req_alone[OF assms(3,4)] by simp

declare execute_request_with_concurrency_retries.simps [simp del]

subsection \<open>Guards of a sequence of requests\<close>

fun first_guard :: "'db waits \<Rightarrow> uuid option" where
  "first_guard (((g, _, _) # _) # _) = Some g"
| "first_guard _ = None"

lemma first_guard_Some: "first_guard ws = Some g \<longleftrightarrow> (\<exists>w ea turns retries. ws = ((g, w, ea) # turns) # retries)"
  by (cases ws rule: first_guard.cases) auto

text \<open>Requests with guards that are new and differ from each other.\<close>

fun fresh_guards :: "uuid set \<Rightarrow> 'db waits list \<Rightarrow> bool" where
  "fresh_guards used [] = True"
| "fresh_guards used (ws # wss) =
     (case first_guard ws of None \<Rightarrow> False | Some g \<Rightarrow> g \<notin> used \<and> fresh_guards (insert g used) wss)"

definition used_guards :: "'db internal_db \<Rightarrow> uuid set" where
  "used_guards db = dom (lt_guards (ex_table (db_executor db)))"

lemma fresh_guards_Cons:
  assumes "fresh_guards (used_guards db) (ws # wss)"
  obtains g w ea turns retries where "ws = ((g, w, ea) # turns) # retries" "lt_guards (ex_table (db_executor db)) g = None"
    "fresh_guards (insert g (used_guards db)) wss"
proof -
  obtain g where g: "first_guard ws = Some g" "g \<notin> used_guards db" "fresh_guards (insert g (used_guards db)) wss"
    using assms by (auto split: option.splits)
  then show ?thesis using that first_guard_Some[of ws g] by (metis domIff used_guards_def)
qed

subsection \<open>Between transactions and during one\<close>

type_synonym versions = "mvcc_key \<rightharpoonup> bytes"
type_synonym reads = "(key, oracle_value) range_value multiset"

definition quiet ::
  "'db env \<Rightarrow> ('db \<Rightarrow> bool) \<Rightarrow> ('db \<Rightarrow> string \<Rightarrow> (bytes \<times> bytes) list) \<Rightarrow> 'db exec \<Rightarrow> versions \<Rightarrow> (uuid \<rightharpoonup> bytes) \<Rightarrow> reads \<Rightarrow> bool" where
  "quiet env live contents ex vm rm M \<longleftrightarrow>
     db_is env live contents (ex_store ex) vm rm \<and> records_decode env rm \<and> alone (ex_table ex) None \<and>
     wait_inv (ex_waitq ex) \<and> intervals (ex_oracle ex) M \<and> (\<forall>k. vm (create_intent_key k) = None)"

definition session ::
  "'db env \<Rightarrow> ('db \<Rightarrow> bool) \<Rightarrow> ('db \<Rightarrow> string \<Rightarrow> (bytes \<times> bytes) list) \<Rightarrow> 'db exec \<Rightarrow> versions \<Rightarrow> (uuid \<rightharpoonup> bytes) \<Rightarrow> reads \<Rightarrow>
   uuid \<Rightarrow> txn \<Rightarrow> (key \<Rightarrow> val) \<Rightarrow> bool" where
  "session env live contents ex vm rm M u t val \<longleftrightarrow>
     in_flight env live contents ex vm rm u t val \<and> alone (ex_table ex) (Some u) \<and> intervals (ex_oracle ex) M \<and>
     is_status (record_map env rm u) PENDING \<and>
     (\<forall>k. vm (create_intent_key k) \<noteq> None \<longrightarrow> k \<in> set (lock_spans t)) \<and>
     (\<forall>k st. locks (ex_table ex) k = Some st \<longrightarrow> lock_holder st \<noteq> None \<longrightarrow> k \<in> set (lock_spans t))"

lemma sessionD:
  assumes "session env live contents ex vm rm M u t val"
  shows "in_flight env live contents ex vm rm u t val" "alone (ex_table ex) (Some u)" "intervals (ex_oracle ex) M"
    "is_status (record_map env rm u) PENDING" "lt_txns (ex_table ex) u = Some t"
  using assms by (simp_all add: session_def in_flight_def)

lemma session_guard:
  assumes "session env live contents ex vm rm M u t val" "lt_guards (ex_table ex) g = None" "lt_txns (ex_table ex) (guard_txn gd) \<noteq> None"
  shows "session env live contents (ex\<lparr>ex_table := put_guard (ex_table ex) g gd\<rparr>) vm rm M u t val"
  using assms alone_guard[OF sessionD(2)[OF assms(1)] assms(2,3)]
  by (simp add: session_def in_flight_def alone_def put_guard_def)

lemma session_txn:
  assumes "session env live contents ex vm rm M u t val" "txn_id t' = u" "lock_spans t' = lock_spans t"
  shows "session env live contents (ex\<lparr>ex_table := put_txn (ex_table ex) u t'\<rparr>) vm rm M u t' val"
proof -
  have "table_inv (put_txn (ex_table ex) u t')"
    using aloneD(1)[OF sessionD(2)[OF assms(1)]] put_txn_inv assms(2) by (auto simp: table_inv_def txn_ids_ok_def put_txn_def)
  with assms show ?thesis
    by (simp add: session_def in_flight_def alone_def put_txn_def)
qed

lemma session_oracle:
  "session env live contents ex vm rm M u t val \<Longrightarrow> intervals g M' \<Longrightarrow>
   session env live contents (ex\<lparr>ex_oracle := g\<rparr>) vm rm M' u t val"
  by (simp add: session_def in_flight_def)

text \<open>A transaction without writes leaves the state quiet.\<close>

lemma session_quiet:
  assumes "session env live contents ex vm rm M u t val" "lock_spans t = []"
  shows "quiet env live contents ex vm rm M"
proof -
  have "get_holder_txn_id st = None" if "locks (ex_table ex) k = Some st" for k st
    using assms that by (auto simp: session_def get_holder_txn_id_def)
  with assms show ?thesis
    by (auto simp: quiet_def session_def in_flight_def alone_def free_of_others_def)
qed

text \<open>The oracle records the keys of a read-only request.\<close>

definition recorded :: "reads \<Rightarrow> txn \<Rightarrow> request_union \<Rightarrow> reads" where
  "recorded M t body =
     M + mset (map (\<lambda>sp. RangeValue (range_start sp) (range_end sp) (OracleValue (read_timestamp t) (Some (txn_id t))))
                 (collect_spans body t))"

lemma update_cache_records:
  assumes "intervals g M" "txns u = Some t" "size M + length (collect_spans body t) \<le> NIL"
  obtains g' where "update_cache txns g \<lparr>request_txn = u, request_body = body\<rparr> = Some (Inr g')" "intervals g' (recorded M t body)"
  using add_spans_ok[OF assms(1,3)] assms(2) by (force simp: update_cache_def recorded_def)

subsection \<open>Beginning\<close>

lemma alone_new_txn:
  assumes "alone lt None" "txn_id t = u"
  shows "alone (put_txn lt u t) (Some u)"
proof -
  have "table_inv (put_txn lt u t)"
    using aloneD(1)[OF assms(1)] put_txn_inv assms(2) by (auto simp: table_inv_def txn_ids_ok_def put_txn_def)
  with assms show ?thesis by (auto simp: alone_def put_txn_def free_of_others_def)
qed

lemma begin_effect:
  assumes plat: "platform_ok env live contents" and q: "quiet env live contents (db_executor db) vm rm M"
    and ts: "get_timestamp manual_current_time (db_clock db) = Inr (ts, c)"
    and fresh: "fresh_guards (used_guards db) (ws # rest)"
  obtains db' rm' where "begin_txn env db ws tid = Some (Inr (tid, db'))"
    "session env live contents (db_executor db') vm rm' M tid (txn_new tid ts) val"
    "db_txns db' = (db_txns db)(tid \<mapsto> tid)" "db_clock db' = c"
    "fresh_guards (used_guards db') rest"
    "locks (ex_table (db_executor db')) = locks (ex_table (db_executor db))"
proof -
  obtain g w ea turns retries where ws: "ws = ((g, w, ea) # turns) # retries" and g: "lt_guards (ex_table (db_executor db)) g = None"
    and rest: "fresh_guards (insert g (used_guards db)) rest"
    by (rule fresh_guards_Cons[OF fresh])
  let ?ex = "db_executor db" and ?t = "txn_new tid ts" and ?req = "\<lparr>request_txn = tid, request_body = BeginTxn tid\<rparr>"
  let ?gd = "lock_guard_new tid True []"
  let ?lt = "put_txn (ex_table ?ex) tid ?t"
  let ?ex1 = "?ex\<lparr>ex_table := ?lt\<rparr>"
  have al: "alone ?lt (Some tid)"
    using q by (intro alone_new_txn) (simp_all add: quiet_def txn_new_def)
  have scan: "scan_and_enqueue ?lt g ?req = Some (Inr (False, g, put_guard ?lt g ?gd))"
    using scan_read_only[OF al, of g ?t "BeginTxn tid"] g by (simp add: put_txn_def is_read_only_def collect_spans_def)
  have db: "db_is env live contents (ex_store ?ex) vm rm" "records_decode env rm" using q by (auto simp: quiet_def)
  obtain d rm' where d: "create_pending_transaction_record env (ex_store ?ex) tid ts = Inr d" "db_is env live contents d vm rm'"
    "records_decode env rm'" "record_map env rm' = (record_map env rm)(tid \<mapsto> TxnRecord PENDING (TxnMetadata tid ts))"
    unfolding create_pending_transaction_record_def by (rule put_transaction_record_map[OF plat db])
  let ?ex2 = "?ex\<lparr>ex_store := d, ex_table := put_guard ?lt g ?gd\<rparr>"
  have run: "execute_read_only_request env (?ex1\<lparr>ex_table := put_guard ?lt g ?gd\<rparr>) ?req = Some (Inr (Inr BeginTxnResponse, ?ex2))"
    using d(1) by (simp add: execute_read_only_request_def execute_def begin_execute_def exec_txn_def txn_at_def put_guard_def
        put_txn_def txn_new_def put_store_def update_cache_def collect_spans_def)
  have al2: "alone (put_guard ?lt g ?gd) (Some tid)"
    using alone_guard[OF al] g by (simp add: put_txn_def lock_guard_new_def)
  have "execute_request_with_concurrency_retries env ?ex1 (((g, w, ea) # turns) # retries) ?req = Some (Inr (Inr BeginTxnResponse, ?ex2))"
    by (subst request_without_wait[where lt = "put_guard ?lt g ?gd" and u = "Some tid" and ex' = ?ex2 and result = "Inr BeginTxnResponse"])
      (use scan run al2 in \<open>simp_all add: is_read_only_def put_guard_def\<close>)
  then have res: "begin_txn env db ws tid =
      Some (Inr (tid, db\<lparr>db_executor := ?ex2, db_txns := (db_txns db)(tid \<mapsto> tid), db_clock := c\<rparr>))"
    using ts ws by (simp add: begin_txn_def create_txn_internal_def now_hlc_def run_request_def Let_def)
  have "session env live contents ?ex2 vm rm' M tid ?t val"
    using q d al2 by (simp add: session_def quiet_def in_flight_def alone_def put_guard_def put_txn_def txn_new_def own_intents_def
        is_status_def free_of_others_def get_holder_txn_id_def)
  then show ?thesis
    by (intro that[OF res]) (use rest in \<open>simp_all add: put_guard_def put_txn_def used_guards_def\<close>)
qed

subsection \<open>Reading\<close>

lemma session_mvcc_get:
  assumes plat: "platform_ok env live contents" and s: "session env live contents ex vm rm M u t val"
    and k: "vm (create_intent_key k) = None" and v: "vm (MVCCKey k ts0) \<noteq> None"
  obtains r where "mvcc_get env (ex_store ex) k ts tx = Inr (MVCCGetResult r None)" "newest_version vm k ts r"
  using mvcc_get_no_intent[OF plat in_flightD(1)[OF sessionD(1)[OF s]] k v] by blast

lemma read_only_request:
  assumes s: "session env live contents ex vm rm M u t val" and g: "lt_guards (ex_table ex) g = None" and ro: "is_read_only body"
    and run: "execute env (ex\<lparr>ex_table := put_guard (ex_table ex) g (lock_guard_new u True (collect_spans body t))\<rparr>)
      \<lparr>request_txn = u, request_body = body\<rparr> = Some (Inr (result, ex'))"
    and ex': "lt_txns (ex_table ex') u = Some t'" "intervals (ex_oracle ex') M" "alone (ex_table ex') v" "lt_guards (ex_table ex') g \<noteq> None"
    and cap: "size M + length (collect_spans body t') \<le> NIL"
  obtains orc where "intervals orc (recorded M t' body)"
    "execute_request_with_concurrency_retries env ex (((g, w, ea) # turns) # retries) \<lparr>request_txn = u, request_body = body\<rparr> =
    (case result of
       Inr resp \<Rightarrow> Some (Inr (Inr resp, ex'\<lparr>ex_oracle := orc\<rparr>))
     | Inl (WriteIntentErr intent) \<Rightarrow>
         run_bind (Some (handle_write_intent_error env (ex'\<lparr>ex_oracle := orc\<rparr>) intent)) (\<lambda>ex4.
           execute_request_with_concurrency_retries env ex4 retries \<lparr>request_txn = u, request_body = body\<rparr>)
     | Inl ReadRefreshError \<Rightarrow> Some (Inr (Inl ReadRefreshFailure, ex'\<lparr>ex_oracle := orc\<rparr>))
     | Inl TxnAbortedError \<Rightarrow> Some (Inr (Inl ExecTxnAborted, ex'\<lparr>ex_oracle := orc\<rparr>)))"
proof -
  let ?req = "\<lparr>request_txn = u, request_body = body\<rparr>"
  let ?lt = "put_guard (ex_table ex) g (lock_guard_new u True (collect_spans body t))"
  obtain orc where orc: "update_cache (lt_txns (ex_table ex')) (ex_oracle ex') ?req = Some (Inr orc)" "intervals orc (recorded M t' body)"
    by (rule update_cache_records[where txns = "lt_txns (ex_table ex')", OF ex'(2,1) cap])
  have scan: "scan_and_enqueue (ex_table ex) g ?req = Some (Inr (False, g, ?lt))"
    by (rule scan_read_only[OF sessionD(2)[OF s] g sessionD(5)[OF s] ro])
  have "execute_read_only_request env (ex\<lparr>ex_table := ?lt\<rparr>) ?req = Some (Inr (result, ex'\<lparr>ex_oracle := orc\<rparr>))"
    using run orc(1) by (simp add: execute_read_only_request_def)
  then show ?thesis
    by (intro that[OF orc(2)] request_without_wait[OF scan, where u = v]) (use ex'(3,4) ro in simp_all)
qed

lemma read_effect:
  assumes plat: "platform_ok env live contents" and s: "session env live contents (db_executor db) vm rm M tid t val"
    and link: "db_txns db tid = Some tid" and fresh: "fresh_guards (used_guards db) (ws # rest)"
    and k: "k \<notin> set (lock_spans t)" "newest_version vm k (read_timestamp t) (Some (m, b))" and de: "de b = Inr x"
    and cap: "size M < NIL"
  obtains db' where "db_read env de db ws k tid = Some (Inr (Some x, db'))"
    "session env live contents (db_executor db') vm rm (recorded M t (Get k)) tid (append_read_sets t k) val"
    "db_txns db' = db_txns db" "db_clock db' = db_clock db"
    "fresh_guards (used_guards db') rest"
proof -
  obtain g w ea turns retries where ws: "ws = ((g, w, ea) # turns) # retries" and g: "lt_guards (ex_table (db_executor db)) g = None"
    and rest: "fresh_guards (insert g (used_guards db)) rest"
    by (rule fresh_guards_Cons[OF fresh])
  let ?ex = "db_executor db" and ?t = "append_read_sets t k"
  let ?lt = "put_guard (ex_table ?ex) g (lock_guard_new tid True (collect_spans (Get k) t))"
  let ?ex' = "?ex\<lparr>ex_table := put_txn ?lt tid ?t\<rparr>"
  have tid: "txn_id t = tid" and t: "lt_txns (ex_table ?ex) tid = Some t"
    using in_flightD(6,7)[OF sessionD(1)[OF s]] by auto
  have no_intent: "vm (create_intent_key k) = None" using s k(1) by (auto simp: session_def)
  have "vm m = Some b" "m = MVCCKey k (mtimestamp m)" using k(2) by (cases m; auto simp: newest_version_def)+
  then have "vm (MVCCKey k (mtimestamp m)) \<noteq> None" by auto
  then obtain r where r: "mvcc_get env (ex_store ?ex) k (read_timestamp t) (Some tid) = Inr (MVCCGetResult r None)"
    "newest_version vm k (read_timestamp t) r"
    using session_mvcc_get[OF plat s no_intent] by blast
  then have r': "r = Some (m, b)" using newest_version_unique k(2) by blast
  have run: "execute env (?ex\<lparr>ex_table := ?lt\<rparr>) \<lparr>request_txn = tid, request_body = Get k\<rparr> = Some (Inr (Inr (GetResponse (Some (m, b))), ?ex'))"
    using t r(1) r' by (simp add: execute_def get_execute_def exec_txn_def txn_at_def put_guard_def upd_txn_def)
  have s1: "session env live contents (?ex\<lparr>ex_table := ?lt\<rparr>) vm rm M tid t val"
    by (rule session_guard[OF s g]) (simp add: lock_guard_new_def t)
  have s2: "session env live contents ?ex' vm rm M tid ?t val"
    using session_txn[OF s1, of ?t] tid by (simp add: append_read_sets_def)
  have same: "collect_spans (Get k) ?t = [point_span k]" "recorded M ?t (Get k) = recorded M t (Get k)"
    by (simp_all add: collect_spans_def recorded_def append_read_sets_def)
  obtain orc where orc: "intervals orc (recorded M ?t (Get k))"
    "execute_request_with_concurrency_retries env ?ex (((g, w, ea) # turns) # retries) \<lparr>request_txn = tid, request_body = Get k\<rparr> =
      Some (Inr (Inr (GetResponse (Some (m, b))), ?ex'\<lparr>ex_oracle := orc\<rparr>))"
    by (rule read_only_request[OF s g _ run sessionD(5)[OF s2] sessionD(3)[OF s2] sessionD(2)[OF s2]])
      (use cap in \<open>simp_all add: is_read_only_def same(1) put_guard_def put_txn_def\<close>)
  let ?db = "db\<lparr>db_executor := ?ex'\<lparr>ex_oracle := orc\<rparr>\<rparr>"
  have "db_read env de db ws k tid = Some (Inr (Some x, ?db))"
    using orc(2) link de ws by (simp add: db_read_def get_txn_def run_request_def str_to_key_def)
  moreover have "session env live contents (db_executor ?db) vm rm (recorded M t (Get k)) tid ?t val"
    using session_oracle[OF s2 orc(1)] same(2) by simp
  ultimately show ?thesis by (rule that) (use rest in \<open>simp_all add: put_guard_def put_txn_def used_guards_def\<close>)
qed

subsection \<open>Committing\<close>

lemma commit_refused:
  assumes plat: "platform_ok env live contents" and s: "session env live contents (db_executor db) vm rm M tid t val"
    and link: "db_txns db tid = Some tid" and fresh: "fresh_guards (used_guards db) (ws # rest)"
    and refresh: "refresh_keys env (ex_store (db_executor db)) tid tid (read_timestamp t) (write_timestamp t) (read_set t) = Inr False"
    and cap: "size M + length (finalize_spans t) \<le> NIL"
  obtains db' where "commit_txn env db ws tid = Some (Inr (CommitFail ReadRefreshFail, db'))"
    "session env live contents (db_executor db') vm rm (recorded M t CommitTxn) tid t val"
    "db_txns db' = db_txns db" "db_clock db' = db_clock db"
    "fresh_guards (used_guards db') rest"
proof -
  obtain g w ea turns retries where ws: "ws = ((g, w, ea) # turns) # retries" and g: "lt_guards (ex_table (db_executor db)) g = None"
    and rest: "fresh_guards (insert g (used_guards db)) rest"
    by (rule fresh_guards_Cons[OF fresh])
  let ?ex = "db_executor db"
  let ?lt = "put_guard (ex_table ?ex) g (lock_guard_new tid True (collect_spans CommitTxn t))"
  let ?ex1 = "?ex\<lparr>ex_table := ?lt\<rparr>"
  have s1: "session env live contents ?ex1 vm rm M tid t val"
    by (rule session_guard[OF s g]) (simp add: lock_guard_new_def sessionD(5)[OF s])
  note f = in_flightD[OF sessionD(1)[OF s1]]
  have rec: "get_transaction_record env (ex_store ?ex1) tid = Inr (record_map env rm tid)"
    by (rule get_transaction_record_map[OF plat f(1,2)])
  have "refresh_read_timestamp env ?ex1 tid = Inr (False, ?ex1)"
    using f(7,8) refresh by (simp add: refresh_read_timestamp_def Let_def)
  then have run: "execute env ?ex1 \<lparr>request_txn = tid, request_body = CommitTxn\<rparr> = Some (Inr (Inl ReadRefreshError, ?ex1))"
    using f(7,8) rec sessionD(4)[OF s] by (auto simp: execute_def commit_execute_def is_status_def split: option.splits)
  obtain orc where orc: "intervals orc (recorded M t CommitTxn)"
    "execute_request_with_concurrency_retries env ?ex (((g, w, ea) # turns) # retries) \<lparr>request_txn = tid, request_body = CommitTxn\<rparr> =
      Some (Inr (Inl ReadRefreshFailure, ?ex1\<lparr>ex_oracle := orc\<rparr>))"
    by (rule read_only_request[OF s g _ run sessionD(5)[OF s1] sessionD(3)[OF s1] sessionD(2)[OF s1]])
      (use cap in \<open>simp_all add: is_read_only_def collect_spans_def put_guard_def\<close>)
  let ?db = "db\<lparr>db_executor := ?ex1\<lparr>ex_oracle := orc\<rparr>\<rparr>"
  have "commit_txn env db ws tid = Some (Inr (CommitFail ReadRefreshFail, ?db))"
    using orc(2) link ws by (simp add: commit_txn_def get_txn_def run_request_def)
  moreover have "session env live contents (db_executor ?db) vm rm (recorded M t CommitTxn) tid t val"
    using session_oracle[OF s1 orc(1)] by simp
  ultimately show ?thesis by (rule that) (use rest in \<open>simp_all add: put_guard_def used_guards_def\<close>)
qed

lemma refresh_fails:
  assumes plat: "platform_ok env live contents" and s: "session env live contents ex vm rm M u t val"
    and k: "k \<notin> set (lock_spans t)" "newest_version vm k (write_timestamp t) (Some (m, b))" "mtimestamp m < read_timestamp t"
    and rs: "read_set t = k # ks"
  shows "refresh_keys env (ex_store ex) u u (read_timestamp t) (write_timestamp t) (read_set t) = Inr False"
proof -
  have no_intent: "vm (create_intent_key k) = None" using s k(1) by (auto simp: session_def)
  have "vm m = Some b" "m = MVCCKey k (mtimestamp m)" using k(2) by (cases m; auto simp: newest_version_def)+
  then have "vm (MVCCKey k (mtimestamp m)) \<noteq> None" by auto
  then obtain r where "mvcc_get env (ex_store ex) k (write_timestamp t) (Some u) = Inr (MVCCGetResult r None)"
    "newest_version vm k (write_timestamp t) r"
    using session_mvcc_get[OF plat s no_intent] by blast
  then have "mvcc_get env (ex_store ex) k (write_timestamp t) (Some u) = Inr (MVCCGetResult (Some (m, b)) None)"
    using newest_version_unique[OF k(2)] by blast
  with k(3) rs show ?thesis by simp
qed

end
