(* ===== verification/Database_Writes.thy ===== *)
theory Database_Writes
  imports Database_Effects
begin

text \<open>
  The writes of a transaction that meets no other, and its commit: the request reserves the lock, the
  execution turns the reservation into a held lock and an intent, and the commit turns every intent into a
  version and leaves the state quiet.
\<close>

subsection \<open>The scan of a write\<close>

text \<open>The states of a lock table whose only reservation is the one of the guard just created.\<close>

definition reserves_only :: "lock_table \<Rightarrow> lock_table \<Rightarrow> key \<Rightarrow> bool" where
  "reserves_only lt lt' k \<longleftrightarrow>
     (\<forall>k'. k' \<noteq> k \<longrightarrow> locks lt' k' = locks lt k') \<and> (\<exists>r. locks lt' k = map_option (\<lambda>st. st\<lparr>reservation := r\<rparr>) (locks lt k))"

lemma claim_alone:
  assumes inv: "table_inv lt" and idle: "idle_guard lt g" and g: "lt_guards lt g = Some gd" "wait_done gd = 0" and t: "lt_txns lt (guard_txn gd) = Some t"
    and st: "locks lt k = Some st" "lock_holder st = None" "commit_ok (last_committed_timestamp st)"
  obtains lt' ts where "claim_reservation lt k g = Some (Inr lt')" "table_inv lt'"
    "lt_txns lt' = (lt_txns lt)(guard_txn gd \<mapsto> t\<lparr>write_timestamp := ts\<rparr>)" "lt_guards lt' = released (lt_guards lt) [g]"
    "locks lt' = (locks lt)(k \<mapsto> st\<lparr>reservation := Some g\<rparr>)"
    "ts = write_timestamp t \<or> (\<exists>c. last_committed_timestamp st = Some c \<and> next_logical_timestamp c = Inr ts)"
    "\<forall>c. last_committed_timestamp st = Some c \<longrightarrow> next_logical_timestamp c = Inr ts"
proof -
  let ?u = "guard_txn gd"
  obtain lt1 where lt1: "bump_txn_write_timestamp lt k ?u = Inr lt1"
    using bump_returns[OF st(1) _ st(3)] t by blast
  let ?lt = "lt1\<lparr>lt_guards := released (lt_guards lt) [g], locks := (locks lt)(k \<mapsto> st\<lparr>reservation := Some g\<rparr>)\<rparr>"
  have claim: "claim_reservation lt k g = Some (Inr ?lt)"
    using claim_reservation_ok[OF st(1) g] lt1 by simp
  obtain ts where ts: "lt_txns lt1 = (lt_txns lt)(?u \<mapsto> t\<lparr>write_timestamp := ts\<rparr>)"
    "ts = write_timestamp t \<or> (\<exists>c. last_committed_timestamp st = Some c \<and> next_logical_timestamp c = Inr ts)"
    "\<forall>c. last_committed_timestamp st = Some c \<longrightarrow> next_logical_timestamp c = Inr ts"
  proof (cases "last_committed_timestamp st")
    case None
    with lt1 st(1) have "lt1 = lt" by (simp add: bump_txn_write_timestamp_def lock_at_def)
    with t None that[of "write_timestamp t"] show ?thesis by (simp add: fun_upd_idem)
  qed (use lt1 st(1) t that in \<open>auto simp: bump_txn_write_timestamp_def lock_at_def txn_at_def put_txn_def rbind_eq_Inr\<close>)
  have "txn_id t = ?u" using inv t by (auto simp: table_inv_def txn_ids_ok_def)
  then have "table_inv ?lt"
    using inv claim_inv(3)[OF _ idle st(1,2) claim] ts(1) by (auto simp: table_inv_def txn_ids_ok_def)
  with claim ts that show ?thesis by simp
qed

definition write_guard :: "uuid \<Rightarrow> key \<Rightarrow> lock_guard" where
  "write_guard u k = lock_guard_new u False [point_span k]"

lemma write_guard_facts [simp]:
  "guard_txn (write_guard u k) = u" "\<not> should_wait (write_guard u k)" "wait_done (write_guard u k) = 0"
  "lt_guards (put_guard lt g gd) g = Some gd" "locks (put_guard lt g gd) = locks lt" "lt_txns (put_guard lt g gd) = lt_txns lt"
  by (simp_all add: write_guard_def lock_guard_new_def put_guard_def)

lemma owner_alone:
  assumes "alone lt (Some u)"
  shows "owner lt k = (case locks lt k of None \<Rightarrow> None | Some st \<Rightarrow> get_holder_txn_id st)" "owner lt k \<in> {None, Some u}"
  using aloneD(2)[OF assms, of k] by (auto simp: owner_def get_holder_txn_id_def free_of_others_def split: option.splits)

lemma write_guard_inv:
  assumes al: "alone lt (Some u)" and fresh: "lt_guards lt g = None" and t: "lt_txns lt u = Some t"
  shows "table_inv (put_guard lt g (write_guard u k))" "owner (put_guard lt g (write_guard u k)) k' = owner lt k'"
  using fresh_guard_inv[OF aloneD(1)[OF al] fresh, of "write_guard u k"] t by simp_all

lemma scan_put_eq:
  assumes "lt_txns lt u = Some t"
  shows "scan_and_enqueue lt g \<lparr>request_txn = u, request_body = Put k v\<rparr> =
    run_bind (scan_spans (put_guard lt g (write_guard u k)) g False [point_span k]) (\<lambda>(wait, lt2). Some (Inr (wait, g, lt2)))"
  using assms by (simp add: scan_and_enqueue_def txn_at_def collect_spans_def is_read_only_def write_guard_def Let_def del: scan_spans.simps)

text \<open>A key without a lock state, or whose lock the transaction holds already.\<close>

lemma scan_put_passes:
  assumes al: "alone lt (Some u)" and fresh: "lt_guards lt g = None" and t: "lt_txns lt u = Some t"
    and k: "\<And>st. locks lt k = Some st \<Longrightarrow> lock_holder st \<noteq> None"
  shows "scan_spans (put_guard lt g (write_guard u k)) g False [point_span k] = Some (Inr (False, put_guard lt g (write_guard u k)))"
proof -
  let ?lt = "put_guard lt g (write_guard u k)"
  have nil: "scan_spans ?lt g False [] = Some (Inr (False, ?lt))" by (rule scan_spans_nil[of _ _ "write_guard u k"]) simp_all
  show ?thesis
  proof (cases "locks lt k")
    case None
    with nil show ?thesis by (simp add: get_lock_state_def point_span_def del: scan_spans.simps(1))
  next
    case (Some st)
    have "owner ?lt k = Some u"
      unfolding write_guard_inv(2)[OF al fresh t] using owner_alone[OF al, of k] k[OF Some] Some
      by (auto simp: get_holder_txn_id_def)
    with Some nil try_active_wait_write[OF write_guard_inv(1)[OF al fresh t, of k], of g "write_guard u k" k st] show ?thesis
      by (simp add: get_lock_state_def point_span_def del: scan_spans.simps(1))
  qed
qed

text \<open>A free lock is reserved.\<close>

lemma scan_put_reserves:
  assumes al: "alone lt (Some u)" and fresh: "lt_guards lt g = None" and t: "lt_txns lt u = Some t"
    and st: "locks lt k = Some st" "lock_holder st = None"
  obtains lt' ts where "scan_spans (put_guard lt g (write_guard u k)) g False [point_span k] = Some (Inr (False, lt'))" "table_inv lt'"
    "lt_txns lt' = (lt_txns lt)(u \<mapsto> t\<lparr>write_timestamp := ts\<rparr>)" "lt_guards lt' = released ((lt_guards lt)(g \<mapsto> write_guard u k)) [g]"
    "locks lt' = (locks lt)(k \<mapsto> st\<lparr>reservation := Some g\<rparr>)" "owner lt' k = Some u"
    "ts = write_timestamp t \<or> (\<exists>c. last_committed_timestamp st = Some c \<and> next_logical_timestamp c = Inr ts)"
    "\<forall>c. last_committed_timestamp st = Some c \<longrightarrow> next_logical_timestamp c = Inr ts"
proof -
  let ?lt = "put_guard lt g (write_guard u k)"
  note inv = write_guard_inv[OF al fresh t, of k]
  have "queue_at (locks lt) k' = []" for k'
    using aloneD(2)[OF al] by (auto simp: queue_at_def free_of_others_def split: option.splits)
  then have idle: "idle_guard ?lt g" by (simp add: idle_guard_def)
  have tx: "lt_txns ?lt (guard_txn (write_guard u k)) = Some t" and st': "locks ?lt k = Some st"
    and c: "commit_ok (last_committed_timestamp st)"
    using t st(1) aloneD(2)[OF al st(1)] by (simp_all add: free_of_others_def)
  obtain lt' ts where lt': "claim_reservation ?lt k g = Some (Inr lt')" "table_inv lt'"
    "lt_txns lt' = (lt_txns ?lt)(guard_txn (write_guard u k) \<mapsto> t\<lparr>write_timestamp := ts\<rparr>)" "lt_guards lt' = released (lt_guards ?lt) [g]"
    "locks lt' = (locks ?lt)(k \<mapsto> st\<lparr>reservation := Some g\<rparr>)"
    "ts = write_timestamp t \<or> (\<exists>c. last_committed_timestamp st = Some c \<and> next_logical_timestamp c = Inr ts)"
    "\<forall>c. last_committed_timestamp st = Some c \<longrightarrow> next_logical_timestamp c = Inr ts"
    by (rule claim_alone[OF inv(1) idle write_guard_facts(4,3) tx st' st(2) c])
  have "owner ?lt k = None" unfolding inv(2) using owner_alone(1)[OF al, of k] st by (simp add: get_holder_txn_id_def)
  moreover have "scan_spans lt' g False [] = Some (Inr (False, lt'))"
    using lt'(4) by (intro scan_spans_nil[of _ _ "(write_guard u k)\<lparr>wait_done := 1, wait_state := DoneWaiting\<rparr>"]) (simp_all add: released_def)
  ultimately have "scan_spans ?lt g False [point_span k] = Some (Inr (False, lt'))"
    using try_active_wait_write[OF inv(1), of g "write_guard u k" k st] st(1) lt'(1)
    by (simp add: get_lock_state_def point_span_def del: scan_spans.simps(1))
  moreover have "owner lt' k = Some u"
    using claim_owner[OF lt'(1) write_guard_facts(4,3) st' st(2)] by simp
  ultimately show ?thesis using that[of lt' ts] lt'(2-7) by (simp add: put_guard_def)
qed

lemma scan_put:
  assumes al: "alone lt (Some u)" and fresh: "lt_guards lt g = None" and t: "lt_txns lt u = Some t"
  obtains lt' ts where "scan_and_enqueue lt g \<lparr>request_txn = u, request_body = Put k v\<rparr> = Some (Inr (False, g, lt'))" "table_inv lt'"
    "lt_txns lt' = (lt_txns lt)(u \<mapsto> t\<lparr>write_timestamp := ts\<rparr>)" "dom (lt_guards lt') = insert g (dom (lt_guards lt))"
    "reserves_only lt lt' k" "owner lt' k \<in> {None, Some u}"
    "ts = write_timestamp t \<or> (\<exists>st c. locks lt k = Some st \<and> last_committed_timestamp st = Some c \<and> next_logical_timestamp c = Inr ts)"
    "\<forall>st c. locks lt k = Some st \<longrightarrow> lock_holder st = None \<longrightarrow> last_committed_timestamp st = Some c \<longrightarrow> next_logical_timestamp c = Inr ts"
proof (cases "\<exists>st. locks lt k = Some st \<and> lock_holder st = None")
  case False
  let ?lt = "put_guard lt g (write_guard u k)"
  have "reserves_only lt ?lt k"
    using aloneD(2)[OF al, of k] by (auto simp: reserves_only_def free_of_others_def map_option_case split: option.splits intro!: exI[of _ None])
  moreover have "lt_txns ?lt = (lt_txns lt)(u \<mapsto> t\<lparr>write_timestamp := write_timestamp t\<rparr>)"
    "dom (lt_guards ?lt) = insert g (dom (lt_guards lt))"
    using t by (simp_all add: fun_upd_idem put_guard_def)
  moreover have "scan_spans ?lt g False [point_span k] = Some (Inr (False, ?lt))"
    by (rule scan_put_passes[OF al fresh t]) (use False in auto)
  moreover have "\<forall>st c. locks lt k = Some st \<longrightarrow> lock_holder st = None \<longrightarrow> last_committed_timestamp st = Some c \<longrightarrow>
      next_logical_timestamp c = Inr (write_timestamp t)" using False by blast
  ultimately show ?thesis
    using that[of ?lt "write_timestamp t"] scan_put_eq[OF t, of g k v] write_guard_inv[OF al fresh t, of k] owner_alone(2)[OF al, of k]
    by simp
next
  case True
  then obtain st where st: "locks lt k = Some st" "lock_holder st = None" by blast
  obtain lt' ts where lt': "scan_spans (put_guard lt g (write_guard u k)) g False [point_span k] = Some (Inr (False, lt'))" "table_inv lt'"
    "lt_txns lt' = (lt_txns lt)(u \<mapsto> t\<lparr>write_timestamp := ts\<rparr>)" "lt_guards lt' = released ((lt_guards lt)(g \<mapsto> write_guard u k)) [g]"
    "locks lt' = (locks lt)(k \<mapsto> st\<lparr>reservation := Some g\<rparr>)" "owner lt' k = Some u"
    "ts = write_timestamp t \<or> (\<exists>c. last_committed_timestamp st = Some c \<and> next_logical_timestamp c = Inr ts)"
    "\<forall>c. last_committed_timestamp st = Some c \<longrightarrow> next_logical_timestamp c = Inr ts"
    by (rule scan_put_reserves[OF al fresh t st])
  have "reserves_only lt lt' k" "dom (lt_guards lt') = insert g (dom (lt_guards lt))"
    using lt'(4,5) st(1) by (auto simp: reserves_only_def released_facts dom_def)
  then show ?thesis using that[of lt' ts] scan_put_eq[OF t, of g k v] lt' st(1) by auto
qed

subsection \<open>Writing\<close>

text \<open>
  The timestamps a writing transaction may end up with: its own, those of the recorded reads, and the
  successors of the last commits on the locks.
\<close>

definition last_commit :: "lock_table \<Rightarrow> key \<Rightarrow> timestamp option" where
  "last_commit lt k = Option.bind (locks lt k) last_committed_timestamp"

definition candidates :: "lock_table \<Rightarrow> reads \<Rightarrow> timestamp \<Rightarrow> timestamp set" where
  "candidates lt M ts =
     insert ts (ov_timestamp ` rv_value ` set_mset M \<union> {ts'. \<exists>k c. last_commit lt k = Some c \<and> next_logical_timestamp c = Inr ts'})"

text \<open>
  A key whose lock has seen a commit forces the successor of that commit on the writer, unless a later read of
  the key is recorded.
\<close>

definition forces :: "lock_table \<Rightarrow> reads \<Rightarrow> key \<Rightarrow> timestamp \<Rightarrow> bool" where
  "forces lt M k ts \<longleftrightarrow>
     (\<exists>c. last_commit lt k = Some c \<and> next_logical_timestamp c = Inr ts) \<and>
     (\<forall>r \<in># M. overlapping k k r \<longrightarrow> ov_timestamp (rv_value r) \<le> ts)"

lemma in_flight_table:
  assumes "in_flight env live contents ex vm rm u t val" "table_inv lt" "lt_txns lt u = Some t'" "lock_spans t' = lock_spans t"
    "\<And>k st. locks (ex_table ex) k = Some st \<Longrightarrow> \<exists>r. locks lt k = Some (st\<lparr>reservation := r\<rparr>)"
  shows "in_flight env live contents (ex\<lparr>ex_table := lt\<rparr>) vm rm u t' val"
proof -
  have "\<exists>st. locks lt k = Some st \<and> get_holder_txn_id st = Some u" if k: "k \<in> set (lock_spans t)" for k
  proof -
    obtain st where "locks (ex_table ex) k = Some st" "get_holder_txn_id st = Some u"
      using assms(1) k by (auto simp: in_flight_def)
    with assms(5)[of k st] show ?thesis by (auto simp: get_holder_txn_id_def)
  qed
  with assms(1-4) show ?thesis by (simp add: in_flight_def)
qed

lemma reserves_only_locks:
  assumes "reserves_only lt lt' k" "\<And>k st. locks lt k = Some st \<Longrightarrow> free_of_others w st" "locks lt k' = Some st"
  shows "\<exists>r. locks lt' k' = Some (st\<lparr>reservation := r\<rparr>)"
proof (cases "k' = k")
  case False
  have "st\<lparr>reservation := None\<rparr> = st" using assms(2)[OF assms(3)] by (cases st) (simp add: free_of_others_def)
  with assms False show ?thesis by (auto simp: reserves_only_def intro: exI[of _ None])
qed (use assms in \<open>auto simp: reserves_only_def\<close>)

lemma alone_acquired:
  assumes "alone lt (Some u)" "reserves_only lt lt1 k" "table_inv lt2" "locks lt2 = (locks lt1)(k \<mapsto> st)" "acquired (locks lt1) k u st"
  shows "alone lt2 (Some u)"
proof -
  have "free_of_others (Some u) st"
    using assms(2,5) aloneD(2)[OF assms(1), of k]
    by (cases "locks lt k") (auto simp: acquired_def free_of_others_def reserves_only_def queue_at_def queue_def commit_ok_def)
  moreover have "free_of_others (Some u) st'" if "locks lt2 k' = Some st'" "k' \<noteq> k" for k' st'
    using that assms(2,4) aloneD(2)[OF assms(1), of k'] by (auto simp: reserves_only_def)
  ultimately show ?thesis using assms(3,4) by (auto simp: alone_def)
qed

lemma last_commit_acquired:
  assumes "reserves_only lt lt1 k" "locks lt2 = (locks lt1)(k \<mapsto> st)" "acquired (locks lt1) k u st"
  shows "last_commit lt2 = last_commit lt"
proof
  fix k'
  show "last_commit lt2 k' = last_commit lt k'"
    using assms by (cases "k' = k"; cases "locks lt k") (auto simp: last_commit_def acquired_def reserves_only_def)
qed

text \<open>The execution of a put after its scan.\<close>

lemma put_after_scan:
  assumes plat: "platform_ok env live contents" and s: "session env live contents ex vm rm M u t val" and k: "valid_utf8 k"
    and lt: "table_inv lt" "lt_txns lt = (lt_txns (ex_table ex))(u \<mapsto> t\<lparr>write_timestamp := ts1\<rparr>)" "reserves_only (ex_table ex) lt k"
      "owner lt k \<in> {None, Some u}"
  obtains ex' ts ib where
    "execute_write_request env (ex\<lparr>ex_table := lt\<rparr>) \<lparr>request_txn = u, request_body = Put k b\<rparr> = Some (Inr (Inr PutResponse, ex'))"
    "session env live contents ex' (vm(create_intent_key k \<mapsto> ib)) rm M u (append_lock_span (t\<lparr>write_timestamp := ts\<rparr>) k) (val(k := b))"
    "lt_guards (ex_table ex') = lt_guards lt" "last_commit (ex_table ex') = last_commit (ex_table ex)"
    "\<forall>r \<in># M. overlapping k k r \<longrightarrow> ov_timestamp (rv_value r) \<le> ts"
    "ts = ts1 \<or> (\<exists>r \<in># M. overlapping k k r \<and> ov_timestamp (rv_value r) = ts)" "ts1 \<le> ts"
proof -
  let ?req = "\<lparr>request_txn = u, request_body = Put k b\<rparr>" and ?ex1 = "ex\<lparr>ex_table := lt\<rparr>"
  note f = in_flightD[OF sessionD(1)[OF s]]
  note al = sessionD(2)[OF s]
  have iv: "intervals (ex_oracle ?ex1) M" "lt_txns (ex_table ?ex1) u = Some (t\<lparr>write_timestamp := ts1\<rparr>)"
    using sessionD(3)[OF s] lt(2) by simp_all
  obtain ts where ts: "execute_write_request env ?ex1 ?req =
      execute env (?ex1\<lparr>ex_table := put_txn (ex_table ?ex1) u (t\<lparr>write_timestamp := ts1, write_timestamp := ts\<rparr>)\<rparr>) ?req"
    "\<forall>r \<in># M. overlapping k k r \<longrightarrow> ov_timestamp (rv_value r) \<le> ts"
    "ts = ts1 \<or> (\<exists>r \<in># M. overlapping k k r \<and> ov_timestamp (rv_value r) = ts)" "ts1 \<le> ts"
    using write_request_timestamp[OF iv, of env k b] by auto
  let ?t = "t\<lparr>write_timestamp := ts\<rparr>" and ?lt = "put_txn lt u (t\<lparr>write_timestamp := ts\<rparr>)"
  let ?ex2 = "ex\<lparr>ex_table := ?lt\<rparr>"
  have inv: "table_inv ?lt"
    using lt(1) put_txn_inv f(7) by (auto simp: table_inv_def txn_ids_ok_def put_txn_def)
  have fl: "in_flight env live contents ?ex2 vm rm u ?t val"
    by (rule in_flight_table[OF sessionD(1)[OF s] inv])
      (use reserves_only_locks[OF lt(3) aloneD(2)[OF al]] in \<open>auto simp: put_txn_def\<close>)
  have own: "owner (ex_table ?ex2) k \<in> {None, Some u}"
    using lt(4) by (simp add: owner_def put_txn_def cong: option.case_cong)
  obtain ex' ib st where ex': "put_execute env ?ex2 u k b = Inr (Inr PutResponse, ex')"
    "in_flight env live contents ex' (vm(create_intent_key k \<mapsto> ib)) rm u (append_lock_span ?t k) (val(k := b))"
    "ex_oracle ex' = ex_oracle ?ex2" "lt_guards (ex_table ex') = lt_guards (ex_table ?ex2)"
    "locks (ex_table ex') = (locks (ex_table ?ex2))(k \<mapsto> st)" "acquired (locks (ex_table ?ex2)) k u st"
    by (rule put_effect[OF plat fl k _ own]) (use s in \<open>auto simp: session_def is_status_def split: option.splits\<close>)
  have st: "locks (ex_table ex') = (locks lt)(k \<mapsto> st)" "acquired (locks lt) k u st" using ex'(5,6) by (simp_all add: put_txn_def)
  have "k' \<in> set (lock_spans t)" if "locks (ex_table ex') k' = Some st'" "lock_holder st' \<noteq> None" "k' \<noteq> k" for k' st'
    using that s lt(3) st(1) by (auto simp: session_def reserves_only_def)
  with s ex'(2,3) alone_acquired[OF al lt(3) in_flightD(3)[OF ex'(2)] st]
  have "session env live contents ex' (vm(create_intent_key k \<mapsto> ib)) rm M u (append_lock_span ?t k) (val(k := b))"
    by (auto simp: session_def set_append_lock_span)
  moreover have "execute_write_request env ?ex1 ?req = Some (Inr (Inr PutResponse, ex'))"
    using ts(1) ex'(1) by (simp add: execute_def)
  ultimately show ?thesis
    using that ex'(4) last_commit_acquired[OF lt(3) st] ts(2-4) by (simp add: put_txn_def)
qed

lemma write_effect:
  assumes plat: "platform_ok env live contents" and s: "session env live contents (db_executor db) vm rm M tid t val"
    and link: "db_txns db tid = Some tid" and fresh: "fresh_guards (used_guards db) (ws # rest)"
    and k: "valid_utf8 k" and ser: "ser v = Inr b"
  obtains db' ts ib where "db_write env ser db ws k v tid = Some (Inr (Inr PutResponse, db'))"
    "session env live contents (db_executor db') (vm(create_intent_key k \<mapsto> ib)) rm M tid
       (append_lock_span (t\<lparr>write_timestamp := ts\<rparr>) k) (val(k := b))"
    "db_txns db' = db_txns db" "db_clock db' = db_clock db" "fresh_guards (used_guards db') rest"
    "\<forall>r \<in># M. overlapping k k r \<longrightarrow> ov_timestamp (rv_value r) \<le> ts"
    "ts \<in> candidates (ex_table (db_executor db)) M (write_timestamp t)" "last_commit (ex_table (db_executor db')) = last_commit (ex_table (db_executor db))"
    "\<forall>c. k \<notin> set (lock_spans t) \<longrightarrow> forces (ex_table (db_executor db)) M k c \<longrightarrow> ts = c"
proof -
  obtain g w ea turns retries where ws: "ws = ((g, w, ea) # turns) # retries" and g: "lt_guards (ex_table (db_executor db)) g = None"
    and rest: "fresh_guards (insert g (used_guards db)) rest"
    by (rule fresh_guards_Cons[OF fresh])
  let ?ex = "db_executor db" and ?req = "\<lparr>request_txn = tid, request_body = Put k b\<rparr>"
  obtain lt ts1 where scan: "scan_and_enqueue (ex_table ?ex) g ?req = Some (Inr (False, g, lt))" "table_inv lt"
    "lt_txns lt = (lt_txns (ex_table ?ex))(tid \<mapsto> t\<lparr>write_timestamp := ts1\<rparr>)"
    "dom (lt_guards lt) = insert g (dom (lt_guards (ex_table ?ex)))" "reserves_only (ex_table ?ex) lt k" "owner lt k \<in> {None, Some tid}"
    "ts1 = write_timestamp t \<or>
      (\<exists>st c. locks (ex_table ?ex) k = Some st \<and> last_committed_timestamp st = Some c \<and> next_logical_timestamp c = Inr ts1)"
    "\<forall>st c. locks (ex_table ?ex) k = Some st \<longrightarrow> lock_holder st = None \<longrightarrow> last_committed_timestamp st = Some c \<longrightarrow>
      next_logical_timestamp c = Inr ts1"
    by (rule scan_put[OF sessionD(2)[OF s] g sessionD(5)[OF s], of k b])
  obtain ex' ts ib where ex': "execute_write_request env (?ex\<lparr>ex_table := lt\<rparr>) ?req = Some (Inr (Inr PutResponse, ex'))"
    "session env live contents ex' (vm(create_intent_key k \<mapsto> ib)) rm M tid (append_lock_span (t\<lparr>write_timestamp := ts\<rparr>) k) (val(k := b))"
    "lt_guards (ex_table ex') = lt_guards lt" "last_commit (ex_table ex') = last_commit (ex_table ?ex)"
    "\<forall>r \<in># M. overlapping k k r \<longrightarrow> ov_timestamp (rv_value r) \<le> ts"
    "ts = ts1 \<or> (\<exists>r \<in># M. overlapping k k r \<and> ov_timestamp (rv_value r) = ts)" "ts1 \<le> ts"
    by (rule put_after_scan[OF plat s k scan(2,3,5,6)])
  have guard: "lt_guards (ex_table ex') g \<noteq> None" using ex'(3) scan(4) by auto
  have "execute_request_with_concurrency_retries env ?ex (((g, w, ea) # turns) # retries) ?req = Some (Inr (Inr PutResponse, ex'))"
    by (subst request_without_wait[OF scan(1) _ sessionD(2)[OF ex'(2)] guard, where result = "Inr PutResponse"])
      (use ex'(1) in \<open>simp_all add: is_read_only_def\<close>)
  then have "db_write env ser db ws k v tid = Some (Inr (Inr PutResponse, db\<lparr>db_executor := ex'\<rparr>))"
    using link ser ws by (simp add: db_write_def get_txn_def run_request_def str_to_key_def)
  moreover have "ts1 = write_timestamp t \<or> (\<exists>c. last_commit (ex_table ?ex) k = Some c \<and> next_logical_timestamp c = Inr ts1)"
    using scan(7) by (auto simp: last_commit_def)
  then have "ts \<in> candidates (ex_table ?ex) M (write_timestamp t)" using ex'(6) by (auto simp: candidates_def)
  moreover have "fresh_guards (used_guards (db\<lparr>db_executor := ex'\<rparr>)) rest" using ex'(3) scan(4) rest by (simp add: used_guards_def)
  moreover have "ts = c" if k: "k \<notin> set (lock_spans t)" and c: "forces (ex_table ?ex) M k c" for c
  proof -
    have "ts1 = c" using scan(8) k c s by (auto simp: forces_def last_commit_def session_def bind_eq_Some_conv)
    with ex'(6,7) c show ?thesis by (auto simp: forces_def)
  qed
  ultimately show ?thesis using that[of "db\<lparr>db_executor := ex'\<rparr>"] ex'(2,4,5) by simp
qed

subsection \<open>Finalising\<close>

definition freed :: "update_lock \<Rightarrow> lock_state \<Rightarrow> lock_state" where
  "freed ul st = st\<lparr>lock_holder := None, last_committed_timestamp := commit_of st ul\<rparr>"

lemma lock_is_free_alone:
  assumes "locks lt k = Some st" "lock_holder st = None" "free_of_others u st"
  shows "lock_is_free lt k = Some (Inr (True, lt))"
proof -
  have "queued_writers st = []" "waiting_readers st = []" "reservation st = None"
    using assms(3) by (auto simp: free_of_others_def queue_def)
  moreover from this have "st\<lparr>waiting_readers := []\<rparr> = st" by simp
  ultimately show ?thesis
    using assms(1,2) by (simp add: lock_is_free_def lock_at_def put_lock_def clear_readers_def upd_lock_def remove_first_writer_def
        fun_upd_idem)
qed

lemma update_locks_alone:
  assumes "locks lt k = Some st" "get_holder_txn_id st = Some (update_lock_txn ul)" "free_of_others (Some u) st"
    "commit_ok (commit_of st ul)"
  shows "update_locks lt k ul = Some (Inr (True, put_lock lt k (freed ul st)))"
proof -
  have st: "reservation st = None" "lock_holder st \<noteq> None"
    using assms(2,3) by (auto simp: free_of_others_def get_holder_txn_id_def)
  have "free_of_others None (freed ul st)" "lock_holder (freed ul st) = None"
    using assms(3,4) by (auto simp: free_of_others_def freed_def queue_def get_holder_txn_id_def)
  then have "lock_is_free (put_lock lt k (freed ul st)) k = Some (Inr (True, put_lock lt k (freed ul st)))"
    by (rule_tac lock_is_free_alone) (simp_all add: put_lock_def)
  moreover have "(case ul of CommitLock _ ts \<Rightarrow> update_last_commit_timestamp (put_lock lt k (st\<lparr>lock_holder := None\<rparr>)) k ts
      | AbortLock _ \<Rightarrow> Inr (put_lock lt k (st\<lparr>lock_holder := None\<rparr>))) = Inr (put_lock lt k (freed ul st))"
    by (cases ul) (simp_all add: update_last_commit_timestamp_def upd_lock_def lock_at_def put_lock_def freed_def commit_of_def)
  ultimately show ?thesis
    using assms(1,2) st by (auto simp: update_locks_def get_lock_state_def update_holder_def upd_lock_def lock_at_def)
qed

lemma update_keys_alone:
  assumes "distinct ks"
    "\<forall>k \<in> set ks. \<exists>st. locks lt k = Some st \<and> get_holder_txn_id st = Some (update_lock_txn ul) \<and> free_of_others (Some u) st \<and>
       commit_ok (commit_of st ul)"
  shows "update_keys lt ks ul =
    Some (Inr (lt\<lparr>locks := (\<lambda>k. if k \<in> set ks then map_option (freed ul) (locks lt k) else locks lt k)\<rparr>))"
  using assms
proof (induction ks arbitrary: lt)
  case (Cons k ks)
  then obtain st where st: "locks lt k = Some st" "get_holder_txn_id st = Some (update_lock_txn ul)" "free_of_others (Some u) st"
    "commit_ok (commit_of st ul)" by auto
  let ?lt = "put_lock lt k (freed ul st)"
  have upd: "update_locks lt k ul = Some (Inr (True, ?lt))" by (rule update_locks_alone[OF st])
  have "\<forall>k \<in> set ks. \<exists>st. locks ?lt k = Some st \<and> get_holder_txn_id st = Some (update_lock_txn ul) \<and> free_of_others (Some u) st \<and>
      commit_ok (commit_of st ul)"
    using Cons.prems by (auto simp: put_lock_def)
  from Cons.IH[OF _ this] Cons.prems(1) upd st(1) show ?case
    by (auto simp: put_lock_def fun_eq_iff intro!: lock_table.equality)
qed simp

text \<open>Releasing the locks of the only transaction.\<close>

lemma release_alone:
  assumes s: "session env live contents ex vm rm M u t val" and ul: "update_lock_txn ul = u"
    and upd: "update_txn_locks (ex_table ex) u ul = Some (Inr lt)" "lock_inv lt"
    and ts: "\<And>st. commit_ok (last_committed_timestamp st) \<Longrightarrow> commit_ok (commit_of st ul)"
  shows "alone lt None" "lt_txns lt = lt_txns (ex_table ex)" "lt_guards lt = lt_guards (ex_table ex)"
proof -
  note f = in_flightD[OF sessionD(1)[OF s]]
  let ?locks = "\<lambda>k. if k \<in> set (lock_spans t) then map_option (freed ul) (locks (ex_table ex) k) else locks (ex_table ex) k"
  have "\<forall>k \<in> set (lock_spans t). \<exists>st. locks (ex_table ex) k = Some st \<and> get_holder_txn_id st = Some (update_lock_txn ul) \<and>
      free_of_others (Some u) st \<and> commit_ok (commit_of st ul)"
    using s ul ts by (fastforce simp: session_def in_flight_def alone_def free_of_others_def)
  from update_keys_alone[OF f(9) this] upd(1) f(6) have table: "lt = ex_table ex\<lparr>locks := ?locks\<rparr>"
    by (simp add: update_txn_locks_def get_txn_lock_spans_def txn_at_def)
  have "free_of_others None st" if k: "?locks k = Some st" for k st
  proof -
    obtain st0 where st0: "locks (ex_table ex) k = Some st0" "st = (if k \<in> set (lock_spans t) then freed ul st0 else st0)"
      using k by (auto split: if_splits)
    moreover have "free_of_others (Some u) st0" "lock_holder st0 \<noteq> None \<longrightarrow> k \<in> set (lock_spans t)"
      using s st0(1) by (auto simp: session_def alone_def)
    ultimately show ?thesis
      using ts[of st0] by (auto simp: free_of_others_def freed_def queue_def get_holder_txn_id_def)
  qed
  with upd(2) f(3) show "alone lt None" by (simp add: alone_def table_inv_def table)
  show "lt_txns lt = lt_txns (ex_table ex)" "lt_guards lt = lt_guards (ex_table ex)" by (simp_all add: table)
qed

lemma commit_succeeds:
  assumes plat: "platform_ok env live contents" and s: "session env live contents (db_executor db) vm rm M tid t val"
    and link: "db_txns db tid = Some tid" and fresh: "fresh_guards (used_guards db) (ws # rest)"
    and refresh: "refresh_keys env (ex_store (db_executor db)) tid tid (read_timestamp t) (write_timestamp t) (read_set t) = Inr True"
    and ts: "valid_utf8 (encode_timestamp (write_timestamp t))" "\<not> is_intent_timestamp (write_timestamp t)"
      "commit_ok (Some (write_timestamp t))"
    and cap: "size M + length (finalize_spans t) \<le> NIL"
  obtains db' rm' where "commit_txn env db ws tid = Some (Inr (CommitSuccess (write_timestamp t), db'))"
    "quiet env live contents (db_executor db') (resolved vm (write_timestamp t) (lock_spans t) val) rm' (recorded M t CommitTxn)"
    "record_map env rm' = (record_map env rm)(tid \<mapsto> TxnRecord COMMITTED (TxnMetadata tid (write_timestamp t)))"
    "db_txns db' = db_txns db" "db_clock db' = db_clock db"
    "fresh_guards (used_guards db') rest"
proof -
  obtain g w ea turns retries where ws: "ws = ((g, w, ea) # turns) # retries" and g: "lt_guards (ex_table (db_executor db)) g = None"
    and rest: "fresh_guards (insert g (used_guards db)) rest"
    by (rule fresh_guards_Cons[OF fresh])
  let ?ex = "db_executor db" and ?c = "write_timestamp t"
  let ?lt = "put_guard (ex_table ?ex) g (lock_guard_new tid True (collect_spans CommitTxn t))"
  let ?ex1 = "?ex\<lparr>ex_table := ?lt\<rparr>"
  have s1: "session env live contents ?ex1 vm rm M tid t val"
    by (rule session_guard[OF s g]) (simp add: lock_guard_new_def sessionD(5)[OF s])
  note f = in_flightD[OF sessionD(1)[OF s1]]
  have pending: "\<not> is_status (record_map env rm tid) ABORTED"
    using sessionD(4)[OF s] by (auto simp: is_status_def split: option.splits)
  obtain ex' rm' where ex': "commit_execute env ?ex1 tid = Some (Inr (Inr (CommitTxnResponse ?c), ex'))"
    "db_is env live contents (ex_store ex') (resolved vm ?c (lock_spans t) val) rm'"
    "record_map env rm' = (record_map env rm)(tid \<mapsto> TxnRecord COMMITTED (TxnMetadata tid ?c))"
    "lock_inv (ex_table ex')" "wait_inv (ex_waitq ex')"
    "update_txn_locks (ex_table ?ex1) tid (CommitLock tid ?c) = Some (Inr (ex_table ex'))"
    "ex_oracle ex' = ex_oracle ?ex1" "records_decode env rm'"
    by (rule commit_effect[OF plat sessionD(1)[OF s1] pending _ ts]) (use refresh in simp_all)
  note rel = release_alone[OF s1 _ ex'(6,4)]
  have al: "alone (ex_table ex') None"
    by (rule rel(1)) (use ts(3) in \<open>simp_all add: update_lock_txn_def commit_of_def\<close>)
  have table: "lt_txns (ex_table ex') = lt_txns ?lt" "lt_guards (ex_table ex') = lt_guards ?lt"
    by (use rel(2,3) ts(3) in \<open>simp_all add: update_lock_txn_def commit_of_def\<close>)
  have run: "execute env ?ex1 \<lparr>request_txn = tid, request_body = CommitTxn\<rparr> = Some (Inr (Inr (CommitTxnResponse ?c), ex'))"
    using ex'(1) by (simp add: execute_def)
  have after: "lt_txns (ex_table ex') tid = Some t" "intervals (ex_oracle ex') M" "lt_guards (ex_table ex') g \<noteq> None"
    using f(6) sessionD(3)[OF s1] ex'(7) by (simp_all add: table put_guard_def)
  obtain orc where orc: "intervals orc (recorded M t CommitTxn)"
    "execute_request_with_concurrency_retries env ?ex (((g, w, ea) # turns) # retries) \<lparr>request_txn = tid, request_body = CommitTxn\<rparr> =
      Some (Inr (Inr (CommitTxnResponse ?c), ex'\<lparr>ex_oracle := orc\<rparr>))"
    by (rule read_only_request[OF s g _ run after(1,2) al after(3)])
      (use cap in \<open>simp_all add: is_read_only_def collect_spans_def\<close>)
  let ?db = "db\<lparr>db_executor := ex'\<lparr>ex_oracle := orc\<rparr>\<rparr>"
  have res: "commit_txn env db ws tid = Some (Inr (CommitSuccess ?c, ?db))"
    using orc(2) link ws by (simp add: commit_txn_def get_txn_def run_request_def)
  have "resolved vm ?c (lock_spans t) val (create_intent_key k) = None" for k
    using s ts(2) by (auto simp: session_def resolved_def create_intent_key_def is_intent_key_def is_intent_timestamp_iff)
  then have "quiet env live contents (db_executor ?db) (resolved vm ?c (lock_spans t) val) rm' (recorded M t CommitTxn)"
    using orc(1) ex'(2,5,8) al by (simp add: quiet_def)
  from that[OF res this ex'(3)] table rest show ?thesis by (simp add: put_guard_def used_guards_def)
qed

lemma abort_succeeds:
  assumes plat: "platform_ok env live contents" and s: "session env live contents (db_executor db) vm rm M tid t val"
    and link: "db_txns db tid = Some tid" and fresh: "fresh_guards (used_guards db) (ws # rest)"
    and cap: "size M + length (finalize_spans t) \<le> NIL"
  obtains db' rm' where "abort_txn env db ws tid = Some (Inr db')"
    "handle_task env db ws (Some (QueueAbortTxn tid)) True = Some (Inr (Some QueueAbortTxnResponse, db'))"
    "quiet env live contents (db_executor db') (\<lambda>m. if m \<in> create_intent_key ` set (lock_spans t) then None else vm m) rm'
       (recorded M t AbortTxn)"
    "record_map env rm' = (record_map env rm)(tid \<mapsto> TxnRecord ABORTED (TxnMetadata tid (write_timestamp t)))"
    "db_txns db' = db_txns db" "db_clock db' = db_clock db"
    "fresh_guards (used_guards db') rest"
proof -
  obtain g w ea turns retries where ws: "ws = ((g, w, ea) # turns) # retries" and g: "lt_guards (ex_table (db_executor db)) g = None"
    and rest: "fresh_guards (insert g (used_guards db)) rest"
    by (rule fresh_guards_Cons[OF fresh])
  let ?ex = "db_executor db" and ?vm = "\<lambda>m. if m \<in> create_intent_key ` set (lock_spans t) then None else vm m"
  let ?lt = "put_guard (ex_table ?ex) g (lock_guard_new tid True (collect_spans AbortTxn t))"
  let ?ex1 = "?ex\<lparr>ex_table := ?lt\<rparr>"
  have s1: "session env live contents ?ex1 vm rm M tid t val"
    by (rule session_guard[OF s g]) (simp add: lock_guard_new_def sessionD(5)[OF s])
  have pending: "\<not> is_status (record_map env rm tid) COMMITTED"
    using sessionD(4)[OF s] by (auto simp: is_status_def split: option.splits)
  have ts: "commit_ok (last_committed_timestamp st)" if "locks (ex_table ?ex1) k = Some st" for k st
    using aloneD(2)[OF sessionD(2)[OF s1] that] by (simp add: free_of_others_def)
  obtain ex' rm' where ex': "abort_execute env ?ex1 tid = Some (Inr (Inr AbortTxnResponse, ex'))"
    "db_is env live contents (ex_store ex') ?vm rm'"
    "record_map env rm' = (record_map env rm)(tid \<mapsto> TxnRecord ABORTED (TxnMetadata tid (write_timestamp t)))"
    "lock_inv (ex_table ex')" "wait_inv (ex_waitq ex')"
    "update_txn_locks (ex_table ?ex1) tid (AbortLock tid) = Some (Inr (ex_table ex'))"
    "ex_oracle ex' = ex_oracle ?ex1" "records_decode env rm'"
    by (rule abort_effect[OF plat sessionD(1)[OF s1] pending ts])
  note rel = release_alone[OF s1 _ ex'(6,4)]
  have al: "alone (ex_table ex') None" by (rule rel(1)) (simp_all add: update_lock_txn_def commit_of_def)
  have table: "lt_txns (ex_table ex') = lt_txns ?lt" "lt_guards (ex_table ex') = lt_guards ?lt"
    by (use rel(2,3) in \<open>simp_all add: update_lock_txn_def commit_of_def\<close>)
  have run: "execute env ?ex1 \<lparr>request_txn = tid, request_body = AbortTxn\<rparr> = Some (Inr (Inr AbortTxnResponse, ex'))"
    using ex'(1) by (simp add: execute_def)
  have after: "lt_txns (ex_table ex') tid = Some t" "intervals (ex_oracle ex') M" "lt_guards (ex_table ex') g \<noteq> None"
    using sessionD(3,5)[OF s1] ex'(7) by (simp_all add: table put_guard_def)
  obtain orc where orc: "intervals orc (recorded M t AbortTxn)"
    "execute_request_with_concurrency_retries env ?ex (((g, w, ea) # turns) # retries) \<lparr>request_txn = tid, request_body = AbortTxn\<rparr> =
      Some (Inr (Inr AbortTxnResponse, ex'\<lparr>ex_oracle := orc\<rparr>))"
    by (rule read_only_request[OF s g _ run after(1,2) al after(3)])
      (use cap in \<open>simp_all add: is_read_only_def collect_spans_def\<close>)
  let ?db = "db\<lparr>db_executor := ex'\<lparr>ex_oracle := orc\<rparr>\<rparr>"
  have res: "abort_txn env db ws tid = Some (Inr ?db)"
    "handle_task env db ws (Some (QueueAbortTxn tid)) True = Some (Inr (Some QueueAbortTxnResponse, ?db))"
    using orc(2) link ws by (simp_all add: abort_txn_def handle_task_def get_txn_def run_request_def unwrap_result_def)
  have "?vm (create_intent_key k) = None" for k
    using s by (auto simp: session_def)
  then have "quiet env live contents (db_executor ?db) ?vm rm' (recorded M t AbortTxn)"
    using orc(1) ex'(2,5,8) al by (simp add: quiet_def)
  from that[OF res this ex'(3)] table rest show ?thesis by (simp add: put_guard_def used_guards_def)
qed

subsection \<open>A client that writes\<close>

text \<open>The client's function writes its list of keys and values in order; each write comes with its waits.\<close>

fun write_all ::
  "'db env \<Rightarrow> ('v \<Rightarrow> string + bytes) \<Rightarrow> ('db waits \<times> bytes \<times> 'v) list \<Rightarrow> uuid \<Rightarrow> 'db internal_db \<Rightarrow> 'db internal_db run" where
  "write_all env ser [] tid db = Some (Inr db)"
| "write_all env ser ((ws, k, v) # writes) tid db =
     run_bind (context_write env ser tid db ws k v) (\<lambda>(_, db'). write_all env ser writes tid db')"

definition encoded :: "('v \<Rightarrow> string + bytes) \<Rightarrow> ('db waits \<times> bytes \<times> 'v) list \<Rightarrow> (bytes \<times> bytes) list" where
  "encoded ser writes = map (\<lambda>(_, k, v). (k, projr (ser v))) writes"

fun assigned :: "(key \<Rightarrow> val) \<Rightarrow> (key \<times> val) list \<Rightarrow> key \<Rightarrow> val" where
  "assigned val [] = val"
| "assigned val ((k, b) # kvs) = assigned (val(k := b)) kvs"

lemma assigned_map_of: "assigned val kvs k = (case map_of (rev kvs) k of Some b \<Rightarrow> b | None \<Rightarrow> val k)"
proof (induction kvs arbitrary: val)
  case (Cons kb kvs)
  then show ?case by (cases kb) (simp add: map_add_def split: option.split)
qed simp

lemma write_all_effect:
  assumes plat: "platform_ok env live contents" and s: "session env live contents (db_executor db) vm rm M tid t val"
    and link: "db_txns db tid = Some tid"
    and guards: "fresh_guards (used_guards db) (map fst writes @ rest)"
    and writes: "\<forall>(_, k, v) \<in> set writes. valid_utf8 k \<and> (\<exists>b. ser v = Inr b)"
  shows "\<exists>db' vm' t'. write_all env ser writes tid db = Some (Inr db') \<and>
    session env live contents (db_executor db') vm' rm M tid t' (assigned val (encoded ser writes)) \<and>
    (\<forall>m. \<not> is_intent_key m \<longrightarrow> vm' m = vm m) \<and>
    set (lock_spans t') = set (lock_spans t) \<union> fst ` set (encoded ser writes) \<and> read_set t' = read_set t \<and>
    read_timestamp t' = read_timestamp t \<and>
    write_timestamp t' \<in> candidates (ex_table (db_executor db)) M (write_timestamp t) \<and>
    fresh_guards (used_guards db') rest \<and> db_txns db' = db_txns db \<and> db_clock db' = db_clock db \<and> (writes = [] \<longrightarrow> t' = t) \<and>
    (\<forall>pre ws k v c. writes = pre @ [(ws, k, v)] \<longrightarrow> k \<notin> set (lock_spans t) \<union> fst ` set (encoded ser pre) \<longrightarrow>
       forces (ex_table (db_executor db)) M k c \<longrightarrow> write_timestamp t' = c)"
  using s link guards writes
proof (induction writes arbitrary: db vm t val)
  case Nil
  then show ?case by (auto simp: encoded_def candidates_def)
next
  case (Cons wkv writes)
  obtain ws k v where wkv: "wkv = (ws, k, v)" by (cases wkv)
  have fresh: "fresh_guards (used_guards db) (ws # map fst writes @ rest)"
    using Cons.prems(3) wkv by simp
  obtain b where b: "valid_utf8 k" "ser v = Inr b" using Cons.prems(4) wkv by auto
  obtain db1 ts ib where w1: "db_write env ser db ws k v tid = Some (Inr (Inr PutResponse, db1))"
    "session env live contents (db_executor db1) (vm(create_intent_key k \<mapsto> ib)) rm M tid
       (append_lock_span (t\<lparr>write_timestamp := ts\<rparr>) k) (val(k := b))"
    "db_txns db1 = db_txns db" "db_clock db1 = db_clock db"
    "fresh_guards (used_guards db1) (map fst writes @ rest)"
    "ts \<in> candidates (ex_table (db_executor db)) M (write_timestamp t)" "last_commit (ex_table (db_executor db1)) = last_commit (ex_table (db_executor db))"
    "\<forall>c. k \<notin> set (lock_spans t) \<longrightarrow> forces (ex_table (db_executor db)) M k c \<longrightarrow> ts = c"
    by (rule write_effect[where ser = ser and v = v, OF plat Cons.prems(1,2) fresh b])
  let ?t = "append_lock_span (t\<lparr>write_timestamp := ts\<rparr>) k"
  have t1: "set (lock_spans ?t) = insert k (set (lock_spans t))" "read_set ?t = read_set t" "read_timestamp ?t = read_timestamp t"
    "write_timestamp ?t = ts"
    by (auto simp: set_append_lock_span) (auto simp: append_lock_span_def)
  have rest: "db_txns db1 tid = Some tid" "fresh_guards (used_guards db1) (map fst writes @ rest)"
    "\<forall>(_, k, v) \<in> set writes. valid_utf8 k \<and> (\<exists>b. ser v = Inr b)"
    using Cons.prems(2,4) w1(3,5) by simp_all
  have cand: "candidates (ex_table (db_executor db1)) M ts \<subseteq> candidates (ex_table (db_executor db)) M (write_timestamp t)"
    using w1(6,7) by (auto simp: candidates_def)
  have enc: "encoded ser (wkv # writes) = (k, b) # encoded ser writes" using wkv b by (simp add: encoded_def)
  have step: "write_all env ser (wkv # writes) tid db = write_all env ser writes tid db1"
    using wkv w1(1) by (simp add: context_write_def)
  obtain db' vm' t' where ih: "write_all env ser writes tid db1 = Some (Inr db')"
    "session env live contents (db_executor db') vm' rm M tid t' (assigned (val(k := b)) (encoded ser writes))"
    "\<forall>m. \<not> is_intent_key m \<longrightarrow> vm' m = (vm(create_intent_key k \<mapsto> ib)) m"
    "set (lock_spans t') = set (lock_spans ?t) \<union> fst ` set (encoded ser writes)" "read_set t' = read_set ?t"
    "read_timestamp t' = read_timestamp ?t" "write_timestamp t' \<in> candidates (ex_table (db_executor db1)) M (write_timestamp ?t)"
    "fresh_guards (used_guards db') rest" "db_txns db' = db_txns db1" "db_clock db' = db_clock db1"
    "writes = [] \<longrightarrow> t' = ?t"
    "\<forall>pre ws k v c. writes = pre @ [(ws, k, v)] \<longrightarrow> k \<notin> set (lock_spans ?t) \<union> fst ` set (encoded ser pre) \<longrightarrow>
       forces (ex_table (db_executor db1)) M k c \<longrightarrow> write_timestamp t' = c"
    using Cons.IH[OF w1(2) rest] by blast
  have "\<forall>m. \<not> is_intent_key m \<longrightarrow> vm' m = vm m"
    using ih(3) by (auto simp: create_intent_key_def is_intent_key_def is_intent_timestamp_iff)
  moreover have "write_timestamp t' = c"
    if pre: "wkv # writes = pre @ [(ws', k', v')]" and k': "k' \<notin> set (lock_spans t) \<union> fst ` set (encoded ser pre)"
      and c: "forces (ex_table (db_executor db)) M k' c" for pre ws' k' v' c
  proof (cases pre)
    case Nil
    with pre wkv k' c w1(8) t1(4) ih(11) show ?thesis by auto
  next
    case (Cons p pre')
    then have writes: "writes = pre' @ [(ws', k', v')]" and "encoded ser pre = (k, b) # encoded ser pre'"
      using pre wkv b by (auto simp: encoded_def)
    then have "k' \<notin> set (lock_spans ?t) \<union> fst ` set (encoded ser pre')" using k' t1(1) by auto
    moreover have "forces (ex_table (db_executor db1)) M k' c" using c w1(7) by (simp add: forces_def)
    ultimately show ?thesis using ih(12) writes by blast
  qed
  ultimately show ?case
    using ih(1,2,4-10) t1 w1(3,4) cand
    unfolding step enc by (intro exI[of _ db'] exI[of _ vm'] exI[of _ t']) auto
qed

end
