(* ===== verification/Database_Properties.thy ===== *)
theory Database_Properties
  imports Database_Writes Store_Properties
begin

text \<open>
  The front end: what \<open>run_txn\<close> does to a quiet database whose state is abstracted to its map of versions.
\<close>

subsection \<open>Committed versions\<close>

definition commit_versions :: "versions \<Rightarrow> timestamp \<Rightarrow> (key \<times> val) list \<Rightarrow> versions" where
  "commit_versions vm c kvs m =
     (case map_of (rev kvs) (mkey m) of Some b \<Rightarrow> if mtimestamp m = c then Some b else vm m | None \<Rightarrow> vm m)"

definition commit_time_ok :: "timestamp \<Rightarrow> bool" where
  "commit_time_ok c \<longleftrightarrow> valid_utf8 (encode_timestamp c) \<and> \<not> is_intent_timestamp c \<and> commit_ok (Some c)"

subsection \<open>An example\<close>

lemma quiet_new:
  assumes "db_is env live contents store vm rm" "records_decode env rm" "\<forall>k. vm (create_intent_key k) = None"
  shows "quiet env live contents (executor_new store Map.empty) vm rm {#}"
proof -
  have "alone (lock_table_new Map.empty) None"
    using table_inv_new[of Map.empty] by (simp add: alone_def txn_ids_ok_def lock_table_new_def)
  with assms wait_inv_new itree.content_empty show ?thesis
    by (simp add: quiet_def executor_new_def oracle_new_def)
qed

text \<open>A database opened at time 10 over a store with one version of key \<open>[97]\<close>, and requests that never wait.\<close>

definition old_version :: "entry list" where
  "old_version = [(MVCCKey [97] (Timestamp 5 0), [1])]"

definition small_db :: "ref_db internal_db" where
  "small_db =
     \<lparr>db_executor = executor_new (ref_store old_version None) Map.empty, db_txns = Map.empty, db_clock = clock_manual 10\<rparr>"

definition at_once :: "uuid \<Rightarrow> ref_db waits" where
  "at_once g = [[(g, Inr (), db_executor small_db)]]"

definition two_writes :: "(ref_db waits \<times> bytes \<times> bytes) list" where
  "two_writes = [(at_once 2, [97], [7]), (at_once 3, [97], [8])]"

lemma old_version_is: "db_is ref_env ref_live ref_contents (ref_store old_version None) (map_of old_version) (ref_records None)"
  by (rule ref_store_is) (simp add: old_version_def entries_sorted_def)

lemma old_version_no_intent: "\<forall>k. map_of old_version (create_intent_key k) = None"
  by (simp add: old_version_def create_intent_key_def get_intent_timestamp_def)

lemma small_db_quiet: "quiet ref_env ref_live ref_contents (db_executor small_db) (map_of old_version) (ref_records None) {#}"
  using quiet_new[OF old_version_is ref_records_decode old_version_no_intent] by (simp add: small_db_def)

lemma first_guard_at_once [simp]: "first_guard (at_once g) = Some g"
  by (simp add: at_once_def)

lemma small_db_facts:
  "used_guards small_db = {}" "db_clock small_db = clock_manual 10"
  "candidates (ex_table (db_executor small_db)) {#} ts = {ts}"
  by (simp_all add: small_db_def executor_new_def lock_table_new_def candidates_def last_commit_def used_guards_def)

lemma small_db_ticks:
  "get_timestamp manual_current_time (db_clock small_db) = Inr (Timestamp 10 1, (clock_manual 10)\<lparr>latest_timestamp := Timestamp 10 1\<rparr>)"
  "get_timestamp manual_current_time ((clock_manual 10)\<lparr>latest_timestamp := Timestamp 10 1\<rparr>) =
     Inr (Timestamp 10 2, (clock_manual 10)\<lparr>latest_timestamp := Timestamp 10 2\<rparr>)"
  by (simp_all add: small_db_facts(2) get_timestamp_def clock_manual_def manual_current_time_def manual_new_def checked_add_def Let_def)

lemma small_db_time: "commit_time_ok (Timestamp 10 1)"
proof -
  have "valid_utf8 (encode_timestamp (Timestamp 10 1))"
    by (rule valid_utf8_ascii) (auto simp: encode_timestamp_def to_le_bytes_def upt_rec take_bit_eq_mod
        unsigned_drop_bit_eq)
  then show ?thesis
    by (simp add: commit_time_ok_def is_intent_timestamp_def commit_ok_def next_logical_timestamp_def checked_add_def)
qed

subsection \<open>Transactions that only write\<close>

lemma length_finalize_spans: "length (finalize_spans t) = card (set (lock_spans t) \<union> set (read_set t))"
  using distinct_card[of "map range_start (finalize_spans t)"] collect_spans_distinct[of CommitTxn t] finalize_spans_keys[of t]
  by (simp add: collect_spans_def)

lemma size_recorded: "size (recorded M t body) = size M + length (collect_spans body t)"
  by (simp add: recorded_def)

lemma card_encoded: "card (fst ` set (encoded ser writes)) \<le> length writes"
  using card_image_le[of "set (encoded ser writes)" fst] card_length[of "encoded ser writes"] by (simp add: encoded_def)

lemma resolved_versions:
  assumes "\<forall>m. \<not> is_intent_key m \<longrightarrow> vm' m = vm m" "\<forall>k. vm (create_intent_key k) = None"
    "\<forall>k. vm' (create_intent_key k) \<noteq> None \<longrightarrow> k \<in> fst ` set kvs" "set ks = fst ` set kvs" "\<not> is_intent_timestamp c"
  shows "resolved vm' c ks (assigned val kvs) = commit_versions vm c kvs"
proof
  fix m
  have keys: "map_of (rev kvs) (mkey m) = None \<longleftrightarrow> mkey m \<notin> set ks"
    using assms(4) by (simp add: map_of_eq_None_iff)
  have intent: "m = create_intent_key (mkey m)" if "is_intent_key m"
    using that by (cases m) (simp add: is_intent_key_def is_intent_timestamp_iff create_intent_key_def)
  show "resolved vm' c ks (assigned val kvs) m = commit_versions vm c kvs m"
  proof (cases "is_intent_key m")
    case True
    then have none: "vm m = None" "mtimestamp m \<noteq> c"
      using assms(2,5) intent[OF True] by (metis, auto simp: is_intent_key_def)
    then show ?thesis
      using assms(3,4) keys intent[OF True] True by (auto simp: resolved_def commit_versions_def split: option.splits)
  next
    case False
    with assms(1) keys show ?thesis
      by (auto simp: resolved_def commit_versions_def assigned_map_of split: option.splits)
  qed
qed

lemma without_intents:
  assumes "\<forall>m. \<not> is_intent_key m \<longrightarrow> vm' m = vm m" "\<forall>k. vm (create_intent_key k) = None"
    "\<forall>k. vm' (create_intent_key k) \<noteq> None \<longrightarrow> k \<in> set ks"
  shows "(\<lambda>m. if m \<in> create_intent_key ` set ks then None else vm' m) = vm"
proof
  fix m
  show "(if m \<in> create_intent_key ` set ks then None else vm' m) = vm m"
  proof (cases "is_intent_key m")
    case True
    then obtain k where "m = create_intent_key k"
      by (cases m) (simp add: is_intent_key_def is_intent_timestamp_iff create_intent_key_def)
    with assms(2,3) show ?thesis by auto
  next
    case False
    then have "m \<notin> create_intent_key ` set ks"
      by (auto simp: is_intent_key_def is_intent_timestamp_iff create_intent_key_def)
    with assms(1) False show ?thesis by simp
  qed
qed

text \<open>The begin and the writes of a transaction from a quiet database.\<close>

lemma begin_and_write:
  assumes plat: "platform_ok env live contents" and q: "quiet env live contents (db_executor db) vm rm M"
    and ts: "get_timestamp manual_current_time (db_clock db) = Inr (ts, c)"
    and guards: "fresh_guards (used_guards db) (bws # map fst writes @ rest)"
    and writes: "\<forall>(_, k, v) \<in> set writes. valid_utf8 k \<and> (\<exists>b. ser v = Inr b)"
  obtains db1 db2 vm' rm' t where "begin_txn env db bws tid = Some (Inr (tid, db1))" "write_all env ser writes tid db1 = Some (Inr db2)"
    "session env live contents (db_executor db2) vm' rm' M tid t (assigned (\<lambda>_. []) (encoded ser writes))"
    "\<forall>m. \<not> is_intent_key m \<longrightarrow> vm' m = vm m" "set (lock_spans t) = fst ` set (encoded ser writes)" "read_set t = []"
    "write_timestamp t \<in> candidates (ex_table (db_executor db)) M ts"
    "fresh_guards (used_guards db2) rest" "db_txns db2 tid = Some tid"
    "size M + length (finalize_spans t) \<le> size M + length writes" "db_clock db2 = c"
    "\<forall>pre ws k v c. writes = pre @ [(ws, k, v)] \<longrightarrow> k \<notin> fst ` set (encoded ser pre) \<longrightarrow>
       forces (ex_table (db_executor db)) M k c \<longrightarrow> write_timestamp t = c"
proof -
  obtain db1 rm' where db1: "begin_txn env db bws tid = Some (Inr (tid, db1))"
    "session env live contents (db_executor db1) vm rm' M tid (txn_new tid ts) (\<lambda>_. [])"
    "db_txns db1 = (db_txns db)(tid \<mapsto> tid)" "db_clock db1 = c" "fresh_guards (used_guards db1) (map fst writes @ rest)"
    "locks (ex_table (db_executor db1)) = locks (ex_table (db_executor db))"
    by (rule begin_effect[OF plat q ts guards])
  have link: "db_txns db1 tid = Some tid" using db1(3) by simp
  have "last_commit (ex_table (db_executor db1)) = last_commit (ex_table (db_executor db))"
    using db1(6) by (simp add: last_commit_def fun_eq_iff)
  then have cand: "candidates (ex_table (db_executor db1)) M = candidates (ex_table (db_executor db)) M"
    "forces (ex_table (db_executor db1)) M = forces (ex_table (db_executor db)) M"
    by (simp_all add: candidates_def forces_def fun_eq_iff)
  obtain db2 vm' t where db2: "write_all env ser writes tid db1 = Some (Inr db2)"
    "session env live contents (db_executor db2) vm' rm' M tid t (assigned (\<lambda>_. []) (encoded ser writes))"
    "\<forall>m. \<not> is_intent_key m \<longrightarrow> vm' m = vm m" "set (lock_spans t) = fst ` set (encoded ser writes)" "read_set t = []"
    "write_timestamp t \<in> candidates (ex_table (db_executor db)) M ts"
    "fresh_guards (used_guards db2) rest" "db_txns db2 = db_txns db1" "db_clock db2 = db_clock db1"
    "\<forall>pre ws k v c. writes = pre @ [(ws, k, v)] \<longrightarrow> k \<notin> fst ` set (encoded ser pre) \<longrightarrow>
       forces (ex_table (db_executor db)) M k c \<longrightarrow> write_timestamp t = c"
    using write_all_effect[OF plat db1(2) link db1(5) writes] by (auto simp: txn_new_def cand)
  from that[OF db1(1) db2(1-7)] db2(4,5,8-10) db1(4) link card_encoded[of ser writes] show ?thesis
    by (simp add: length_finalize_spans)
qed

lemma writes_commit:
  assumes "platform_ok env live contents" "quiet env live contents (db_executor db) vm rm M"
    and "get_timestamp manual_current_time (db_clock db) = Inr (ts, clk)"
    and "fresh_guards (used_guards db) (bws # map fst writes @ cws # rest)"
    and "\<forall>(_, k, v) \<in> set writes. valid_utf8 k \<and> (\<exists>b. ser v = Inr b)"
    and "\<forall>ts' \<in> candidates (ex_table (db_executor db)) M ts. commit_time_ok ts'" and "size M + length writes \<le> NIL"
  shows "\<exists>db' rm' M' c. run_txn env (write_all env ser writes) db ((tid, bws, cws) # attempts) = Some (Inr db') \<and>
    c \<in> candidates (ex_table (db_executor db)) M ts \<and>
    quiet env live contents (db_executor db') (commit_versions vm c (encoded ser writes)) rm' M' \<and>
    record_map env rm' tid = Some (TxnRecord COMMITTED (TxnMetadata tid c)) \<and> db_clock db' = clk \<and>
    size M' \<le> size M + length writes \<and> fresh_guards (used_guards db') rest \<and>
    (\<forall>pre ws k v c'. writes = pre @ [(ws, k, v)] \<longrightarrow> k \<notin> fst ` set (encoded ser pre) \<longrightarrow>
       forces (ex_table (db_executor db)) M k c' \<longrightarrow> c = c')"
proof -
  obtain db1 db2 vm' rm1 t where w: "begin_txn env db bws tid = Some (Inr (tid, db1))" "write_all env ser writes tid db1 = Some (Inr db2)"
    and s: "session env live contents (db_executor db2) vm' rm1 M tid t (assigned (\<lambda>_. []) (encoded ser writes))"
    and vm': "\<forall>m. \<not> is_intent_key m \<longrightarrow> vm' m = vm m" "set (lock_spans t) = fst ` set (encoded ser writes)"
    and t: "read_set t = []" "write_timestamp t \<in> candidates (ex_table (db_executor db)) M ts"
    and rest: "fresh_guards (used_guards db2) (cws # rest)" "db_txns db2 tid = Some tid"
      "size M + length (finalize_spans t) \<le> size M + length writes" "db_clock db2 = clk"
    and forced: "\<forall>pre ws k v c. writes = pre @ [(ws, k, v)] \<longrightarrow> k \<notin> fst ` set (encoded ser pre) \<longrightarrow>
       forces (ex_table (db_executor db)) M k c \<longrightarrow> write_timestamp t = c"
    by (rule begin_and_write[OF assms(1-5)])
  have ok: "valid_utf8 (encode_timestamp (write_timestamp t))" "\<not> is_intent_timestamp (write_timestamp t)" "commit_ok (Some (write_timestamp t))"
    using assms(6) t(2) by (auto simp: commit_time_ok_def)
  have cap: "size M + length (finalize_spans t) \<le> NIL" using rest(3) assms(7) by linarith
  have refresh: "refresh_keys env (ex_store (db_executor db2)) tid tid (read_timestamp t) (write_timestamp t) (read_set t) = Inr True"
    using t(1) by simp
  obtain db3 rm3 where c: "commit_txn env db2 cws tid = Some (Inr (CommitSuccess (write_timestamp t), db3))"
    "quiet env live contents (db_executor db3) (resolved vm' (write_timestamp t) (lock_spans t) (assigned (\<lambda>_. []) (encoded ser writes)))
      rm3 (recorded M t CommitTxn)"
    "record_map env rm3 = (record_map env rm1)(tid \<mapsto> TxnRecord COMMITTED (TxnMetadata tid (write_timestamp t)))"
    "db_clock db3 = db_clock db2"
    "fresh_guards (used_guards db3) rest"
    by (rule commit_succeeds[OF assms(1) s rest(2,1) refresh ok cap])
  have "resolved vm' (write_timestamp t) (lock_spans t) (assigned (\<lambda>_. []) (encoded ser writes)) =
      commit_versions vm (write_timestamp t) (encoded ser writes)"
    by (rule resolved_versions[OF vm'(1) _ _ vm'(2) ok(2)]) (use assms(2) s vm'(2) in \<open>auto simp: quiet_def session_def\<close>)
  moreover have "size (recorded M t CommitTxn) \<le> size M + length writes"
    using rest(3) by (simp add: size_recorded collect_spans_def)
  ultimately show ?thesis using w c t(2) rest(4) forced
    by (intro exI[of _ db3] exI[of _ rm3] exI[of _ "recorded M t CommitTxn"] exI[of _ "write_timestamp t"]) simp
qed

text \<open>
  C2: a transaction that only writes, run on a quiet database, commits at its first attempt: at one commit
  timestamp, drawn from its own, the recorded reads and the successors of earlier commits, the database gets the last
  value written to each key, no other version changes, no intent and no lock remains, and its record says committed.
\<close>

theorem transaction_of_writes:
  assumes "platform_ok env live contents" "quiet env live contents (db_executor db) vm rm M"
    and "get_timestamp manual_current_time (db_clock db) = Inr (ts, clk)"
    and "fresh_guards (used_guards db) (bws # map fst writes @ [cws])"
    and "\<forall>(_, k, v) \<in> set writes. valid_utf8 k \<and> (\<exists>b. ser v = Inr b)"
    and "\<forall>ts' \<in> candidates (ex_table (db_executor db)) M ts. commit_time_ok ts'" and "size M + length writes \<le> NIL"
  shows "\<exists>db' rm' M' c. run_txn env (write_all env ser writes) db ((tid, bws, cws) # attempts) = Some (Inr db') \<and>
    c \<in> candidates (ex_table (db_executor db)) M ts \<and>
    quiet env live contents (db_executor db') (commit_versions vm c (encoded ser writes)) rm' M' \<and>
    record_map env rm' tid = Some (TxnRecord COMMITTED (TxnMetadata tid c))"
  using writes_commit[OF assms, of tid attempts] by blast

theorem transaction_of_writes_witness:
  "\<exists>db' rm' M' c. run_txn ref_env (write_all ref_env Inr two_writes) small_db [(9, at_once 1, at_once 4)] = Some (Inr db') \<and>
    c \<in> candidates (ex_table (db_executor small_db)) {#} (Timestamp 10 1) \<and>
    quiet ref_env ref_live ref_contents (db_executor db') (commit_versions (map_of old_version) c (encoded Inr two_writes)) rm' M' \<and>
    record_map ref_env rm' 9 = Some (TxnRecord COMMITTED (TxnMetadata 9 c))"
  by (rule transaction_of_writes[OF ref_platform_ok small_db_quiet small_db_ticks(1)])
    (use small_db_time in \<open>simp_all add: small_db_facts two_writes_def NIL_def\<close>)

text \<open>
  C6: aborting a transaction after any writes, by its client or by the task queue, restores the quiet database: the
  versions are the ones before its begin, no intent and no lock remains, and its record says aborted.
\<close>

theorem aborted_transaction_of_writes:
  assumes "platform_ok env live contents" "quiet env live contents (db_executor db) vm rm M"
    and "get_timestamp manual_current_time (db_clock db) = Inr (ts, clk)"
    and "fresh_guards (used_guards db) (bws # map fst writes @ [aws])"
    and "\<forall>(_, k, v) \<in> set writes. valid_utf8 k \<and> (\<exists>b. ser v = Inr b)" and "size M + length writes \<le> NIL"
  shows "\<exists>db1 db2 db3 rm' M' c. begin_txn env db bws tid = Some (Inr (tid, db1)) \<and> write_all env ser writes tid db1 = Some (Inr db2) \<and>
    abort_txn env db2 aws tid = Some (Inr db3) \<and>
    handle_task env db2 aws (Some (QueueAbortTxn tid)) True = Some (Inr (Some QueueAbortTxnResponse, db3)) \<and> quiet env live contents (db_executor db3) vm rm' M' \<and>
    record_map env rm' tid = Some (TxnRecord ABORTED (TxnMetadata tid c))"
proof -
  obtain db1 db2 vm' rm1 t where w: "begin_txn env db bws tid = Some (Inr (tid, db1))" "write_all env ser writes tid db1 = Some (Inr db2)"
    and s: "session env live contents (db_executor db2) vm' rm1 M tid t (assigned (\<lambda>_. []) (encoded ser writes))"
    and vm': "\<forall>m. \<not> is_intent_key m \<longrightarrow> vm' m = vm m"
    and rest: "fresh_guards (used_guards db2) [aws]" "db_txns db2 tid = Some tid"
      "size M + length (finalize_spans t) \<le> size M + length writes"
    by (rule begin_and_write[OF assms(1-5)])
  have cap: "size M + length (finalize_spans t) \<le> NIL" using rest(3) assms(6) by linarith
  obtain db3 rm3 where c: "abort_txn env db2 aws tid = Some (Inr db3)"
    "handle_task env db2 aws (Some (QueueAbortTxn tid)) True = Some (Inr (Some QueueAbortTxnResponse, db3))"
    "quiet env live contents (db_executor db3) (\<lambda>m. if m \<in> create_intent_key ` set (lock_spans t) then None else vm' m) rm3
      (recorded M t AbortTxn)"
    "record_map env rm3 = (record_map env rm1)(tid \<mapsto> TxnRecord ABORTED (TxnMetadata tid (write_timestamp t)))"
    by (rule abort_succeeds[OF assms(1) s rest(2,1) cap])
  have "(\<lambda>m. if m \<in> create_intent_key ` set (lock_spans t) then None else vm' m) = vm"
    by (rule without_intents[OF vm']) (use assms(2) s in \<open>auto simp: quiet_def session_def\<close>)
  with w c show ?thesis
    by (intro exI[of _ db1] exI[of _ db2] exI[of _ db3] exI[of _ rm3] exI[of _ "recorded M t AbortTxn"] exI[of _ "write_timestamp t"]) simp
qed

theorem aborted_transaction_of_writes_witness:
  "\<exists>db1 db2 db3 rm' M' c. begin_txn ref_env small_db (at_once 1) 9 = Some (Inr (9, db1)) \<and>
    write_all ref_env Inr two_writes 9 db1 = Some (Inr db2) \<and> abort_txn ref_env db2 (at_once 4) 9 = Some (Inr db3) \<and>
    handle_task ref_env db2 (at_once 4) (Some (QueueAbortTxn 9)) True = Some (Inr (Some QueueAbortTxnResponse, db3)) \<and>
    quiet ref_env ref_live ref_contents (db_executor db3) (map_of old_version) rm' M' \<and>
    record_map ref_env rm' 9 = Some (TxnRecord ABORTED (TxnMetadata 9 c))"
  by (rule aborted_transaction_of_writes[OF ref_platform_ok small_db_quiet small_db_ticks(1)])
    (simp_all add: small_db_facts two_writes_def NIL_def)

subsection \<open>Transactions that read\<close>

text \<open>The client's function reads one key; the waits of the read depend on the attempt.\<close>

definition read_one ::
  "'db env \<Rightarrow> (bytes \<Rightarrow> string + 'v) \<Rightarrow> (uuid \<Rightarrow> 'db waits) \<Rightarrow> bytes \<Rightarrow> uuid \<Rightarrow> 'db internal_db \<Rightarrow> 'db internal_db run" where
  "read_one env de rws k tid db = run_bind (context_read env de tid db (rws tid) k) (\<lambda>(_, db'). Some (Inr db'))"

definition newest :: "versions \<Rightarrow> mvcc_key \<Rightarrow> bytes \<Rightarrow> bool" where
  "newest vm m b \<longleftrightarrow> vm m = Some b \<and> (\<forall>u. vm (MVCCKey (mkey m) u) \<noteq> None \<longrightarrow> u \<le> mtimestamp m)"

lemma newest_at: "newest vm m b \<Longrightarrow> mtimestamp m \<le> ts \<Longrightarrow> newest_version vm (mkey m) ts (Some (m, b))"
  by (auto simp: newest_def newest_version_def)

lemma reading_attempt:
  assumes plat: "platform_ok env live contents" and q: "quiet env live contents (db_executor db) vm rm M"
    and ts: "get_timestamp manual_current_time (db_clock db) = Inr (ts, c)"
    and guards: "fresh_guards (used_guards db) (bws # rws # cws # rest)"
    and m: "newest vm m b" "mtimestamp m < ts" and de: "de b = Inr x" and cap: "size M + 2 \<le> NIL"
  obtains db1 db2 db3 rm' M' where "begin_txn env db bws tid = Some (Inr (tid, db1))"
    "context_read env de tid db1 rws (mkey m) = Some (Inr (Some x, db2))"
    "commit_txn env db2 cws tid = Some (Inr (CommitFail ReadRefreshFail, db3))"
    "quiet env live contents (db_executor db3) vm rm' M'" "size M' = size M + 2"
    "fresh_guards (used_guards db3) rest" "db_clock db3 = c"
proof -
  let ?t = "txn_new tid ts" and ?k = "mkey m"
  let ?t2 = "append_read_sets ?t ?k"
  have t: "lock_spans ?t = []" "read_timestamp ?t = ts" "write_timestamp ?t = ts" "lock_spans ?t2 = []" "read_timestamp ?t2 = ts"
    "write_timestamp ?t2 = ts" "read_set ?t2 = [?k]"
    by (simp_all add: txn_new_def append_read_sets_def)
  have len: "length (finalize_spans ?t2) = 1" "length (collect_spans (Get ?k) ?t) = 1" "length (collect_spans CommitTxn ?t2) = 1"
    using t by (simp_all add: length_finalize_spans collect_spans_def)
  obtain db1 rm' where db1: "begin_txn env db bws tid = Some (Inr (tid, db1))"
    "session env live contents (db_executor db1) vm rm' M tid ?t (\<lambda>_. [])"
    "db_txns db1 = (db_txns db)(tid \<mapsto> tid)" "db_clock db1 = c" "fresh_guards (used_guards db1) (rws # cws # rest)"
    by (rule begin_effect[OF plat q ts guards])
  have link: "db_txns db1 tid = Some tid" and no_lock: "?k \<notin> set (lock_spans ?t)"
    and new: "newest_version vm ?k (read_timestamp ?t) (Some (m, b))" and cap1: "size M < NIL"
    using db1(3) t newest_at[OF m(1)] m(2) cap by simp_all
  obtain db2 where db2: "db_read env de db1 rws ?k tid = Some (Inr (Some x, db2))"
    "session env live contents (db_executor db2) vm rm' (recorded M ?t (Get ?k)) tid ?t2 (\<lambda>_. [])"
    "db_txns db2 = db_txns db1" "db_clock db2 = db_clock db1" "fresh_guards (used_guards db2) (cws # rest)"
    by (rule read_effect[where de = de, OF plat db1(2) link db1(5) no_lock new de cap1])
  have refresh: "refresh_keys env (ex_store (db_executor db2)) tid tid (read_timestamp ?t2) (write_timestamp ?t2) (read_set ?t2) = Inr False"
    by (rule refresh_fails[OF plat db2(2), of ?k m b "[]"]) (use t newest_at[OF m(1)] m(2) in simp_all)
  have link2: "db_txns db2 tid = Some tid" and cap2: "size (recorded M ?t (Get ?k)) + length (finalize_spans ?t2) \<le> NIL"
    using link db2(3) cap len by (simp_all add: size_recorded)
  obtain db3 where db3: "commit_txn env db2 cws tid = Some (Inr (CommitFail ReadRefreshFail, db3))"
    "session env live contents (db_executor db3) vm rm' (recorded (recorded M ?t (Get ?k)) ?t2 CommitTxn) tid ?t2 (\<lambda>_. [])"
    "db_clock db3 = db_clock db2" "fresh_guards (used_guards db3) rest"
    by (rule commit_refused[OF plat db2(2) link2 db2(5) refresh cap2])
  have read: "context_read env de tid db1 rws ?k = Some (Inr (Some x, db2))" using db2(1) by (simp add: context_read_def)
  have "quiet env live contents (db_executor db3) vm rm' (recorded (recorded M ?t (Get ?k)) ?t2 CommitTxn)"
    by (rule session_quiet[OF db3(2) t(4)])
  from that[OF db1(1) read db3(1) this] len db1(4) db2(4) db3(3,4) show ?thesis by (simp add: size_recorded)
qed

lemma clock_ticks:
  assumes "unat (logical_time (latest_timestamp c)) + Suc n < 2 ^ 32" "clock_started c"
  obtains ts c' where "get_timestamp ct c = Inr (ts, c')" "latest_timestamp c < ts" "latest_timestamp c' = ts" "clock_started c'"
    "unat (logical_time ts) + n < 2 ^ 32"
proof -
  let ?l = "logical_time (latest_timestamp c)"
  have nat: "unat (?l + 1) = unat ?l + 1" using assms(1) by (simp add: unat_plus_if_size word_size)
  have "int (unat ?l + 1) < int (2 ^ 32)" unfolding of_nat_less_iff using assms(1) by linarith
  then have "checked_add ?l 1 = Inr (?l + 1)" by (simp add: checked_add_def)
  then have "\<exists>ts c'. get_timestamp ct c = Inr (ts, c') \<and> unat (logical_time ts) + n < 2 ^ 32"
    using assms(1) nat
    by (cases "wall_time (latest_timestamp c) = max (wall_time (latest_timestamp c)) (ct (wall_clock c))")
      (simp_all add: get_timestamp_def Let_def)
  then obtain ts c' where tick: "get_timestamp ct c = Inr (ts, c')" "unat (logical_time ts) + n < 2 ^ 32" by blast
  from tick(1) clock_step_started[OF assms(2), of ct LocalEvent c'] have "clock_started c'" by (simp add: clock_step_def)
  with tick get_timestamp_later[OF tick(1)] assms(2) that show ?thesis by (auto simp: clock_started_def)
qed

definition attempt_waits :: "(uuid \<Rightarrow> 'db waits) \<Rightarrow> 'db attempt list \<Rightarrow> 'db waits list" where
  "attempt_waits rws attempts = concat (map (\<lambda>(tid, bws, cws). [bws, rws tid, cws]) attempts)"

text \<open>
  Attempts of \<open>run_txn\<close> that run to the end and are refused: the begin, the client's function and the commit all
  return, and the commit answers that the read refresh failed.
\<close>

inductive refused_attempts ::
  "'db env \<Rightarrow> (uuid \<Rightarrow> 'db internal_db \<Rightarrow> 'db internal_db run) \<Rightarrow> 'db internal_db \<Rightarrow> 'db attempt list \<Rightarrow> 'db internal_db \<Rightarrow> bool"
  for env f where
  no_attempt: "refused_attempts env f db [] db"
| one_refused: "begin_txn env db bws tid = Some (Inr (tid, db1)) \<Longrightarrow> f tid db1 = Some (Inr db2) \<Longrightarrow>
    commit_txn env db2 cws tid = Some (Inr (CommitFail ReadRefreshFail, db3)) \<Longrightarrow> refused_attempts env f db3 attempts db' \<Longrightarrow>
    refused_attempts env f db ((tid, bws, cws) # attempts) db'"

lemma run_txn_refused:
  "refused_attempts env f db attempts db' \<Longrightarrow> run_txn env f db (attempts @ further) = run_txn env f db' further"
  by (induction rule: refused_attempts.induct) simp_all

lemma reading_attempts_refused:
  assumes "platform_ok env live contents" "quiet env live contents (db_executor db) vm rm M"
    and "newest vm m b" "mtimestamp m \<le> latest_timestamp (db_clock db)" "clock_started (db_clock db)" "de b = Inr x"
    and "fresh_guards (used_guards db) (attempt_waits rws attempts)"
    and "size M + 2 * length attempts \<le> NIL" "unat (logical_time (latest_timestamp (db_clock db))) + length attempts < 2 ^ 32"
  shows "\<exists>db' rm' M'. refused_attempts env (read_one env de rws (mkey m)) db attempts db' \<and>
    quiet env live contents (db_executor db') vm rm' M' \<and> latest_timestamp (db_clock db) \<le> latest_timestamp (db_clock db')"
  using assms(2,4,5,7-9)
proof (induction attempts arbitrary: db rm M)
  case Nil
  then show ?case using no_attempt by blast
next
  case (Cons a attempts)
  obtain tid bws cws where a: "a = (tid, bws, cws)" by (cases a)
  let ?c = "db_clock db"
  obtain ts c where ts: "get_timestamp manual_current_time ?c = Inr (ts, c)" "latest_timestamp ?c < ts" "latest_timestamp c = ts"
    "clock_started c" "unat (logical_time ts) + length attempts < 2 ^ 32"
    by (rule clock_ticks[OF _ Cons.prems(3)]) (use Cons.prems(6) in auto)
  have old: "mtimestamp m < ts" using Cons.prems(2) ts(2) by simp
  have guards: "fresh_guards (used_guards db) (bws # rws tid # cws # attempt_waits rws attempts)"
    using Cons.prems(4) a by (simp add: attempt_waits_def)
  have cap: "size M + 2 \<le> NIL" using Cons.prems(5) by simp
  obtain db1 db2 db3 rm' M' where run: "begin_txn env db bws tid = Some (Inr (tid, db1))"
    "context_read env de tid db1 (rws tid) (mkey m) = Some (Inr (Some x, db2))"
    "commit_txn env db2 cws tid = Some (Inr (CommitFail ReadRefreshFail, db3))"
    and q: "quiet env live contents (db_executor db3) vm rm' M'" "size M' = size M + 2"
      "fresh_guards (used_guards db3) (attempt_waits rws attempts)" "db_clock db3 = c"
    by (rule reading_attempt[where de = de, OF assms(1) Cons.prems(1) ts(1) guards assms(3) old assms(6) cap])
  have "\<exists>db' rm' M'. refused_attempts env (read_one env de rws (mkey m)) db3 attempts db' \<and>
      quiet env live contents (db_executor db') vm rm' M' \<and> latest_timestamp (db_clock db3) \<le> latest_timestamp (db_clock db')"
    by (rule Cons.IH[OF q(1) _ _ q(3)]) (use q old ts Cons.prems(5) in simp_all)
  then obtain db' rm'' M'' where more: "refused_attempts env (read_one env de rws (mkey m)) db3 attempts db'"
    "quiet env live contents (db_executor db') vm rm'' M''" "ts \<le> latest_timestamp (db_clock db')"
    using q(4) ts(3) by auto
  have "read_one env de rws (mkey m) tid db1 = Some (Inr db2)" using run(2) by (simp add: read_one_def)
  from one_refused[OF run(1) this run(3) more(1)] have "refused_attempts env (read_one env de rws (mkey m)) db (a # attempts) db'"
    by (simp add: a)
  moreover have "latest_timestamp ?c \<le> latest_timestamp (db_clock db')" using ts(2) more(3) by simp
  ultimately show ?case using more(2) by blast
qed

text \<open>
  C5: a transaction that only reads a key cannot commit, although no other transaction runs. The key has a version, the newest not
  later than the clock; for any number of attempts, as long as the oracle has room for their reads (two per attempt) and
  the logical clock does not overflow (one tick per attempt), every attempt runs to its end: the begin returns, the read returns, and
  the commit returns that the read refresh failed, since it takes the version that was read for a newer write. The versions
  stay as they were, and \<open>run_txn\<close> goes on with the next attempt as if it had just started.
\<close>

theorem reading_transaction_never_commits:
  assumes "platform_ok env live contents" "quiet env live contents (db_executor db) vm rm M"
    and "newest vm m b" "mtimestamp m \<le> latest_timestamp (db_clock db)" "clock_started (db_clock db)" "de b = Inr x"
    and "fresh_guards (used_guards db) (attempt_waits rws attempts)"
    and "size M + 2 * length attempts \<le> NIL" "unat (logical_time (latest_timestamp (db_clock db))) + length attempts < 2 ^ 32"
  shows "\<exists>db' rm' M'. refused_attempts env (read_one env de rws (mkey m)) db attempts db' \<and>
    quiet env live contents (db_executor db') vm rm' M' \<and>
    (\<forall>further. run_txn env (read_one env de rws (mkey m)) db (attempts @ further) = run_txn env (read_one env de rws (mkey m)) db' further)"
proof -
  obtain db' rm' M' where db': "refused_attempts env (read_one env de rws (mkey m)) db attempts db'"
    "quiet env live contents (db_executor db') vm rm' M'"
    using reading_attempts_refused[where de = de and rws = rws, OF assms] by blast
  then show ?thesis using run_txn_refused[OF db'(1)] by blast
qed

theorem reading_transaction_never_commits_witness:
  "\<exists>db' rm' M'. refused_attempts ref_env (read_one ref_env Inr at_once [97]) small_db
       [(1, at_once 11, at_once 21), (2, at_once 12, at_once 22)] db' \<and>
     quiet ref_env ref_live ref_contents (db_executor db') (map_of old_version) rm' M' \<and>
     (\<forall>further. run_txn ref_env (read_one ref_env Inr at_once [97]) small_db
        ([(1, at_once 11, at_once 21), (2, at_once 12, at_once 22)] @ further) = run_txn ref_env (read_one ref_env Inr at_once [97]) db' further)"
proof -
  have new: "newest (map_of old_version) (MVCCKey [97] (Timestamp 5 0)) [1]"
    by (auto simp: newest_def old_version_def)
  from reading_transaction_never_commits[OF ref_platform_ok small_db_quiet new, of Inr "[1]" at_once
      "[(1, at_once 11, at_once 21), (2, at_once 12, at_once 22)]"]
  show ?thesis
    by (simp add: small_db_facts clock_manual_def clock_started_def is_intent_timestamp_def timestamp_le_iff attempt_waits_def NIL_def)
qed

subsection \<open>Reading what was written\<close>

lemma newest_committed:
  assumes "map_of (rev kvs) k = Some b" "\<forall>u. vm (MVCCKey k u) \<noteq> None \<longrightarrow> u \<le> c" "c \<le> ts"
  shows "newest_version (commit_versions vm c kvs) k ts (Some (MVCCKey k c, b))"
  using assms by (auto simp: newest_version_def commit_versions_def)

lemma next_transaction_reads:
  assumes plat: "platform_ok env live contents" and q: "quiet env live contents (db_executor db) vm rm M"
    and ts: "get_timestamp manual_current_time (db_clock db) = Inr (ts, clk)"
    and guards: "fresh_guards (used_guards db) (bws # rws # rest)"
    and new: "newest_version vm k ts (Some (m, b))" and de: "de b = Inr x" and cap: "size M < NIL"
  obtains db' db'' where "begin_txn env db bws tid = Some (Inr (tid, db'))" "db_read env de db' rws k tid = Some (Inr (Some x, db''))"
proof -
  obtain db' rm' where db': "begin_txn env db bws tid = Some (Inr (tid, db'))"
    "session env live contents (db_executor db') vm rm' M tid (txn_new tid ts) (\<lambda>_. [])"
    "db_txns db' = (db_txns db)(tid \<mapsto> tid)" "fresh_guards (used_guards db') (rws # rest)"
    by (rule begin_effect[OF plat q ts guards])
  have link: "db_txns db' tid = Some tid" and no_lock: "k \<notin> set (lock_spans (txn_new tid ts))"
    and new': "newest_version vm k (read_timestamp (txn_new tid ts)) (Some (m, b))"
    using db'(3) new by (simp_all add: txn_new_def)
  obtain db'' where "db_read env de db' rws k tid = Some (Inr (Some x, db''))"
    by (rule read_effect[where de = de, OF plat db'(2) link db'(4) no_lock new' de cap])
  with db'(1) show ?thesis by (rule that)
qed

text \<open>
  C3: what a transaction has written and committed is what the next transaction reads, with no other transaction
  running: the last value written to the key, given that no version of the key is later than any of the possible commit timestamps and that
  the reader's timestamp is not earlier than them. Without the first of the two the write can be lost, as the theorem after it shows.
\<close>

theorem committed_write_is_read:
  assumes "platform_ok env live contents" "quiet env live contents (db_executor db) vm rm M"
    and "get_timestamp manual_current_time (db_clock db) = Inr (ts, clk)" "get_timestamp manual_current_time clk = Inr (ts', clk')"
    and "fresh_guards (used_guards db) (bws # map fst writes @ cws # bws' # rws # rest)"
    and "\<forall>(_, k, v) \<in> set writes. valid_utf8 k \<and> (\<exists>b. ser v = Inr b)"
    and "\<forall>c \<in> candidates (ex_table (db_executor db)) M ts. commit_time_ok c \<and> c \<le> ts' \<and> (\<forall>u. vm (MVCCKey k u) \<noteq> None \<longrightarrow> u \<le> c)"
    and "size M + length writes < NIL"
    and "map_of (rev (encoded ser writes)) k = Some b" "de b = Inr x"
  shows "\<exists>db1 db2 db3. run_txn env (write_all env ser writes) db ((tid, bws, cws) # attempts) = Some (Inr db1) \<and>
    begin_txn env db1 bws' tid' = Some (Inr (tid', db2)) \<and> db_read env de db2 rws k tid' = Some (Inr (Some x, db3))"
proof -
  have "\<forall>c \<in> candidates (ex_table (db_executor db)) M ts. commit_time_ok c" "size M + length writes \<le> NIL"
    using assms(7,8) by auto
  from writes_commit[OF assms(1-3,5,6) this, of tid attempts] obtain db1 rm1 M1 c where
    w: "run_txn env (write_all env ser writes) db ((tid, bws, cws) # attempts) = Some (Inr db1)" "c \<in> candidates (ex_table (db_executor db)) M ts"
    and q: "quiet env live contents (db_executor db1) (commit_versions vm c (encoded ser writes)) rm1 M1" "db_clock db1 = clk"
      "size M1 \<le> size M + length writes" "fresh_guards (used_guards db1) (bws' # rws # rest)"
    by blast
  have ts': "get_timestamp manual_current_time (db_clock db1) = Inr (ts', clk')" using assms(4) q(2) by simp
  have new: "newest_version (commit_versions vm c (encoded ser writes)) k ts' (Some (MVCCKey k c, b))" and cap: "size M1 < NIL"
    using newest_committed[OF assms(9), of vm c ts'] assms(7,8) w(2) q(3) by auto
  obtain db2 db3 where "begin_txn env db1 bws' tid' = Some (Inr (tid', db2))" "db_read env de db2 rws k tid' = Some (Inr (Some x, db3))"
    by (rule next_transaction_reads[where de = de, OF assms(1) q(1) ts' q(4) new assms(10) cap])
  with w(1) show ?thesis by blast
qed

theorem committed_write_is_read_witness:
  "\<exists>db1 db2 db3. run_txn ref_env (write_all ref_env Inr two_writes) small_db [(9, at_once 1, at_once 4)] = Some (Inr db1) \<and>
    begin_txn ref_env db1 (at_once 5) 10 = Some (Inr (10, db2)) \<and> db_read ref_env Inr db2 (at_once 6) [97] 10 = Some (Inr (Some [8], db3))"
  by (rule committed_write_is_read[OF ref_platform_ok small_db_quiet small_db_ticks, where rest = "[]"])
    (use small_db_time in \<open>simp_all add: small_db_facts two_writes_def NIL_def encoded_def old_version_def timestamp_le_iff
      is_intent_timestamp_def\<close>)

subsection \<open>A lost write\<close>

text \<open>
  A database at time 40 whose keys \<open>[97]\<close> and \<open>[98]\<close> were last committed at times 30 and 10.
\<close>

definition two_commits :: "entry list" where
  "two_commits = [(MVCCKey [97] (Timestamp 30 0), [1]), (MVCCKey [98] (Timestamp 10 1), [2])]"

definition later_db :: "ref_db internal_db" where
  "later_db =
     \<lparr>db_executor = (executor_new (ref_store two_commits None) Map.empty)\<lparr>ex_table := \<lparr>
        locks = [[97] \<mapsto> lock_state_new\<lparr>last_committed_timestamp := Some (Timestamp 30 0)\<rparr>,
                 [98] \<mapsto> lock_state_new\<lparr>last_committed_timestamp := Some (Timestamp 10 1)\<rparr>],
        lt_txns = Map.empty, lt_guards = Map.empty\<rparr>\<rparr>,
      db_txns = Map.empty, db_clock = clock_manual 40\<rparr>"

definition both_writes :: "(ref_db waits \<times> bytes \<times> bytes) list" where
  "both_writes = [(at_once 2, [97], [7])] @ [(at_once 3, [98], [8])]"

lemma next_times:
  "next_logical_timestamp (Timestamp 30 0) = Inr (Timestamp 30 1)" "next_logical_timestamp (Timestamp 10 1) = Inr (Timestamp 10 2)"
  by (simp_all add: next_logical_timestamp_def checked_add_def)

lemma later_db_quiet: "quiet ref_env ref_live ref_contents (db_executor later_db) (map_of two_commits) (ref_records None) {#}"
proof -
  have "entries_sorted two_commits"
    by (simp add: two_commits_def entries_sorted_def key_before_def is_intent_timestamp_def list_less_def)
  from ref_store_is[OF this] have "db_is ref_env ref_live ref_contents (ref_store two_commits None) (map_of two_commits) (ref_records None)" .
  moreover have "\<forall>k. map_of two_commits (create_intent_key k) = None"
    by (simp add: two_commits_def create_intent_key_def get_intent_timestamp_def)
  ultimately have "quiet ref_env ref_live ref_contents (executor_new (ref_store two_commits None) Map.empty) (map_of two_commits) (ref_records None) {#}"
    by (rule quiet_new[OF _ ref_records_decode])
  moreover have "alone (ex_table (db_executor later_db)) None"
    by (auto simp: alone_def table_inv_def lock_inv_def exclusive_def queues_ok_def links_ok_def txn_ids_ok_def queue_at_def queue_def
        later_db_def lock_state_new_def free_of_others_def get_holder_txn_id_def commit_ok_def next_times split: if_splits option.splits)
  ultimately show ?thesis by (simp add: quiet_def later_db_def)
qed

text \<open>
  C4: a committed write can be lost. Writing a key whose lock has seen a commit sets the writer's timestamp to the
  successor of that commit, whatever it was before, so the last key written decides when the whole transaction commits. When another key
  that it wrote has a later version, the transaction commits below that version, and the next transaction
  reads the older transaction's value, although \<open>run_txn\<close> has reported success.
\<close>

theorem committed_write_lost:
  assumes "platform_ok env live contents" "quiet env live contents (db_executor db) vm rm M"
    and "get_timestamp manual_current_time (db_clock db) = Inr (ts, clk)" "get_timestamp manual_current_time clk = Inr (ts', clk')"
    and "fresh_guards (used_guards db) (bws # map fst writes @ cws # bws' # rws # rest)"
    and "\<forall>(_, k, v) \<in> set writes. valid_utf8 k \<and> (\<exists>b. ser v = Inr b)"
    and "\<forall>c \<in> candidates (ex_table (db_executor db)) M ts. commit_time_ok c" and "size M + length writes < NIL"
    and "writes = pre @ [(ws, last_key, last_val)]" "last_key \<notin> fst ` set (encoded ser pre)"
    and "forces (ex_table (db_executor db)) M last_key c" "newest_version vm k ts' (Some (m, old))" "c < mtimestamp m" "de old = Inr x"
  shows "\<exists>db1 db2 db3 rm' M'. run_txn env (write_all env ser writes) db ((tid, bws, cws) # attempts) = Some (Inr db1) \<and>
    quiet env live contents (db_executor db1) (commit_versions vm c (encoded ser writes)) rm' M' \<and>
    record_map env rm' tid = Some (TxnRecord COMMITTED (TxnMetadata tid c)) \<and>
    begin_txn env db1 bws' tid' = Some (Inr (tid', db2)) \<and> db_read env de db2 rws k tid' = Some (Inr (Some x, db3))"
proof -
  have room: "size M + length writes \<le> NIL" using assms(8) by simp
  from writes_commit[OF assms(1-3,5-7) room, of tid attempts] obtain db1 rm1 M1 c' where
    w: "run_txn env (write_all env ser writes) db ((tid, bws, cws) # attempts) = Some (Inr db1)"
    and q: "quiet env live contents (db_executor db1) (commit_versions vm c' (encoded ser writes)) rm1 M1" "db_clock db1 = clk"
      "size M1 \<le> size M + length writes" "fresh_guards (used_guards db1) (bws' # rws # rest)"
      "record_map env rm1 tid = Some (TxnRecord COMMITTED (TxnMetadata tid c'))"
    and times: "\<forall>pre ws k v c. writes = pre @ [(ws, k, v)] \<longrightarrow> k \<notin> fst ` set (encoded ser pre) \<longrightarrow>
      forces (ex_table (db_executor db)) M k c \<longrightarrow> c' = c" by blast
  have forced: "c' = c" by (rule times[rule_format, OF assms(9-11)])
  have ts': "get_timestamp manual_current_time (db_clock db1) = Inr (ts', clk')" using assms(4) q(2) by simp
  have new: "newest_version (commit_versions vm c (encoded ser writes)) k ts' (Some (m, old))"
    using assms(12,13) by (cases m) (auto simp: newest_version_def commit_versions_def split: option.splits if_splits)
  have cap: "size M1 < NIL" using assms(8) q(3) by simp
  obtain db2 db3 where "begin_txn env db1 bws' tid' = Some (Inr (tid', db2))" "db_read env de db2 rws k tid' = Some (Inr (Some x, db3))"
    by (rule next_transaction_reads[where de = de, OF assms(1) q(1)[unfolded forced] ts' q(4) new assms(14) cap])
  with w q(1,5) forced show ?thesis by blast
qed

lemma later_db_facts:
  "used_guards later_db = {}"
  "candidates (ex_table (db_executor later_db)) {#} ts \<subseteq> {ts, Timestamp 30 1, Timestamp 10 2}"
  "forces (ex_table (db_executor later_db)) {#} [98] (Timestamp 10 2)"
  "get_timestamp manual_current_time (db_clock later_db) = Inr (Timestamp 40 1, (clock_manual 40)\<lparr>latest_timestamp := Timestamp 40 1\<rparr>)"
  "get_timestamp manual_current_time ((clock_manual 40)\<lparr>latest_timestamp := Timestamp 40 1\<rparr>) =
     Inr (Timestamp 40 2, (clock_manual 40)\<lparr>latest_timestamp := Timestamp 40 2\<rparr>)"
  by (auto simp: later_db_def executor_new_def used_guards_def candidates_def forces_def last_commit_def next_times get_timestamp_def
      clock_manual_def manual_current_time_def manual_new_def checked_add_def Let_def split: if_splits)

lemma small_time_ok:
  assumes "c \<in> {Timestamp 40 1, Timestamp 30 1, Timestamp 10 2}"
  shows "commit_time_ok c"
proof -
  have "valid_utf8 (encode_timestamp c)"
    by (rule valid_utf8_ascii) (use assms in \<open>auto simp: encode_timestamp_def to_le_bytes_def upt_rec take_bit_eq_mod
        unsigned_drop_bit_eq\<close>)
  with assms show ?thesis
    by (auto simp: commit_time_ok_def is_intent_timestamp_def commit_ok_def next_logical_timestamp_def checked_add_def)
qed

theorem committed_write_lost_witness:
  "\<exists>db1 db2 db3 rm' M'. run_txn ref_env (write_all ref_env Inr both_writes) later_db [(9, at_once 1, at_once 4)] = Some (Inr db1) \<and>
    quiet ref_env ref_live ref_contents (db_executor db1) (commit_versions (map_of two_commits) (Timestamp 10 2) (encoded Inr both_writes)) rm' M' \<and>
    record_map ref_env rm' 9 = Some (TxnRecord COMMITTED (TxnMetadata 9 (Timestamp 10 2))) \<and>
    begin_txn ref_env db1 (at_once 5) 10 = Some (Inr (10, db2)) \<and> db_read ref_env Inr db2 (at_once 6) [97] 10 = Some (Inr (Some [1], db3))"
proof (rule committed_write_lost[OF ref_platform_ok later_db_quiet later_db_facts(4,5), where rest = "[]" and pre = "[(at_once 2, [97], [7])]"])
  have "valid_utf8 [98]" by code_simp
  then show "\<forall>(_, k, v) \<in> set both_writes. valid_utf8 k \<and> (\<exists>b. Inr v = (Inr b :: string + bytes))" by (simp add: both_writes_def)
  show "newest_version (map_of two_commits) [97] (Timestamp 40 2) (Some (MVCCKey [97] (Timestamp 30 0), [1]))"
    by (auto simp: newest_version_def two_commits_def timestamp_le_iff is_intent_timestamp_def)
  show "\<forall>c \<in> candidates (ex_table (db_executor later_db)) {#} (Timestamp 40 1). commit_time_ok c"
    using later_db_facts(2) small_time_ok by blast
qed (use later_db_facts in \<open>simp_all add: both_writes_def encoded_def NIL_def timestamp_less_iff is_intent_timestamp_def\<close>)

subsection \<open>A new database\<close>




text \<open>
  C34: a timestamp of the interface becomes a clock timestamp only below 2 to the 32, where it sets both the wall and the
  logical time; above, the conversion panics. The time 0 becomes the timestamp of intents.
\<close>

theorem to_hlc_timestamp_bounds:
  "case to_hlc_timestamp (DbTimestamp a) of
     Inl e \<Rightarrow> e = UnwrapErr \<and> 2 ^ 32 \<le> unat a
   | Inr h \<Rightarrow> unat a < 2 ^ 32 \<and> unat (wall_time h) = unat a \<and> unat (logical_time h) = unat a \<and> (is_intent_timestamp h \<longleftrightarrow> a = 0)"
proof (cases "unat a < 2 ^ 32")
  case True
  then have "unat (ucast a :: u32) = unat a"
    by (simp add: unsigned_ucast_eq take_bit_nat_eq_self)
  with True show ?thesis
    by (auto simp: to_hlc_timestamp_def is_intent_timestamp_def simp flip: unat_eq_zero)
qed (simp add: to_hlc_timestamp_def)

end
