(* ===== verification/Isolation.thy ===== *)
theory Isolation
  imports Lock_Frames Database_Effects
begin

text \<open>
  Any number of transactions at once. The specification keeps the committed versions and, for every running
  transaction, its read timestamp and a private buffer of its writes: a write changes only the writer's buffer, a read
  sees the own buffer and else the committed versions at the read timestamp, a commit publishes the buffer
  at one timestamp, an abort drops it. A request that meets a key in the buffer of another running transaction is
  answered with a write intent error that names that transaction (a read below the intent's timestamp with nothing),
  and changes nothing. The executor (\<open>src/src/execute/executor.rs\<close>) implements it with
  intents and locks; an event is one execution of a request, or one call of \<open>sequence_req\<close> or
  \<open>finish_req\<close> on the lock table, so that the events of all transactions interleave.
\<close>

subsection \<open>The specification\<close>

type_synonym buffer = "key \<rightharpoonup> val"

record spec =
  sp_versions :: "mvcc_key \<rightharpoonup> bytes"
  sp_txns :: "uuid \<rightharpoonup> timestamp \<times> buffer"

datatype txn_event =
    Begin uuid timestamp
  | Write uuid key val
  | Read uuid key
  | Commit uuid
  | Abort uuid
  | Sequencing lock_event

definition publish :: "(mvcc_key \<rightharpoonup> bytes) \<Rightarrow> timestamp \<Rightarrow> buffer \<Rightarrow> mvcc_key \<rightharpoonup> bytes" where
  "publish versions c buf m =
     (case buf (mkey m) of Some v \<Rightarrow> if mtimestamp m = c then Some v else versions m | None \<Rightarrow> versions m)"

text \<open>The keys that a running transaction has written, and all keys that the store has an entry of.\<close>

definition wrote :: "spec \<Rightarrow> uuid \<Rightarrow> key \<Rightarrow> bool" where
  "wrote sp u k = (case sp_txns sp u of None \<Rightarrow> False | Some (_, buf) \<Rightarrow> buf k \<noteq> None)"

definition stored :: "spec \<Rightarrow> key \<Rightarrow> bool" where
  "stored sp k \<longleftrightarrow> (\<exists>ts. sp_versions sp (MVCCKey k ts) \<noteq> None) \<or> (\<exists>w. wrote sp w k)"

text \<open>The intent of an error names a running transaction that has written the key.\<close>

definition names_writer :: "spec \<Rightarrow> key \<Rightarrow> txn_intent \<Rightarrow> bool" where
  "names_writer sp k i \<longleftrightarrow> intent_key i = k \<and> wrote sp (meta_txn_id (txn_meta i)) k"

text \<open>What an event does, given the answer of the executor.\<close>

definition spec_event :: "spec \<Rightarrow> txn_event \<Rightarrow> response_result option \<Rightarrow> spec" where
  "spec_event sp e r =
     (case e of
        Begin u ts \<Rightarrow> sp\<lparr>sp_txns := (sp_txns sp)(u \<mapsto> (ts, Map.empty))\<rparr>
      | Write u k v \<Rightarrow>
          (case r of
             Some (Inr PutResponse) \<Rightarrow>
               sp\<lparr>sp_txns := (sp_txns sp)(u := map_option (\<lambda>(ts, buf). (ts, buf(k \<mapsto> v))) (sp_txns sp u))\<rparr>
           | _ \<Rightarrow> sp)
      | Commit u \<Rightarrow>
          (case r of
             Some (Inr (CommitTxnResponse c)) \<Rightarrow>
               sp\<lparr>sp_versions := publish (sp_versions sp) c (snd (the (sp_txns sp u))), sp_txns := (sp_txns sp)(u := None)\<rparr>
           | _ \<Rightarrow> sp)
      | Abort u \<Rightarrow> sp\<lparr>sp_txns := (sp_txns sp)(u := None)\<rparr>
      | _ \<Rightarrow> sp)"

text \<open>
  The answers that the specification allows. On a key that another running transaction has written, a write fails
  with the intent, and a read fails with it or, when the intent is later than the read, returns nothing: never the
  value of the intent.
\<close>

definition allowed :: "spec \<Rightarrow> txn_event \<Rightarrow> response_result option \<Rightarrow> bool" where
  "allowed sp e r \<longleftrightarrow>
     (case e of
        Begin _ _ \<Rightarrow> r = Some (Inr BeginTxnResponse)
      | Write u k _ \<Rightarrow>
          (if \<exists>w. w \<noteq> u \<and> wrote sp w k
           then \<exists>i. r = Some (Inl (WriteIntentErr i)) \<and> names_writer sp k i \<and> meta_txn_id (txn_meta i) \<noteq> u
           else r = Some (Inr PutResponse))
      | Read u k \<Rightarrow>
          (case the (sp_txns sp u) of (ts, buf) \<Rightarrow>
             (case buf k of
                Some v \<Rightarrow> r = Some (Inr (GetResponse (Some (create_intent_key k, v))))
              | None \<Rightarrow>
                  if \<exists>w. wrote sp w k
                  then \<exists>i. names_writer sp k i \<and>
                    r = Some (if meta_write_timestamp (txn_meta i) \<le> ts then Inl (WriteIntentErr i) else Inr (GetResponse None))
                  else \<exists>x. r = Some (Inr (GetResponse x)) \<and> newest_version (sp_versions sp) k ts x))
      | Commit _ \<Rightarrow> r = Some (Inl ReadRefreshError) \<or> (\<exists>c. r = Some (Inr (CommitTxnResponse c)) \<and> \<not> is_intent_timestamp c)
      | Abort _ \<Rightarrow> r = Some (Inr AbortTxnResponse)
      | Sequencing _ \<Rightarrow> r = None)"

fun spec_run :: "spec \<Rightarrow> (txn_event \<times> response_result option) list \<Rightarrow> spec" where
  "spec_run sp [] = sp"
| "spec_run sp ((e, r) # h) = spec_run (spec_event sp e r) h"

fun allowed_run :: "spec \<Rightarrow> (txn_event \<times> response_result option) list \<Rightarrow> bool" where
  "allowed_run sp [] = True"
| "allowed_run sp ((e, r) # h) = (allowed sp e r \<and> allowed_run (spec_event sp e r) h)"

subsection \<open>The executor\<close>

definition exec_request :: "'db env \<Rightarrow> 'db exec \<Rightarrow> request \<Rightarrow> (response_result option \<times> 'db exec) run" where
  "exec_request env ex req =
     run_bind (if is_read_only (request_body req) then execute_read_only_request env ex req else execute_write_request env ex req)
       (\<lambda>(r, ex'). Some (Inr (Some r, ex')))"

definition exec_event :: "'db env \<Rightarrow> 'db exec \<Rightarrow> txn_event \<Rightarrow> (response_result option \<times> 'db exec) run" where
  "exec_event env ex e =
     (case e of
        Begin u ts \<Rightarrow>
          exec_request env (ex\<lparr>ex_table := put_txn (ex_table ex) u (txn_new u ts)\<rparr>) \<lparr>request_txn = u, request_body = BeginTxn u\<rparr>
      | Write u k v \<Rightarrow> exec_request env ex \<lparr>request_txn = u, request_body = Put k v\<rparr>
      | Read u k \<Rightarrow> exec_request env ex \<lparr>request_txn = u, request_body = Get k\<rparr>
      | Commit u \<Rightarrow> exec_request env ex \<lparr>request_txn = u, request_body = CommitTxn\<rparr>
      | Abort u \<Rightarrow> exec_request env ex \<lparr>request_txn = u, request_body = AbortTxn\<rparr>
      | Sequencing le \<Rightarrow> Some (rbind (lock_step (ex_table ex) le) (\<lambda>lt. Inr (None, ex\<lparr>ex_table := lt\<rparr>))))"

fun exec_run :: "'db env \<Rightarrow> 'db exec \<Rightarrow> txn_event list \<Rightarrow> ((txn_event \<times> response_result option) list \<times> 'db exec) run" where
  "exec_run env ex [] = Some (Inr ([], ex))"
| "exec_run env ex (e # es) =
     run_bind (exec_event env ex e) (\<lambda>(r, ex').
     run_bind (exec_run env ex' es) (\<lambda>(h, ex''). Some (Inr ((e, r) # h, ex''))))"

subsection \<open>The relation between them\<close>

definition committed :: "(mvcc_key \<rightharpoonup> bytes) \<Rightarrow> mvcc_key \<rightharpoonup> bytes" where
  "committed vm m = (if is_intent_key m then None else vm m)"

definition buffer_of :: "txn \<Rightarrow> (key \<Rightarrow> val) \<Rightarrow> timestamp \<times> buffer" where
  "buffer_of t val = (read_timestamp t, (\<lambda>k. if k \<in> set (lock_spans t) then Some (val k) else None))"

definition running ::
  "'db env \<Rightarrow> ('db \<Rightarrow> bool) \<Rightarrow> ('db \<Rightarrow> string \<Rightarrow> (bytes \<times> bytes) list) \<Rightarrow> 'db exec \<Rightarrow>
   (mvcc_key \<rightharpoonup> bytes) \<Rightarrow> (uuid \<rightharpoonup> bytes) \<Rightarrow> uuid \<Rightarrow> timestamp \<times> buffer \<Rightarrow> bool" where
  "running env live contents ex vm rm u p \<longleftrightarrow>
     (\<exists>t val. in_flight env live contents ex vm rm u t val \<and> is_status (record_map env rm u) PENDING \<and> p = buffer_of t val)"

definition sound_state ::
  "'db env \<Rightarrow> ('db \<Rightarrow> bool) \<Rightarrow> ('db \<Rightarrow> string \<Rightarrow> (bytes \<times> bytes) list) \<Rightarrow> 'db exec \<Rightarrow> (mvcc_key \<rightharpoonup> bytes) \<Rightarrow> (uuid \<rightharpoonup> bytes) \<Rightarrow> bool" where
  "sound_state env live contents ex vm rm \<longleftrightarrow>
     db_is env live contents (ex_store ex) vm rm \<and> records_decode env rm \<and> table_inv (ex_table ex) \<and> commits_ok (ex_table ex) \<and>
     wait_inv (ex_waitq ex) \<and> (\<exists>M. intervals (ex_oracle ex) M)"

definition relates ::
  "'db env \<Rightarrow> ('db \<Rightarrow> bool) \<Rightarrow> ('db \<Rightarrow> string \<Rightarrow> (bytes \<times> bytes) list) \<Rightarrow> 'db exec \<Rightarrow> (mvcc_key \<rightharpoonup> bytes) \<Rightarrow> (uuid \<rightharpoonup> bytes) \<Rightarrow> spec \<Rightarrow> bool" where
  "relates env live contents ex vm rm sp \<longleftrightarrow>
     sound_state env live contents ex vm rm \<and> committed vm = sp_versions sp \<and>
     (\<forall>u p. sp_txns sp u = Some p \<longrightarrow> running env live contents ex vm rm u p) \<and>
     (\<forall>k. vm (create_intent_key k) \<noteq> None \<longrightarrow> (\<exists>u. wrote sp u k))"

lemma relatesD:
  assumes "relates env live contents ex vm rm sp"
  shows "sound_state env live contents ex vm rm" "committed vm = sp_versions sp"
    "sp_txns sp u = Some p \<Longrightarrow> running env live contents ex vm rm u p"
    "vm (create_intent_key k) \<noteq> None \<Longrightarrow> \<exists>w. wrote sp w k"
  using assms unfolding relates_def by blast+

definition implements ::
  "'db env \<Rightarrow> ('db \<Rightarrow> bool) \<Rightarrow> ('db \<Rightarrow> string \<Rightarrow> (bytes \<times> bytes) list) \<Rightarrow> 'db exec \<Rightarrow> spec \<Rightarrow> bool" where
  "implements env live contents ex sp \<longleftrightarrow> (\<exists>vm rm. relates env live contents ex vm rm sp)"

subsection \<open>When an event can run\<close>

definition room :: "'db exec \<Rightarrow> nat \<Rightarrow> bool" where
  "room ex n \<longleftrightarrow> (\<exists>M. intervals (ex_oracle ex) M \<and> size M + n \<le> NIL)"

text \<open>
  The write timestamp of a transaction that commits is one that the code can store and
  read back and from which the lock table can derive the next.
\<close>

definition can_commit :: "txn \<Rightarrow> bool" where
  "can_commit t \<longleftrightarrow>
     valid_utf8 (encode_timestamp (write_timestamp t)) \<and> \<not> is_intent_timestamp (write_timestamp t) \<and>
     commit_ok (Some (write_timestamp t))"

text \<open>
  The events that the theorem is about. A request is one of a transaction that has begun and has not ended, and a
  transaction begins with an identifier that no other has used; the timestamp oracle has room for the spans
  that the request records; the timestamp of a commit is one that the code can store. A read may be of any key but one
  beyond every stored key, where \<open>seek_ge\<close> leaves the iterator on the entry of another key; the key may be
  absent and another transaction may have written it. A write may be of any key that is free, the
  transaction's own or written by another transaction, but not of one whose lock is reserved for another that has not
  written it: \<open>acquire_lock\<close> panics there, and sequencing keeps a request from getting there.
\<close>

definition admissible :: "'db exec \<Rightarrow> spec \<Rightarrow> txn_event \<Rightarrow> bool" where
  "admissible ex sp e \<longleftrightarrow>
     (case e of
        Begin u ts \<Rightarrow> lt_txns (ex_table ex) u = None
      | Write u k v \<Rightarrow> sp_txns sp u \<noteq> None \<and> valid_utf8 k \<and>
          (owner (ex_table ex) k \<in> {None, Some u} \<or> (\<exists>w. wrote sp w k))
      | Read u k \<Rightarrow> sp_txns sp u \<noteq> None \<and> room ex 1 \<and>
          ((\<exists>k'. k \<le> k' \<and> stored sp k') \<or> (\<forall>k'. \<not> stored sp k'))
      | Commit u \<Rightarrow> sp_txns sp u \<noteq> None \<and>
          (\<forall>t. lt_txns (ex_table ex) u = Some t \<longrightarrow> room ex (length (finalize_spans t)) \<and> can_commit t)
      | Abort u \<Rightarrow> sp_txns sp u \<noteq> None \<and>
          (\<forall>t. lt_txns (ex_table ex) u = Some t \<longrightarrow> room ex (length (finalize_spans t)))
      | Sequencing le \<Rightarrow> sequencing_event le \<and> (\<exists>lt. lock_step (ex_table ex) le = Inr lt))"

fun admissible_run :: "'db env \<Rightarrow> 'db exec \<Rightarrow> spec \<Rightarrow> txn_event list \<Rightarrow> bool" where
  "admissible_run env ex sp [] = True"
| "admissible_run env ex sp (e # es) =
     (admissible ex sp e \<and>
      (case exec_event env ex e of Some (Inr (r, ex')) \<Rightarrow> admissible_run env ex' (spec_event sp e r) es | _ \<Rightarrow> True))"

subsection \<open>What one transaction does to the others\<close>

lemma in_flight_frame:
  assumes fl: "in_flight env live contents ex vm rm u t val" and new: "sound_state env live contents ex' vm' rm'"
    and t': "lt_txns (ex_table ex') u = Some t'" "lock_spans t' = lock_spans t"
    and keys: "\<And>k. k \<in> set (lock_spans t) \<Longrightarrow> vm' (create_intent_key k) = vm (create_intent_key k)"
      "\<And>k. k \<in> set (lock_spans t) \<Longrightarrow> lock_core (ex_table ex') k = lock_core (ex_table ex) k"
  shows "in_flight env live contents ex' vm' rm' u t' val"
proof -
  have "\<exists>st. locks (ex_table ex') k = Some st \<and> get_holder_txn_id st = Some u" if k: "k \<in> set (lock_spans t)" for k
  proof -
    obtain st where st: "locks (ex_table ex) k = Some st" "get_holder_txn_id st = Some u"
      using fl k by (auto simp: in_flight_def)
    with keys(2)[OF k] show ?thesis
      by (cases "locks (ex_table ex') k") (auto simp: lock_core_def get_holder_txn_id_def)
  qed
  moreover have "own_intents env vm' u (lock_spans t) val"
    using in_flightD(11)[OF fl] keys(1) by (simp add: own_intents_def)
  ultimately show ?thesis using fl new t' by (simp add: in_flight_def sound_state_def)
qed

lemma running_frame:
  assumes "running env live contents ex vm rm u (ts, buf)" "sound_state env live contents ex' vm' rm'"
    and "map_option frozen (lt_txns (ex_table ex') u) = map_option frozen (lt_txns (ex_table ex) u)"
    and "record_map env rm' u = record_map env rm u"
    and "\<And>k. buf k \<noteq> None \<Longrightarrow> vm' (create_intent_key k) = vm (create_intent_key k)"
      "\<And>k. buf k \<noteq> None \<Longrightarrow> lock_core (ex_table ex') k = lock_core (ex_table ex) k"
  shows "running env live contents ex' vm' rm' u (ts, buf)"
proof -
  obtain t val where t: "in_flight env live contents ex vm rm u t val" "is_status (record_map env rm u) PENDING"
      "(ts, buf) = buffer_of t val"
    using assms(1) by (auto simp: running_def)
  obtain t' where t': "lt_txns (ex_table ex') u = Some t'" "frozen t' = frozen t"
    using assms(3) in_flightD(6)[OF t(1)] by (cases "lt_txns (ex_table ex') u") auto
  have "in_flight env live contents ex' vm' rm' u t' val"
    by (rule in_flight_frame[OF t(1) assms(2) t'(1)]) (use assms(5,6) t(3) t'(2) in \<open>auto simp: buffer_of_def frozen_def\<close>)
  moreover have "(ts, buf) = buffer_of t' val" using t(3) t'(2) by (simp add: buffer_of_def frozen_def)
  ultimately show ?thesis using t(2) assms(4) unfolding running_def by metis
qed

text \<open>A running transaction holds the locks of the keys it has written, so no two have a key in common.\<close>

lemma wrote_holds:
  assumes "relates env live contents ex vm rm sp" "wrote sp u k"
  obtains st where "locks (ex_table ex) k = Some st" "get_holder_txn_id st = Some u"
proof -
  obtain ts buf where buf: "sp_txns sp u = Some (ts, buf)" "buf k \<noteq> None"
    using assms(2) by (auto simp: wrote_def split: option.splits)
  have "running env live contents ex vm rm u (ts, buf)" by (rule relatesD(3)[OF assms(1) buf(1)])
  then obtain t val where fl: "in_flight env live contents ex vm rm u t val" and "(ts, buf) = buffer_of t val"
    unfolding running_def by blast
  with buf(2) have "k \<in> set (lock_spans t)" by (auto simp: buffer_of_def split: if_splits)
  then show ?thesis using fl that unfolding in_flight_def by blast
qed

lemma wrote_disjoint: "relates env live contents ex vm rm sp \<Longrightarrow> wrote sp u k \<Longrightarrow> wrote sp v k \<Longrightarrow> u = v"
  by (metis wrote_holds option.inject)

text \<open>
  One event of transaction \<open>u\<close>: the relation holds again when it does for \<open>u\<close> and
  nothing changed that another transaction relies on.
\<close>

lemma relates_step:
  assumes rel: "relates env live contents ex vm rm sp" and new: "sound_state env live contents ex' vm' rm'"
    and sp': "committed vm' = sp_versions sp'" "\<And>w. w \<noteq> u \<Longrightarrow> sp_txns sp' w = sp_txns sp w"
    and txns: "\<And>w. w \<noteq> u \<Longrightarrow> sp_txns sp w \<noteq> None \<Longrightarrow> map_option frozen (lt_txns (ex_table ex') w) = map_option frozen (lt_txns (ex_table ex) w)"
      "\<And>w. w \<noteq> u \<Longrightarrow> record_map env rm' w = record_map env rm w"
    and keys: "\<And>w k. w \<noteq> u \<Longrightarrow> wrote sp w k \<Longrightarrow> vm' (create_intent_key k) = vm (create_intent_key k)"
      "\<And>w k. w \<noteq> u \<Longrightarrow> wrote sp w k \<Longrightarrow> lock_core (ex_table ex') k = lock_core (ex_table ex) k"
    and own: "\<And>p. sp_txns sp' u = Some p \<Longrightarrow> running env live contents ex' vm' rm' u p"
    and intents: "\<And>k. vm' (create_intent_key k) \<noteq> None \<Longrightarrow> \<exists>w. wrote sp' w k"
  shows "relates env live contents ex' vm' rm' sp'"
proof -
  have "running env live contents ex' vm' rm' w p" if w: "sp_txns sp' w = Some p" for w p
  proof (cases "w = u")
    case False
    obtain ts buf where p: "p = (ts, buf)" by (cases p)
    have old: "sp_txns sp w = Some (ts, buf)" using sp'(2)[OF False] w p by simp
    have wr: "wrote sp w k" if "buf k \<noteq> None" for k using that old by (auto simp: wrote_def)
    have run: "running env live contents ex vm rm w (ts, buf)" by (rule relatesD(3)[OF rel old])
    have "sp_txns sp w \<noteq> None" using old by simp
    note tx = txns(1)[OF False this] txns(2)[OF False]
    show ?thesis unfolding p by (rule running_frame[OF run new tx]) (use keys False wr in blast)+
  qed (use own w in simp)
  with new sp'(1) intents show ?thesis by (simp add: relates_def)
qed

end
