(* ===== verification/Isolation_Steps.thy ===== *)
theory Isolation_Steps
  imports Isolation
begin

text \<open>
  Each event of a transaction is a step of the specification: the executor returns an answer that the specification
  allows, and its state implements the specification's next state.
\<close>

definition follows ::
  "'db env \<Rightarrow> ('db \<Rightarrow> bool) \<Rightarrow> ('db \<Rightarrow> string \<Rightarrow> (bytes \<times> bytes) list) \<Rightarrow> 'db exec \<Rightarrow> spec \<Rightarrow> txn_event \<Rightarrow> bool" where
  "follows env live contents ex sp e \<longleftrightarrow>
     (\<exists>r ex'. exec_event env ex e = Some (Inr (r, ex')) \<and> allowed sp e r \<and> implements env live contents ex' (spec_event sp e r))"

lemma followsI:
  "exec_event env ex e = Some (Inr (r, ex')) \<Longrightarrow> allowed sp e r \<Longrightarrow> relates env live contents ex' vm rm (spec_event sp e r) \<Longrightarrow>
   follows env live contents ex sp e"
  by (auto simp: follows_def implements_def)

lemma relates_running:
  assumes "relates env live contents ex vm rm sp" "sp_txns sp u \<noteq> None"
  obtains t val where "in_flight env live contents ex vm rm u t val" "is_status (record_map env rm u) PENDING"
    "sp_txns sp u = Some (buffer_of t val)" "\<forall>k. wrote sp u k \<longleftrightarrow> k \<in> set (lock_spans t)"
proof -
  obtain p where p: "sp_txns sp u = Some p" using assms(2) by blast
  then have "running env live contents ex vm rm u p" by (rule relatesD(3)[OF assms(1)])
  then obtain t val where "in_flight env live contents ex vm rm u t val" "is_status (record_map env rm u) PENDING" "p = buffer_of t val"
    unfolding running_def by blast
  then show ?thesis using that p by (simp add: wrote_def buffer_of_def)
qed

subsection \<open>The committed versions\<close>

lemma committed_intent [simp]: "committed (vm(create_intent_key k := x)) = committed vm"
  by (auto simp: committed_def fun_eq_iff create_intent_key_def is_intent_key_iff)

lemma committed_dropped [simp]: "committed (\<lambda>m. if m \<in> create_intent_key ` K then None else vm m) = committed vm"
  by (auto simp: committed_def fun_eq_iff create_intent_key_def is_intent_key_iff)

lemma committed_resolved:
  "\<not> is_intent_timestamp c \<Longrightarrow> committed (resolved vm c (lock_spans t) val) = publish (committed vm) c (snd (buffer_of t val))"
  by (auto simp: committed_def fun_eq_iff resolved_def publish_def buffer_of_def is_intent_key_def)

lemma resolved_intent: "\<not> is_intent_timestamp c \<Longrightarrow>
  resolved vm c ks val (create_intent_key k) = (if k \<in> set ks then None else vm (create_intent_key k))"
  by (auto simp: resolved_def create_intent_key_def is_intent_key_def is_intent_timestamp_iff)

lemma newest_version_committed:
  assumes "vm (create_intent_key k) = None"
  shows "newest_version (committed vm) k ts x \<longleftrightarrow> newest_version vm k ts x"
proof -
  have "committed vm m = vm m" if "mkey m = k" for m
    using that assms by (cases m) (auto simp: committed_def is_intent_key_iff create_intent_key_def)
  then show ?thesis by (auto simp: newest_version_def split: option.splits)
qed

subsection \<open>Sequencing\<close>

lemma sequencing_follows:
  assumes rel: "relates env live contents ex vm rm sp" and ev: "sequencing_event le" "lock_step (ex_table ex) le = Inr lt"
  shows "follows env live contents ex sp (Sequencing le)"
proof -
  let ?ex = "ex\<lparr>ex_table := lt\<rparr>"
  have calm: "calm (ex_table ex) lt" by (rule sequencing_calm[OF ev(2,1)])
  have "table_inv lt" using lock_machine.step_inv[OF _ ev(2)] rel by (simp add: relates_def sound_state_def)
  then have sound: "sound_state env live contents ?ex vm rm"
    using rel calm by (simp add: relates_def sound_state_def calm_def commits_ok_def)
  have run: "running env live contents ?ex vm rm u p" if "sp_txns sp u = Some p" for u p
  proof -
    have "running env live contents ex vm rm u (fst p, snd p)" using relatesD(3)[OF rel that] by simp
    from running_frame[OF this sound] calm show ?thesis by (simp add: calm_def keeps_txns_def)
  qed
  then have rel': "relates env live contents ?ex vm rm sp" using rel sound by (simp add: relates_def)
  show ?thesis
    by (rule followsI[of _ _ _ None ?ex, OF _ _ ]) (use ev rel' in \<open>simp_all add: exec_event_def allowed_def spec_event_def\<close>)
qed

subsection \<open>Read-only requests\<close>

lemma read_only_event:
  assumes "execute env ex \<lparr>request_txn = u, request_body = body\<rparr> = Some (Inr (r, ex1))" "is_read_only body"
    "lt_txns (ex_table ex1) u = Some t1" "room ex1 (length (collect_spans body t1))"
  obtains g M where "exec_request env ex \<lparr>request_txn = u, request_body = body\<rparr> = Some (Inr (Some r, ex1\<lparr>ex_oracle := g\<rparr>))" "intervals g M"
proof -
  obtain M where M: "intervals (ex_oracle ex1) M" "size M + length (collect_spans body t1) \<le> NIL"
    using assms(4) unfolding room_def by blast
  obtain g where g: "update_cache (lt_txns (ex_table ex1)) (ex_oracle ex1) \<lparr>request_txn = u, request_body = body\<rparr> = Some (Inr g)"
    "intervals g (recorded M t1 body)"
    by (rule update_cache_records[where txns = "lt_txns (ex_table ex1)", OF M(1) assms(3) M(2)])
  show ?thesis
    by (rule that[OF _ g(2)]) (use assms(1,2) g(1) in \<open>simp add: exec_request_def execute_read_only_request_def\<close>)
qed

lemma begin_follows:
  assumes plat: "platform_ok env live contents" and rel: "relates env live contents ex vm rm sp"
    and new: "lt_txns (ex_table ex) u = None"
  shows "follows env live contents ex sp (Begin u ts)"
proof -
  let ?t = "txn_new u ts"
  let ?lt = "put_txn (ex_table ex) u ?t"
  have s: "sound_state env live contents ex vm rm" using rel by (simp add: relates_def)
  then have db: "db_is env live contents (ex_store ex) vm rm" "records_decode env rm" by (simp_all add: sound_state_def)
  obtain d rm' where d: "create_pending_transaction_record env (ex_store ex) u ts = Inr d" "db_is env live contents d vm rm'"
    "records_decode env rm'" "record_map env rm' = (record_map env rm)(u \<mapsto> TxnRecord PENDING (TxnMetadata u ts))"
    unfolding create_pending_transaction_record_def by (rule put_transaction_record_map[OF plat db])
  let ?ex = "ex\<lparr>ex_store := d, ex_table := ?lt\<rparr>"
  have run: "exec_event env ex (Begin u ts) = Some (Inr (Some (Inr BeginTxnResponse), ?ex))"
    using d(1) by (simp add: exec_event_def exec_request_def is_read_only_def execute_read_only_request_def execute_def begin_execute_def
        exec_txn_def txn_at_def put_txn_def txn_new_def put_store_def update_cache_def collect_spans_def)
  have tab: "table_inv ?lt"
    using s put_txn_inv by (auto simp: sound_state_def table_inv_def txn_ids_ok_def put_txn_def txn_new_def)
  have core: "lock_core ?lt = lock_core (ex_table ex)" by (simp add: fun_eq_iff lock_core_def put_txn_def)
  have sound: "sound_state env live contents ?ex vm rm'"
    using s d(2,3) tab core by (simp add: sound_state_def commits_ok_def)
  have fl: "in_flight env live contents ?ex vm rm' u ?t undefined"
    using sound by (simp add: in_flight_def sound_state_def put_txn_def txn_new_def own_intents_def)
  have pend: "is_status (record_map env rm' u) PENDING" and buf: "buffer_of ?t undefined = (ts, Map.empty)"
    using d(4) by (simp_all add: is_status_def buffer_of_def txn_new_def)
  have started: "running env live contents ?ex vm rm' u (ts, Map.empty)"
    unfolding running_def using fl pend buf by metis
  have no: "sp_txns sp u = None"
    using relates_running[OF rel, of u] new in_flightD(6) by (metis option.distinct(1))
  show ?thesis
  proof (rule followsI[OF run])
    show "relates env live contents ?ex vm rm' (spec_event sp (Begin u ts) (Some (Inr BeginTxnResponse)))"
    proof (rule relates_step[OF rel sound, of _ u])
      show "\<exists>w. wrote (spec_event sp (Begin u ts) (Some (Inr BeginTxnResponse))) w k" if "vm (create_intent_key k) \<noteq> None" for k
      proof -
        from relatesD(4)[OF rel that] obtain w where w: "wrote sp w k" by blast
        with no have "w \<noteq> u" by (auto simp: wrote_def)
        with w show ?thesis by (auto simp: wrote_def spec_event_def intro!: exI[of _ w])
      qed
    qed (use relatesD(2)[OF rel] started d(4) core in \<open>simp_all add: spec_event_def put_txn_def\<close>)
  qed (simp add: allowed_def)
qed

subsection \<open>Ending a transaction\<close>

lemma release_frame:
  assumes fl: "in_flight env live contents ex vm rm u t val" and ul: "update_lock_txn ul = u"
    and ts: "\<And>k st. k \<in> set (lock_spans t) \<Longrightarrow> locks (ex_table ex) k = Some st \<Longrightarrow> commit_ok (commit_of st ul)"
    and ok: "commits_ok (ex_table ex)" and run: "update_txn_locks (ex_table ex) u ul = Some (Inr lt')"
  shows "table_inv lt'" "commits_ok lt'" "keeps_txns (ex_table ex) lt'" "k \<notin> set (lock_spans t) \<Longrightarrow> lock_core lt' k = lock_core (ex_table ex) k"
proof -
  note f = in_flightD[OF fl]
  have hold: "holds_locks (ex_table ex) ul (lock_spans t)" by (rule in_flight_holds_locks[OF fl ul ts])
  have upd: "update_keys (ex_table ex) (lock_spans t) ul = Some (Inr lt')"
    using run f(6) by (simp add: update_txn_locks_def get_txn_lock_spans_def txn_at_def)
  show keeps: "keeps_txns (ex_table ex) lt'" by (rule keeps_txns_update_keys[OF upd])
  have "lock_inv lt'" using update_keys_ok[OF f(4,9) hold] upd by auto
  then show "table_inv lt'" using keeps_txnsD(2)[OF keeps] f(3) by (simp add: table_inv_def)
  show "commits_ok lt'" "k \<notin> set (lock_spans t) \<Longrightarrow> lock_core lt' k = lock_core (ex_table ex) k"
    using update_keys_core[OF f(4,9) hold upd ok] by simp_all
qed

text \<open>
  A transaction that ends: its intents are gone or resolved, its locks released, the others keep theirs.
\<close>

lemma end_relates:
  assumes rel: "relates env live contents ex vm rm sp" and fl: "in_flight env live contents ex vm rm u t val"
    and wrote: "\<forall>k. wrote sp u k \<longleftrightarrow> k \<in> set (lock_spans t)"
    and new: "db_is env live contents (ex_store ex') vm' rm'" "records_decode env rm'" "wait_inv (ex_waitq ex')" "intervals (ex_oracle ex') M"
    and rec: "\<And>w. w \<noteq> u \<Longrightarrow> record_map env rm' w = record_map env rm w"
    and ul: "update_lock_txn ul = u" "update_txn_locks (ex_table ex) u ul = Some (Inr (ex_table ex'))"
      "\<And>k st. k \<in> set (lock_spans t) \<Longrightarrow> locks (ex_table ex) k = Some st \<Longrightarrow> commit_ok (commit_of st ul)"
    and vm': "\<And>k. vm' (create_intent_key k) = (if k \<in> set (lock_spans t) then None else vm (create_intent_key k))"
    and sp': "committed vm' = sp_versions sp'" "sp_txns sp' = (sp_txns sp)(u := None)"
  shows "relates env live contents ex' vm' rm' sp'"
proof -
  have sound: "sound_state env live contents ex vm rm" by (rule relatesD(1)[OF rel])
  then have ok: "commits_ok (ex_table ex)" by (simp add: sound_state_def)
  note frame = release_frame[OF fl ul(1,3) ok ul(2)]
  have sound': "sound_state env live contents ex' vm' rm'"
    using new frame(1,2) by (auto simp: sound_state_def)
  have other: "k \<notin> set (lock_spans t)" if "w \<noteq> u" "wrote sp w k" for w k
    using wrote_disjoint[OF rel that(2), of u] that(1) wrote by blast
  show ?thesis
  proof (rule relates_step[OF rel sound' sp'(1)])
    show "\<exists>w. wrote sp' w k" if "vm' (create_intent_key k) \<noteq> None" for k
    proof -
      have k: "k \<notin> set (lock_spans t)" "vm (create_intent_key k) \<noteq> None" using that vm' by (auto split: if_splits)
      from relatesD(4)[OF rel k(2)] obtain w where w: "wrote sp w k" by blast
      with k(1) wrote have "w \<noteq> u" by blast
      with w show ?thesis using sp'(2) by (auto simp: wrote_def intro!: exI[of _ w])
    qed
    show "map_option frozen (lt_txns (ex_table ex') w) = map_option frozen (lt_txns (ex_table ex) w)" for w
      using frame(3) by (simp add: keeps_txns_def)
  qed (use sp'(2) rec vm' frame(4) other in auto)
qed

lemma frozen_spans: "frozen t' = frozen t \<Longrightarrow> finalize_spans t' = finalize_spans t"
  by (simp add: frozen_def finalize_spans_def)

lemma abort_follows:
  assumes plat: "platform_ok env live contents" and rel: "relates env live contents ex vm rm sp"
    and adm: "admissible ex sp (Abort u)"
  shows "follows env live contents ex sp (Abort u)"
proof -
  have "sp_txns sp u \<noteq> None" using adm by (simp add: admissible_def)
  then obtain t val where fl: "in_flight env live contents ex vm rm u t val" and st: "is_status (record_map env rm u) PENDING"
    and "sp_txns sp u = Some (buffer_of t val)" and wrote: "\<forall>k. wrote sp u k \<longleftrightarrow> k \<in> set (lock_spans t)"
    by (rule relates_running[OF rel])
  have ts: "commit_ok (last_committed_timestamp st)" if "locks (ex_table ex) k = Some st" for k st
    using relatesD(1)[OF rel] commits_okD that by (auto simp: sound_state_def)
  have "\<not> is_status (record_map env rm u) COMMITTED" using st by (auto simp: is_status_def split: option.splits)
  then obtain ex1 rm' where ex1: "abort_execute env ex u = Some (Inr (Inr AbortTxnResponse, ex1))"
    "db_is env live contents (ex_store ex1) (\<lambda>m. if m \<in> create_intent_key ` set (lock_spans t) then None else vm m) rm'"
    "record_map env rm' = (record_map env rm)(u \<mapsto> TxnRecord ABORTED (TxnMetadata u (write_timestamp t)))" "wait_inv (ex_waitq ex1)"
    "update_txn_locks (ex_table ex) u (AbortLock u) = Some (Inr (ex_table ex1))" "ex_oracle ex1 = ex_oracle ex" "records_decode env rm'"
    by (rule abort_effect[OF plat fl]) (use ts in blast)+
  have keeps: "keeps_txns (ex_table ex) (ex_table ex1)"
    by (rule release_frame[OF fl _ _ _ ex1(5)])
      (use ts relatesD(1)[OF rel] in \<open>auto simp: update_lock_txn_def commit_of_def sound_state_def\<close>)
  obtain t1 where t1: "lt_txns (ex_table ex1) u = Some t1" "frozen t1 = frozen t"
    using keeps_txnsD(1)[OF keeps in_flightD(6)[OF fl]] by blast
  have room: "room ex1 (length (collect_spans AbortTxn t1))"
    using adm in_flightD(6)[OF fl] ex1(6) frozen_spans[OF t1(2)] by (simp add: admissible_def room_def collect_spans_def)
  have run: "execute env ex \<lparr>request_txn = u, request_body = AbortTxn\<rparr> = Some (Inr (Inr AbortTxnResponse, ex1))"
    by (simp add: execute_def ex1(1))
  obtain g M where g: "exec_request env ex \<lparr>request_txn = u, request_body = AbortTxn\<rparr> =
      Some (Inr (Some (Inr AbortTxnResponse), ex1\<lparr>ex_oracle := g\<rparr>))" "intervals g M"
    by (rule read_only_event[OF run _ t1(1) room]) (simp_all add: is_read_only_def)
  show ?thesis
  proof (rule followsI)
    show "exec_event env ex (Abort u) = Some (Inr (Some (Inr AbortTxnResponse), ex1\<lparr>ex_oracle := g\<rparr>))"
      using g(1) by (simp add: exec_event_def)
    show "relates env live contents (ex1\<lparr>ex_oracle := g\<rparr>)
        (\<lambda>m. if m \<in> create_intent_key ` set (lock_spans t) then None else vm m) rm' (spec_event sp (Abort u) (Some (Inr AbortTxnResponse)))"
      by (rule end_relates[OF rel fl wrote, where ul = "AbortLock u" and M = M])
        (use ex1 g(2) ts relatesD(2)[OF rel] in \<open>auto simp: update_lock_txn_def commit_of_def spec_event_def\<close>)
  qed (simp add: allowed_def)
qed

text \<open>A commit is refused or publishes the buffer.\<close>

lemma oracle_relates:
  assumes "relates env live contents ex vm rm sp" "intervals g M"
  shows "relates env live contents (ex\<lparr>ex_oracle := g\<rparr>) vm rm sp"
proof -
  have "in_flight env live contents (ex\<lparr>ex_oracle := g\<rparr>) vm rm u t val = in_flight env live contents ex vm rm u t val" for u t val
    by (simp add: in_flight_def)
  then show ?thesis using assms by (auto simp: relates_def sound_state_def running_def)
qed

lemma refused_commit_follows:
  assumes plat: "platform_ok env live contents" and rel: "relates env live contents ex vm rm sp"
    and fl: "in_flight env live contents ex vm rm u t val" and st: "is_status (record_map env rm u) PENDING"
    and refresh: "refresh_keys env (ex_store ex) u u (read_timestamp t) (write_timestamp t) (read_set t) = Inr False"
    and room: "room ex (length (finalize_spans t))"
  shows "follows env live contents ex sp (Commit u)"
proof -
  note f = in_flightD[OF fl]
  have rec: "get_transaction_record env (ex_store ex) u = Inr (record_map env rm u)"
    by (rule get_transaction_record_map[OF plat f(1,2)])
  have "refresh_read_timestamp env ex u = Inr (False, ex)"
    using f(7,8) refresh by (simp add: refresh_read_timestamp_def Let_def)
  then have run: "execute env ex \<lparr>request_txn = u, request_body = CommitTxn\<rparr> = Some (Inr (Inl ReadRefreshError, ex))"
    using f(7,8) rec st by (auto simp: execute_def commit_execute_def is_status_def split: option.splits)
  obtain g M where g: "exec_request env ex \<lparr>request_txn = u, request_body = CommitTxn\<rparr> =
      Some (Inr (Some (Inl ReadRefreshError), ex\<lparr>ex_oracle := g\<rparr>))" "intervals g M"
    by (rule read_only_event[OF run _ f(6)]) (use room in \<open>simp_all add: is_read_only_def collect_spans_def\<close>)
  show ?thesis
    by (rule followsI[where vm = vm and rm = rm])
      (use g oracle_relates[OF rel] in \<open>auto simp: exec_event_def allowed_def spec_event_def\<close>)
qed

lemma accepted_commit_follows:
  assumes plat: "platform_ok env live contents" and rel: "relates env live contents ex vm rm sp"
    and fl: "in_flight env live contents ex vm rm u t val" and st: "is_status (record_map env rm u) PENDING"
    and sp: "sp_txns sp u = Some (buffer_of t val)" and wrote: "\<forall>k. wrote sp u k \<longleftrightarrow> k \<in> set (lock_spans t)"
    and refresh: "refresh_keys env (ex_store ex) u u (read_timestamp t) (write_timestamp t) (read_set t) = Inr True"
    and ts: "valid_utf8 (encode_timestamp (write_timestamp t))" "\<not> is_intent_timestamp (write_timestamp t)"
      "commit_ok (Some (write_timestamp t))"
    and room: "room ex (length (finalize_spans t))"
  shows "follows env live contents ex sp (Commit u)"
proof -
  let ?c = "write_timestamp t"
  have "\<not> is_status (record_map env rm u) ABORTED" using st by (auto simp: is_status_def split: option.splits)
  then obtain ex1 rm' where ex1: "commit_execute env ex u = Some (Inr (Inr (CommitTxnResponse ?c), ex1))"
    "db_is env live contents (ex_store ex1) (resolved vm ?c (lock_spans t) val) rm'"
    "record_map env rm' = (record_map env rm)(u \<mapsto> TxnRecord COMMITTED (TxnMetadata u ?c))" "wait_inv (ex_waitq ex1)"
    "update_txn_locks (ex_table ex) u (CommitLock u ?c) = Some (Inr (ex_table ex1))" "ex_oracle ex1 = ex_oracle ex" "records_decode env rm'"
    by (rule commit_effect[OF plat fl _ refresh ts])
  have keeps: "keeps_txns (ex_table ex) (ex_table ex1)"
    by (rule release_frame[OF fl _ _ _ ex1(5)])
      (use ts(3) relatesD(1)[OF rel] in \<open>auto simp: update_lock_txn_def commit_of_def sound_state_def\<close>)
  obtain t1 where t1: "lt_txns (ex_table ex1) u = Some t1" "frozen t1 = frozen t"
    using keeps_txnsD(1)[OF keeps in_flightD(6)[OF fl]] by blast
  have room: "room ex1 (length (collect_spans CommitTxn t1))"
    using room ex1(6) frozen_spans[OF t1(2)] by (simp add: room_def collect_spans_def)
  have run: "execute env ex \<lparr>request_txn = u, request_body = CommitTxn\<rparr> = Some (Inr (Inr (CommitTxnResponse ?c), ex1))"
    by (simp add: execute_def ex1(1))
  obtain g M where g: "exec_request env ex \<lparr>request_txn = u, request_body = CommitTxn\<rparr> =
      Some (Inr (Some (Inr (CommitTxnResponse ?c)), ex1\<lparr>ex_oracle := g\<rparr>))" "intervals g M"
    by (rule read_only_event[OF run _ t1(1) room]) (simp_all add: is_read_only_def)
  show ?thesis
  proof (rule followsI)
    show "exec_event env ex (Commit u) = Some (Inr (Some (Inr (CommitTxnResponse ?c)), ex1\<lparr>ex_oracle := g\<rparr>))"
      using g(1) by (simp add: exec_event_def)
    show "relates env live contents (ex1\<lparr>ex_oracle := g\<rparr>) (resolved vm ?c (lock_spans t) val) rm'
        (spec_event sp (Commit u) (Some (Inr (CommitTxnResponse ?c))))"
      by (rule end_relates[OF rel fl, where ul = "CommitLock u ?c" and M = M])
        (use wrote ex1 g(2) ts(2,3) relatesD(2)[OF rel] sp in
          \<open>auto simp: update_lock_txn_def commit_of_def spec_event_def resolved_intent committed_resolved\<close>)
  qed (use ts(2) in \<open>simp add: allowed_def\<close>)
qed

text \<open>The intents of the store are those of the running transactions.\<close>

lemma wrote_intent:
  assumes rel: "relates env live contents ex vm rm sp" and w: "wrote sp w k"
  shows "\<exists>b x md. vm (create_intent_key k) = Some b \<and> de_uncommitted env b = Inr (UncommittedValue x md) \<and> meta_txn_id md = w"
proof -
  have "sp_txns sp w \<noteq> None" using w by (auto simp: wrote_def split: option.splits)
  then obtain t val where fl: "in_flight env live contents ex vm rm w t val" and "is_status (record_map env rm w) PENDING"
    and "sp_txns sp w = Some (buffer_of t val)" and "\<forall>k. wrote sp w k \<longleftrightarrow> k \<in> set (lock_spans t)"
    by (rule relates_running[OF rel])
  with w show ?thesis using in_flightD(11)[OF fl] unfolding own_intents_def by blast
qed

lemma intent_writer:
  assumes rel: "relates env live contents ex vm rm sp" and b: "vm (create_intent_key k) = Some b"
  obtains md x where "de_uncommitted env b = Inr (UncommittedValue x md)" "wrote sp (meta_txn_id md) k"
    "is_status (record_map env rm (meta_txn_id md)) PENDING"
proof -
  from relatesD(4)[OF rel, of k] b obtain w where w: "wrote sp w k" by auto
  then have "sp_txns sp w \<noteq> None" by (auto simp: wrote_def split: option.splits)
  then have "is_status (record_map env rm w) PENDING" by (rule relates_running[OF rel])
  with wrote_intent[OF rel w] b w show ?thesis by (auto intro: that)
qed

lemma refresh_keys_returns:
  assumes plat: "platform_ok env live contents" and rel: "relates env live contents ex vm rm sp"
  shows "\<exists>b. refresh_keys env (ex_store ex) u tid from_ts to_ts ks = Inr b"
proof (induction ks)
  case (Cons k ks)
  have "db_is env live contents (ex_store ex) vm rm" using relatesD(1)[OF rel] by (simp add: sound_state_def)
  then obtain r where "mvcc_get env (ex_store ex) k to_ts (Some u) = Inr r"
    using mvcc_get_returns[OF plat, of "ex_store ex" vm rm k to_ts "Some u"] intent_writer[OF rel] by blast
  with Cons show ?case by auto
qed auto

lemma commit_follows:
  assumes plat: "platform_ok env live contents" and rel: "relates env live contents ex vm rm sp"
    and adm: "admissible ex sp (Commit u)"
  shows "follows env live contents ex sp (Commit u)"
proof -
  have "sp_txns sp u \<noteq> None" using adm by (simp add: admissible_def)
  then obtain t val where fl: "in_flight env live contents ex vm rm u t val" and st: "is_status (record_map env rm u) PENDING"
    and sp: "sp_txns sp u = Some (buffer_of t val)" and wrote: "\<forall>k. wrote sp u k \<longleftrightarrow> k \<in> set (lock_spans t)"
    by (rule relates_running[OF rel])
  have room: "room ex (length (finalize_spans t))" and can: "can_commit t"
    using adm in_flightD(6)[OF fl] by (simp_all add: admissible_def)
  obtain b where "refresh_keys env (ex_store ex) u u (read_timestamp t) (write_timestamp t) (read_set t) = Inr b"
    using refresh_keys_returns[OF plat rel] by blast
  then show ?thesis
    using refused_commit_follows[OF plat rel fl st _ room] accepted_commit_follows[OF plat rel fl st sp wrote _ _ _ _ room] can
    by (cases b) (auto simp: can_commit_def)
qed

subsection \<open>Reads and writes\<close>

text \<open>What a transaction changes of itself, its write timestamp and its read set, concerns no other.\<close>

lemma own_txn_relates:
  assumes rel: "relates env live contents ex vm rm sp" and fl: "in_flight env live contents ex vm rm u t val"
    and st: "is_status (record_map env rm u) PENDING" and sp: "sp_txns sp u = Some (buffer_of t val)"
    and t': "txn_id t' = u" "lock_spans t' = lock_spans t" "read_timestamp t' = read_timestamp t"
  shows "relates env live contents (ex\<lparr>ex_table := put_txn (ex_table ex) u t'\<rparr>) vm rm sp"
    "in_flight env live contents (ex\<lparr>ex_table := put_txn (ex_table ex) u t'\<rparr>) vm rm u t' val"
    "buffer_of t' val = buffer_of t val"
proof -
  let ?lt = "put_txn (ex_table ex) u t'"
  have core: "lock_core ?lt = lock_core (ex_table ex)" by (simp add: fun_eq_iff lock_core_def put_txn_def)
  have "table_inv ?lt" using in_flightD(3)[OF fl] put_txn_inv t'(1) by (auto simp: table_inv_def txn_ids_ok_def put_txn_def)
  then have sound: "sound_state env live contents (ex\<lparr>ex_table := ?lt\<rparr>) vm rm"
    using relatesD(1)[OF rel] core by (simp add: sound_state_def commits_ok_def)
  show fl': "in_flight env live contents (ex\<lparr>ex_table := ?lt\<rparr>) vm rm u t' val"
    by (rule in_flight_frame[OF fl sound _ t'(2)]) (simp_all add: core, simp add: put_txn_def)
  show buf: "buffer_of t' val = buffer_of t val" using t'(2,3) by (simp add: buffer_of_def)
  have run: "running env live contents (ex\<lparr>ex_table := ?lt\<rparr>) vm rm u (buffer_of t val)"
    unfolding running_def using fl' st buf by metis
  show "relates env live contents (ex\<lparr>ex_table := ?lt\<rparr>) vm rm sp"
    by (rule relates_step[OF rel sound relatesD(2)[OF rel], of u])
      (use core run sp relatesD(4)[OF rel] in \<open>simp_all add: put_txn_def\<close>)
qed

lemma stored_entry:
  assumes rel: "relates env live contents ex vm rm sp"
  shows "stored sp k \<longleftrightarrow> (\<exists>ts. vm (MVCCKey k ts) \<noteq> None)"
proof -
  have vers: "sp_versions sp = committed vm" by (rule relatesD(2)[OF rel, symmetric])
  have "vm (create_intent_key k) \<noteq> None \<longleftrightarrow> (\<exists>w. wrote sp w k)"
    using relatesD(4)[OF rel] wrote_intent[OF rel] by blast
  moreover have "(\<exists>ts. vm (MVCCKey k ts) \<noteq> None) \<longleftrightarrow> (\<exists>ts. committed vm (MVCCKey k ts) \<noteq> None) \<or> vm (create_intent_key k) \<noteq> None"
    by (simp add: committed_def is_intent_key_iff create_intent_key_def) (metis option.distinct(1))
  ultimately show ?thesis by (simp add: stored_def vers)
qed

text \<open>
  The answer of a read, by who has written the key: the transaction itself, another running transaction, or
  none, where the store may have versions of the key or not.
\<close>

definition read_state :: "'db exec \<Rightarrow> uuid \<Rightarrow> txn \<Rightarrow> key \<Rightarrow> 'db exec \<Rightarrow> bool" where
  "read_state ex u t k ex' \<longleftrightarrow> ex' = ex \<or> ex' = ex\<lparr>ex_table := put_txn (ex_table ex) u (append_read_sets t k)\<rparr>"

lemma own_read:
  assumes plat: "platform_ok env live contents" and fl: "in_flight env live contents ex vm rm u t val"
    and sp: "sp_txns sp u = Some (buffer_of t val)" and k: "k \<in> set (lock_spans t)"
  shows "\<exists>r ex'. get_execute env ex u k = Inr (r, ex') \<and> read_state ex u t k ex' \<and> allowed sp (Read u k) (Some r)"
proof -
  note f = in_flightD[OF fl]
  obtain b md where b: "vm (create_intent_key k) = Some b" "de_uncommitted env b = Inr (UncommittedValue (val k) md)" "meta_txn_id md = u"
    using f(11) k unfolding own_intents_def by blast
  have "get_execute env ex u k = Inr (Inr (GetResponse (Some (create_intent_key k, val k))),
      ex\<lparr>ex_table := put_txn (ex_table ex) u (append_read_sets t k)\<rparr>)"
    using f(7,8) mvcc_get_with_intent[OF plat f(1) b(1,2)] b(3) by (simp add: get_execute_def upd_txn_def)
  then show ?thesis using sp k by (auto simp: allowed_def buffer_of_def read_state_def)
qed

lemma foreign_read:
  assumes plat: "platform_ok env live contents" and rel: "relates env live contents ex vm rm sp"
    and fl: "in_flight env live contents ex vm rm u t val" and sp: "sp_txns sp u = Some (buffer_of t val)"
    and k: "k \<notin> set (lock_spans t)" "vm (create_intent_key k) = Some b"
  shows "\<exists>r ex'. get_execute env ex u k = Inr (r, ex') \<and> read_state ex u t k ex' \<and> allowed sp (Read u k) (Some r)"
proof -
  note f = in_flightD[OF fl]
  obtain md x where md: "de_uncommitted env b = Inr (UncommittedValue x md)" "wrote sp (meta_txn_id md) k"
    and "is_status (record_map env rm (meta_txn_id md)) PENDING"
    by (rule intent_writer[OF rel k(2)])
  have "meta_txn_id md \<noteq> u" using md(2) sp k(1) by (auto simp: wrote_def buffer_of_def)
  then have get: "get_execute env ex u k = Inr (if meta_write_timestamp md \<le> read_timestamp t then (Inl (WriteIntentErr (TxnIntent md k)), ex)
      else (Inr (GetResponse None), ex\<lparr>ex_table := put_txn (ex_table ex) u (append_read_sets t k)\<rparr>))"
    using f(7,8) mvcc_get_with_intent[OF plat f(1) k(2) md(1)] by (auto simp: get_execute_def upd_txn_def)
  have "names_writer sp k (TxnIntent md k)" using md(2) by (simp add: names_writer_def)
  then have "allowed sp (Read u k) (Some (if meta_write_timestamp md \<le> read_timestamp t then Inl (WriteIntentErr (TxnIntent md k))
      else Inr (GetResponse None)))"
    using sp k(1) md(2) by (auto simp: allowed_def buffer_of_def intro!: exI[of _ "TxnIntent md k"])
  with get show ?thesis by (auto simp: read_state_def)
qed

lemma committed_read:
  assumes plat: "platform_ok env live contents" and rel: "relates env live contents ex vm rm sp"
    and fl: "in_flight env live contents ex vm rm u t val" and sp: "sp_txns sp u = Some (buffer_of t val)"
    and adm: "(\<exists>k'. k \<le> k' \<and> stored sp k') \<or> (\<forall>k'. \<not> stored sp k')" and no: "vm (create_intent_key k) = None"
  shows "\<exists>r ex'. get_execute env ex u k = Inr (r, ex') \<and> read_state ex u t k ex' \<and> allowed sp (Read u k) (Some r)"
proof -
  note f = in_flightD[OF fl]
  have "within vm k"
    using adm
  proof
    assume "\<exists>k'. k \<le> k' \<and> stored sp k'"
    then obtain k' ts where "k \<le> k'" "vm (MVCCKey k' ts) \<noteq> None" by (auto simp: stored_entry[OF rel])
    then show ?thesis unfolding within_def by (intro disjI2 exI[of _ "MVCCKey k' ts"]) simp
  next
    assume "\<forall>k'. \<not> stored sp k'"
    then have "vm m = None" for m by (cases m) (simp add: stored_entry[OF rel])
    then show ?thesis by (auto simp: within_def)
  qed
  from mvcc_get_within[OF plat f(1) no this]
  obtain x where x: "mvcc_get env (ex_store ex) k (read_timestamp t) (Some u) = Inr (MVCCGetResult x None)"
    "newest_version vm k (read_timestamp t) x" by blast
  have none: "\<not> wrote sp w k" for w using no wrote_intent[OF rel] by fastforce
  have "get_execute env ex u k = Inr (Inr (GetResponse x), ex\<lparr>ex_table := put_txn (ex_table ex) u (append_read_sets t k)\<rparr>)"
    using f(8) x(1) by (simp add: get_execute_def upd_txn_def)
  moreover have "buffer_of t val = (read_timestamp t, snd (buffer_of t val))" "snd (buffer_of t val) k = None"
    using none[of u] sp by (auto simp: wrote_def buffer_of_def)
  ultimately show ?thesis
    using sp x(2) none newest_version_committed[of vm k, OF no] relatesD(2)[OF rel]
    by (auto simp: allowed_def read_state_def buffer_of_def)
qed

lemma read_follows:
  assumes plat: "platform_ok env live contents" and rel: "relates env live contents ex vm rm sp"
    and adm: "admissible ex sp (Read u k)"
  shows "follows env live contents ex sp (Read u k)"
proof -
  have "sp_txns sp u \<noteq> None" using adm by (simp add: admissible_def)
  then obtain t val where fl: "in_flight env live contents ex vm rm u t val" and st: "is_status (record_map env rm u) PENDING"
    and sp: "sp_txns sp u = Some (buffer_of t val)" and "\<forall>k. wrote sp u k \<longleftrightarrow> k \<in> set (lock_spans t)"
    by (rule relates_running[OF rel])
  have "(\<exists>k'. k \<le> k' \<and> stored sp k') \<or> (\<forall>k'. \<not> stored sp k')" using adm by (simp add: admissible_def)
  then have "\<exists>r ex'. get_execute env ex u k = Inr (r, ex') \<and> read_state ex u t k ex' \<and> allowed sp (Read u k) (Some r)"
    using own_read[OF plat fl sp] foreign_read[OF plat rel fl sp] committed_read[OF plat rel fl sp]
    by (cases "k \<in> set (lock_spans t)"; cases "vm (create_intent_key k)") blast+
  then obtain r ex1 where r: "get_execute env ex u k = Inr (r, ex1)" "read_state ex u t k ex1" "allowed sp (Read u k) (Some r)"
    by blast
  have "relates env live contents (ex\<lparr>ex_table := put_txn (ex_table ex) u (append_read_sets t k)\<rparr>) vm rm sp"
    by (rule own_txn_relates[OF rel fl st sp]) (use in_flightD(7)[OF fl] in \<open>simp_all add: append_read_sets_def\<close>)
  with r(2) rel have rel1: "relates env live contents ex1 vm rm sp" by (auto simp: read_state_def)
  obtain t1 where t1: "lt_txns (ex_table ex1) u = Some t1"
    using r(2) in_flightD(6)[OF fl] by (auto simp: read_state_def put_txn_def)
  have room: "room ex1 (length (collect_spans (Get k) t1))"
    using adm r(2) by (auto simp: admissible_def room_def collect_spans_def read_state_def)
  have run: "execute env ex \<lparr>request_txn = u, request_body = Get k\<rparr> = Some (Inr (r, ex1))"
    by (simp add: execute_def r(1))
  obtain g M where g: "exec_request env ex \<lparr>request_txn = u, request_body = Get k\<rparr> = Some (Inr (Some r, ex1\<lparr>ex_oracle := g\<rparr>))" "intervals g M"
    by (rule read_only_event[OF run _ t1 room]) (simp_all add: is_read_only_def)
  from oracle_relates[OF rel1 g(2)] show ?thesis
    by (intro followsI[of env ex "Read u k" "Some r" _ sp live contents vm rm, OF _ r(3)])
      (use g(1) in \<open>simp_all add: exec_event_def spec_event_def\<close>)
qed

lemma commits_ok_acquired:
  assumes "commits_ok lt" "locks lt' = (locks lt)(k \<mapsto> st)" "acquired (locks lt) k u st"
  shows "commits_ok lt'"
proof -
  have "commit_ok (last_committed_timestamp st)"
    using commits_okD[OF assms(1), of k] assms(3) by (cases "locks lt k") (auto simp: acquired_def commit_ok_def)
  with assms(1,2) show ?thesis by (auto simp: commits_ok_def lock_core_def split: if_splits)
qed

text \<open>Writing an intent where no other transaction has one.\<close>

lemma put_relates:
  assumes plat: "platform_ok env live contents" and rel: "relates env live contents ex vm rm sp"
    and fl: "in_flight env live contents ex vm rm u t val" and st: "is_status (record_map env rm u) PENDING"
    and sp: "sp_txns sp u = Some (buffer_of t val)" and k: "valid_utf8 k" "owner (ex_table ex) k \<in> {None, Some u}"
  obtains ex' vm' where "put_execute env ex u k v = Inr (Inr PutResponse, ex')"
    "relates env live contents ex' vm' rm (spec_event sp (Write u k v) (Some (Inr PutResponse)))"
proof -
  let ?t = "append_lock_span t k" and ?sp = "spec_event sp (Write u k v) (Some (Inr PutResponse))"
  have mine: "w = u" if "wrote sp w k" for w
    using wrote_holds[OF rel that] k(2) by (auto simp: owner_def get_holder_txn_id_def split: option.splits)
  have "wrote sp u k \<longleftrightarrow> k \<in> set (lock_spans t)" using sp by (simp add: wrote_def buffer_of_def)
  then have free: "vm (create_intent_key k) = None \<or> k \<in> set (lock_spans t)"
    using relatesD(4)[OF rel, of k] mine by (auto simp del: not_None_eq)
  have rec: "record_map env rm u \<noteq> None" using st by (auto simp: is_status_def split: option.splits)
  obtain ex' b lst where ex': "put_execute env ex u k v = Inr (Inr PutResponse, ex')"
    "in_flight env live contents ex' (vm(create_intent_key k \<mapsto> b)) rm u ?t (val(k := v))"
    "ex_oracle ex' = ex_oracle ex"
    "locks (ex_table ex') = (locks (ex_table ex))(k \<mapsto> lst)" "acquired (locks (ex_table ex)) k u lst"
    "lt_txns (ex_table ex') = (lt_txns (ex_table ex))(u \<mapsto> ?t)"
    by (rule put_effect[OF plat fl k(1) free k(2) rec])
  let ?vm = "vm(create_intent_key k \<mapsto> b)"
  note old = relatesD(1)[OF rel, unfolded sound_state_def]
  have "commits_ok (ex_table ex')" using commits_ok_acquired[OF _ ex'(4,5)] old by blast
  then have sound: "sound_state env live contents ex' ?vm rm"
    using in_flightD[OF ex'(2)] old ex'(3) by (simp add: sound_state_def)
  have buf: "sp_txns ?sp u = Some (buffer_of ?t (val(k := v)))"
    using sp by (auto simp: spec_event_def buffer_of_def set_append_lock_span append_lock_span_def fun_eq_iff)
  have wr: "wrote ?sp w k' \<longleftrightarrow> wrote sp w k' \<or> w = u \<and> k' = k" for w k'
    using sp by (auto simp: wrote_def spec_event_def buffer_of_def split: option.splits)
  have "relates env live contents ex' ?vm rm ?sp"
  proof (rule relates_step[OF rel sound, of _ u])
    show "running env live contents ex' ?vm rm u p" if "sp_txns ?sp u = Some p" for p
      using that buf ex'(2) st unfolding running_def by auto
    show "\<exists>w. wrote ?sp w k'" if "?vm (create_intent_key k') \<noteq> None" for k'
      using that relatesD(4)[OF rel, of k'] wr by (cases "k' = k") auto
    show "lock_core (ex_table ex') k' = lock_core (ex_table ex) k'" if "w \<noteq> u" "wrote sp w k'" for w k'
      using that ex'(4) mine by (auto simp: lock_core_def)
  qed (use relatesD(2)[OF rel] ex'(6) mine in \<open>auto simp: spec_event_def\<close>)
  with ex'(1) show ?thesis by (rule that)
qed

text \<open>A write of a key that another running transaction has written changes nothing.\<close>

lemma refused_put:
  assumes plat: "platform_ok env live contents" and rel: "relates env live contents ex vm rm sp"
    and fl: "in_flight env live contents ex vm rm u t val" and w: "w \<noteq> u" "wrote sp w k"
  obtains i where "put_execute env ex u k v = Inr (Inl (WriteIntentErr i), ex)" "names_writer sp k i" "meta_txn_id (txn_meta i) \<noteq> u"
proof -
  note f = in_flightD[OF fl]
  obtain b where b: "vm (create_intent_key k) = Some b" using wrote_intent[OF rel w(2)] by blast
  obtain md x where md: "de_uncommitted env b = Inr (UncommittedValue x md)" "wrote sp (meta_txn_id md) k"
    "is_status (record_map env rm (meta_txn_id md)) PENDING"
    by (rule intent_writer[OF rel b])
  have other: "meta_txn_id md = w" by (rule wrote_disjoint[OF rel md(2) w(2)])
  obtain r where r: "record_map env rm (meta_txn_id md) = Some r" "rec_status r = PENDING"
    using md(3) by (auto simp: is_status_def split: option.splits)
  have "mvcc_put_raw env (ex_store ex) k None (Some t) v = Inr (Inl (WriteIntentError (TxnIntent md k)))"
    using put_check_some[OF plat f(1,2) b md(1), of r t] r other w(1) f(7) by (simp add: mvcc_put_raw_def)
  then have "put_execute env ex u k v = Inr (Inl (WriteIntentErr (TxnIntent md k)), ex)"
    using f(8) by (simp add: put_execute_def)
  then show ?thesis by (rule that) (use md(2) other w(1) in \<open>simp_all add: names_writer_def\<close>)
qed

lemma write_follows:
  assumes plat: "platform_ok env live contents" and rel: "relates env live contents ex vm rm sp"
    and adm: "admissible ex sp (Write u k v)"
  shows "follows env live contents ex sp (Write u k v)"
proof -
  have "sp_txns sp u \<noteq> None" using adm by (simp add: admissible_def)
  then obtain t val where fl: "in_flight env live contents ex vm rm u t val" and st: "is_status (record_map env rm u) PENDING"
    and sp: "sp_txns sp u = Some (buffer_of t val)" and "\<forall>k. wrote sp u k \<longleftrightarrow> k \<in> set (lock_spans t)"
    by (rule relates_running[OF rel])
  obtain M where M: "intervals (ex_oracle ex) M" using relatesD(1)[OF rel] by (auto simp: sound_state_def)
  obtain ts where ts: "execute_write_request env ex \<lparr>request_txn = u, request_body = Put k v\<rparr> =
      execute env (ex\<lparr>ex_table := put_txn (ex_table ex) u (t\<lparr>write_timestamp := ts\<rparr>)\<rparr>) \<lparr>request_txn = u, request_body = Put k v\<rparr>"
    using write_request_timestamp[OF M in_flightD(6)[OF fl]] by blast
  let ?t = "t\<lparr>write_timestamp := ts\<rparr>"
  let ?ex = "ex\<lparr>ex_table := put_txn (ex_table ex) u ?t\<rparr>"
  have own: "relates env live contents ?ex vm rm sp" "in_flight env live contents ?ex vm rm u ?t val" "buffer_of ?t val = buffer_of t val"
    by (rule own_txn_relates[OF rel fl st sp]; use in_flightD(7)[OF fl] in simp)+
  have sp': "sp_txns sp u = Some (buffer_of ?t val)" using sp own(3) by simp
  have "owner (ex_table ?ex) k = owner (ex_table ex) k"
    by (simp add: owner_def put_txn_def split: option.split)
  then have k: "valid_utf8 k" "owner (ex_table ?ex) k \<in> {None, Some u} \<or> (\<exists>w. wrote sp w k)" using adm by (simp_all add: admissible_def)
  note run = exec_event_def exec_request_def is_read_only_def ts execute_def
  show ?thesis
  proof (cases "\<exists>w. w \<noteq> u \<and> wrote sp w k")
    case True
    then obtain w where "w \<noteq> u" "wrote sp w k" by blast
    then obtain i where i: "put_execute env ?ex u k v = Inr (Inl (WriteIntentErr i), ?ex)" "names_writer sp k i" "meta_txn_id (txn_meta i) \<noteq> u"
      by (rule refused_put[OF plat own(1,2)])
    show ?thesis
      by (rule followsI[where r = "Some (Inl (WriteIntentErr i))" and vm = vm and rm = rm])
        (use True i own(1) in \<open>auto simp: run allowed_def spec_event_def\<close>)
  next
    case False
    have "owner (ex_table ?ex) k = Some u" if "wrote sp u k"
      by (rule wrote_holds[OF own(1) that]) (auto simp: owner_def get_holder_txn_id_def)
    with k(2) False have "owner (ex_table ?ex) k \<in> {None, Some u}" by (metis insert_iff)
    then obtain ex' vm' where ex': "put_execute env ?ex u k v = Inr (Inr PutResponse, ex')"
      "relates env live contents ex' vm' rm (spec_event sp (Write u k v) (Some (Inr PutResponse)))"
      by (rule put_relates[OF plat own(1,2) st sp' k(1)])
    show ?thesis
      by (rule followsI[OF _ _ ex'(2)]) (use False ex'(1) in \<open>simp_all add: run allowed_def\<close>)
  qed
qed

subsection \<open>Whole histories\<close>

lemma event_follows:
  assumes plat: "platform_ok env live contents" and rel: "relates env live contents ex vm rm sp" and adm: "admissible ex sp e"
  shows "follows env live contents ex sp e"
proof (cases e)
  case (Begin u ts)
  with adm show ?thesis using begin_follows[OF plat rel] by (simp add: admissible_def)
next
  case (Sequencing le)
  with adm show ?thesis using sequencing_follows[OF rel] by (auto simp: admissible_def)
qed (use adm write_follows[OF plat rel] read_follows[OF plat rel] commit_follows[OF plat rel] abort_follows[OF plat rel] in blast)+

lemma run_follows:
  assumes "platform_ok env live contents" "implements env live contents ex sp" "admissible_run env ex sp es"
  shows "\<exists>h ex'. exec_run env ex es = Some (Inr (h, ex')) \<and> map fst h = es \<and> allowed_run sp h \<and>
    implements env live contents ex' (spec_run sp h)"
  using assms(2,3)
proof (induction es arbitrary: ex sp)
  case (Cons e es)
  obtain vm rm where "relates env live contents ex vm rm sp" using Cons.prems(1) by (auto simp: implements_def)
  then have "follows env live contents ex sp e" by (rule event_follows[OF assms(1)]) (use Cons.prems(2) in simp)
  then obtain r ex1 where step: "exec_event env ex e = Some (Inr (r, ex1))" "allowed sp e r"
    "implements env live contents ex1 (spec_event sp e r)"
    unfolding follows_def by blast
  have "admissible_run env ex1 (spec_event sp e r) es" using Cons.prems(2) step(1) by simp
  from Cons.IH[OF step(3) this]
  obtain h ex' where h: "exec_run env ex1 es = Some (Inr (h, ex'))" "map fst h = es" "allowed_run (spec_event sp e r) h"
    "implements env live contents ex' (spec_run (spec_event sp e r) h)" by blast
  with step show ?case by (intro exI[of _ "(e, r) # h"] exI[of _ ex']) simp
qed simp

end
