(* ===== verification/Isolation_Properties.thy ===== *)
theory Isolation_Properties
  imports Isolation_Steps Executor_Properties
begin

text \<open>
  The properties of transactions that run at the same time, over any platform with the documented behaviour. The
  witness starts from transaction 3, which has written key \<open>[97]\<close>, on the reference platform.
\<close>

subsection \<open>An example\<close>



text \<open>A new executor over a store without intents implements the specification without transactions.\<close>

lemma new_executor_implements:
  assumes "db_is env live contents store vm rm" "records_decode env rm" "\<forall>k. vm (create_intent_key k) = None"
  shows "implements env live contents (executor_new store Map.empty) \<lparr>sp_versions = committed vm, sp_txns = Map.empty\<rparr>"
proof -
  have "table_inv (lock_table_new Map.empty)" by (rule table_inv_new) (simp add: txn_ids_ok_def)
  moreover have "commits_ok (lock_table_new Map.empty)" by (simp add: commits_ok_def lock_core_def lock_table_new_def)
  moreover have "intervals oracle_new {#}" using itree.content_empty by (simp add: oracle_new_def)
  ultimately have "sound_state env live contents (executor_new store Map.empty) vm rm"
    using assms(1,2) wait_inv_new by (auto simp: sound_state_def executor_new_def)
  with assms(3) show ?thesis unfolding implements_def relates_def by (auto intro!: exI[of _ vm] exI[of _ rm])
qed







subsection \<open>Interleaved transactions\<close>









end
