(* ===== verification/Spec2Isabelle.thy ===== *)
theory Spec2Isabelle
  imports Store_Properties Index_Properties Lock_Properties Wait_Properties Executor_Properties
    Latch_Properties Concurrency_Properties Database_Properties Isolation_Properties
begin

text \<open>
  A verification library for a transactional multi-version key-value database written in Rust
  (the crate under \<open>src/\<close>; its modules are under \<open>src/src/\<close>).

  The program. A client's request becomes a \<open>Request\<close> on behalf of a transaction
  (\<open>execute/request.rs\<close>). The store (\<open>storage/mvcc.rs\<close>) keeps several versions of each
  key in RocksDB, ordered by a hand-written comparator (\<open>storage/storage.rs\<close>) over encoded
  keys (\<open>storage/mvcc_key.rs\<close>); an uncommitted write is an intent, the version at the
  all-zero timestamp. Reads go through a scanner (\<open>storage/mvcc_scanner.rs\<close>) on an iterator
  (\<open>storage/mvcc_iterator.rs\<close>). Timestamps come from a hybrid logical clock
  (\<open>hlc/\<close>). The timestamp oracle (\<open>timestamp_oracle/oracle.rs\<close>) remembers the read
  timestamps of past requests in an interval tree (\<open>interval/interval_tree.rs\<close>) on a
  red-black tree (\<open>llrb/llrb.rs\<close>). While a request looks at the lock table it holds latches on its
  keys, which the latch manager (\<open>latch_manager/latch_manager.rs\<close>) keeps in a B-tree
  (\<open>latch_manager/latch_interval_btree.rs\<close>). Writes are serialised by the lock table
  (\<open>lock_table/lock_table.rs\<close>); a request that waits too long pushes the holder's transaction
  through the wait queue (\<open>txn_wait/txn_wait_queue.rs\<close>), which detects deadlocks. The executor
  (\<open>execute/executor.rs\<close>) and the concurrency manager (\<open>concurrency/concurrency_manager.rs\<close>)
  run each request against all of these. The front end (\<open>db/db.rs\<close>) makes the requests of a transaction, repeats
  a transaction until it commits, and has a task queue (\<open>db/request_queue.rs\<close>) that aborts pushed transactions.

  Theories.
    \<^item> \<open>Prelude\<close>: machine integers, panics as values (\<open>'a res\<close>), computations that may
      not return (\<open>'a run\<close>), Rust's \<open>Ord\<close> as the locale \<open>rust_ord\<close>, runs of step
      functions as the locales \<open>step_invariant\<close> and \<open>step_progress\<close>.
    \<^item> \<open>Timestamps\<close>, \<open>Clock\<close>: \<open>hlc/timestamp.rs\<close>, \<open>hlc/clock.rs\<close> and the wall clocks.
      The order is shown total with the intent timestamp on top; runs of a clock are monotone.
    \<^item> \<open>Mvcc_Key\<close>, \<open>Txn\<close>, \<open>Storage\<close>: \<open>storage/mvcc_key.rs\<close>, \<open>storage/txn.rs\<close>,
      \<open>storage/storage.rs\<close>. RocksDB, \<open>serde_json\<close> and the printing of identifiers are the
      fields of the record \<open>env\<close>; \<open>platform_ok\<close> is what their documentation promises.
      \<open>db_is\<close> abstracts a database state to a map of versions and a map of records, and
      every storage operation is shown to act on these maps.
    \<^item> \<open>Mvcc_Iterator\<close>, \<open>Mvcc_Scanner\<close>, \<open>Mvcc\<close>: \<open>storage/mvcc_iterator.rs\<close>,
      \<open>storage/mvcc_scanner.rs\<close>, \<open>storage/mvcc.rs\<close>. \<open>newest_version\<close> is the
      specification of a point read.
    \<^item> \<open>Reference_Platform\<close>: one concrete platform that satisfies \<open>platform_ok\<close>.
    \<^item> \<open>Store_Properties\<close>: the properties of the store and the clock.
    \<^item> \<open>Llrb\<close>: the operations of \<open>llrb/llrb.rs\<close> on the arena. \<open>Llrb_Arena\<close>: the
      shape of the arena as a tree of indices, and the rotations on it. \<open>Llrb_Insert\<close>:
      insertion returns, keeps the order, and restores the red-black invariants.
    \<^item> \<open>Interval_Tree\<close>: \<open>interval/interval_tree.rs\<close>, with the locale
      \<open>interval_index\<close> as its contract. \<open>Request\<close>: the data of \<open>execute/request.rs\<close>.
      \<open>Oracle\<close>: \<open>timestamp_oracle/oracle.rs\<close>, over that contract.
    \<^item> \<open>Index_Properties\<close>: the properties of the trees and the oracle.
    \<^item> \<open>Lock_Table\<close>: the operations of \<open>lock_table/lock_table.rs\<close> on explicit stores of locks,
      guards and transactions, with the invariant \<open>lock_inv\<close> that every operation keeps.
      \<open>Lock_Machine\<close>: the calls as events of a state machine, who owns a lock, how it passes on.
      \<open>Lock_Properties\<close>: the properties of the lock table.
    \<^item> \<open>Txn_Wait_Queue\<close>: the operations of \<open>txn_wait/txn_wait_queue.rs\<close>, the queue as a state
      machine with its invariant, and who waits for whom. \<open>Wait_Properties\<close>: deadlocks are
      found, and waiting ends.
    \<^item> \<open>Executor\<close>: \<open>execute\<close> of every command, the executor and the concurrency manager over
      the joined state \<open>exec\<close>. \<open>Executor_Effects\<close>: their loops on the store, the locks and the
      queue, and \<open>in_flight\<close>, the relation between the three for a running transaction.
      \<open>Executor_Properties\<close>: commit, abort, put and refresh across the components, and how a transaction that
      ends lets those go on that waited for it.
    \<^item> \<open>Latch_Tree\<close>: the B-tree of \<open>latch_manager/latch_interval_btree.rs\<close>. \<open>Latch_Insert\<close>: its shape
      (\<open>ok\<close>), and insertion for every order from three on. \<open>Latch_Small\<close>: insertion and deletion in the tree of
      order three with at most four latches, as an interpretation of the contract
      \<open>latch_index\<close>. \<open>Latch_Manager\<close>: acquiring and releasing as the step relation
      \<open>latch_step\<close>, with its invariant. \<open>Latch_Properties\<close>: mutual exclusion, progress, and
      what goes wrong with five latches.
    \<^item> \<open>Concurrency\<close>: the concurrency manager with both its parts, the latches and the lock table, and any number of
      requests, as the step relation \<open>cm_step\<close>; each of its steps is a step of the latch manager or an event of
      the lock table. \<open>Sequencing\<close>: what the lock table guarantees to a request that has been sequenced, when a
      transaction has one request at a time (\<open>orderly\<close>). \<open>Concurrency_Properties\<close>: requests that run at the
      same time touch different keys, and a sequenced write can take its lock.
    \<^item> \<open>Database\<close>: the operations of \<open>db/db.rs\<close> and \<open>db/request_queue.rs\<close> on the state \<open>internal_db\<close>.
      \<open>Database_Effects\<close>: whole requests of a transaction that meets no other; \<open>quiet\<close> abstracts the
      database between transactions to its map of versions, and \<open>session\<close> describes it during one.
      \<open>Database_Writes\<close>: the requests that write, commit and abort. \<open>Database_Properties\<close>: \<open>run_txn\<close> from one
      quiet state to the next, why a transaction that reads never commits, and how a committed write can be lost.
    \<^item> \<open>Lock_Frames\<close>: what the calls of one request leave alone for the other transactions. \<open>Isolation\<close>: an
      abstract specification with committed versions and a private write buffer per running transaction
      (\<open>spec\<close>, \<open>spec_event\<close>, \<open>allowed\<close>), the executor as a machine whose events are executions of
      requests and calls on the lock table (\<open>exec_event\<close>), and the relation \<open>relates\<close> between them.
      \<open>Isolation_Steps\<close>: a forward simulation, event by event. \<open>Isolation_Properties\<close>: every interleaving
      of transactions refines the specification, conflicting reads and writes included.

  Concurrency. A call of a task on a shared component is one step; runs are lists of such steps
  (\<open>run_steps\<close>), so the theorems about runs hold for every interleaving of calls. Where a task
  suspends in the middle of an operation, what other tasks did in between is an argument (the
  results of pushes in \<open>wait_for\<close>, of waits in \<open>sequence_req\<close>, the messages of
  \<open>wait_for_push\<close>). A send into a full channel is the value \<open>None\<close>; the invariants show that
  the modelled sends never meet a full channel. No fuel is used: every loop is structural, has a
  termination proof, or is a \<open>partial_function\<close> shown to return.

  Not modelled. RocksDB, \<open>serde_json\<close> and the printing of identifiers are parameters. Opening a
  database, printing, and the spawning of tasks are I/O. In the latch tree each call is one step. A call does not
  suspend, so this is exact while one thread runs the tasks; on a runtime with several threads the source lets calls overlap, on the same subtree
  too: \<open>insert\<close> and \<open>delete\<close> clone the root's link before they latch the root, and \<open>insert_helper\<close> and
  \<open>delete_helper\<close> read the child's size under a latch of its own and drop a safe parent's latch before they take the child's. The
  exclusion of latches and of sequenced requests is shown for calls that do not overlap, and while at most four latches are held. The function \<open>sequence_req\<close>, which the
  executor calls, leaves the latches to \<open>cm_step\<close>. Transactions that run at the same time are covered up to the executor; the properties
  of the front end are about transactions that run one after another. The attempts of \<open>run_txn\<close> are a list, and a loop that
  outlives it is the value \<open>None\<close>, as is a request that waits for longer than its list of waits; the property about a transaction
  that only reads says of each attempt that it returned. In the refinement an event runs when its guard \<open>admissible\<close> holds. Requests that
  meet the intent of another transaction are admissible, and so are reads of absent keys; not covered are a read of a key beyond the last stored key,
  which answers with the last entry of the store, a write of a key whose lock is reserved for another transaction
  that has not written, where \<open>acquire_lock\<close> panics and which sequencing prevents, requests of a transaction that has ended, and commit timestamps
  that cannot be encoded. What the executor does after a write intent error (it pushes the other transaction) is the
  business of \<open>Executor\<close> and \<open>Txn_Wait_Queue\<close> and not an event of the refinement.
\<close>

end
